theory Spec2Isabelle
  imports Main "HOL-Library.Word" "HOL-Library.Log_Nat"
begin

unbundle bit_operations_syntax

section \<open>The program\<close>

text \<open>
  The repository's executable code is \<^verbatim>\<open>src/utils/crypto_utils.js\<close>: two functions,
  \<^verbatim>\<open>encryptWithDynamicIV(value, keyStr)\<close> and \<^verbatim>\<open>decryptWithDynamicIV(ciphertextBase64, keyStr)\<close>.
  Both are short compositions of calls into the JavaScript platform (\<^verbatim>\<open>JSON\<close>,
  \<^verbatim>\<open>Date.now\<close>, \<^verbatim>\<open>Math.abs\<close>) and into the \<^verbatim>\<open>crypto-js\<close> package
  (\<^verbatim>\<open>CryptoJS.enc.Utf8\<close>, \<^verbatim>\<open>CryptoJS.enc.Base64\<close>, \<^verbatim>\<open>CryptoJS.lib.WordArray\<close>,
  \<^verbatim>\<open>CryptoJS.AES\<close> with \<^verbatim>\<open>CryptoJS.mode.CBC\<close> and \<^verbatim>\<open>CryptoJS.pad.Pkcs7\<close>).
  The two functions are embedded statement by statement at the end of the definitions;
  before them come executable models of the platform and package functions they call,
  each named after the function it models. The two sources of nondeterminism,
  \<^verbatim>\<open>Date.now()\<close> and \<^verbatim>\<open>WordArray.random(16)\<close>, are explicit arguments.
\<close>

subsection \<open>Bytes, 32-bit words, strings\<close>

type_synonym byte = "8 word"
type_synonym word32 = "32 word"

text \<open>A JavaScript string is a sequence of 16-bit UTF-16 code units.\<close>

type_synonym jsstring = "16 word list"

definition js_of :: "string \<Rightarrow> jsstring" where
  "js_of s = map (\<lambda>c. of_nat (of_char c)) s"

text \<open>The errors the calls below can throw, by JavaScript error class.\<close>

datatype js_error =
    URIError            \<comment> \<open>\<^verbatim>\<open>encodeURIComponent\<close> on an unpaired surrogate\<close>
  | MalformedUtf8       \<comment> \<open>crypto-js: \<^verbatim>\<open>new Error('Malformed UTF-8 data')\<close>\<close>
  | SyntaxError         \<comment> \<open>\<^verbatim>\<open>JSON.parse\<close>\<close>
  | TypeError           \<comment> \<open>property access on \<^verbatim>\<open>null\<close>, conversion of an object to a primitive\<close>

subsection \<open>crypto-js: \<^verbatim>\<open>lib.WordArray\<close>\<close>

text \<open>
  A \<^verbatim>\<open>WordArray\<close> is an array of 32-bit words holding big-endian bytes, with the
  number of significant bytes. \<^verbatim>\<open>sigBytes\<close> is a plain number: the program computes
  \<^verbatim>\<open>rawData.sigBytes - 16\<close>, which can be negative.
\<close>

record WordArray =
  words :: "word32 list"
  sigBytes :: int

definition WordArray_create :: "word32 list \<Rightarrow> int \<Rightarrow> WordArray" where
  "WordArray_create ws n = \<lparr>words = ws, sigBytes = n\<rparr>"

text \<open>
  Reading \<^verbatim>\<open>words[i]\<close> past the end gives \<^verbatim>\<open>undefined\<close>, and every use below is
  under a bitwise operator, which reads \<^verbatim>\<open>undefined\<close> as 0.
\<close>

definition word_at :: "word32 list \<Rightarrow> nat \<Rightarrow> word32" where
  "word_at ws i = (if i < length ws then ws ! i else 0)"

text \<open>\<^verbatim>\<open>(words[i >>> 2] >>> (24 - (i % 4) * 8)) & 0xff\<close>\<close>

definition byte_at :: "word32 list \<Rightarrow> nat \<Rightarrow> byte" where
  "byte_at ws i = ucast (drop_bit (24 - 8 * (i mod 4)) (word_at ws (i div 4)))"

definition bytes_word :: "byte \<Rightarrow> byte \<Rightarrow> byte \<Rightarrow> byte \<Rightarrow> word32" where
  "bytes_word a b c d =
     push_bit 24 (ucast a) OR push_bit 16 (ucast b) OR push_bit 8 (ucast c) OR ucast d"

text \<open>
  \<^verbatim>\<open>words[i >>> 2] |= byte << (24 - (i % 4) * 8)\<close> for \<open>i = 0, 1, ...\<close>: bytes are packed
  four to a word, the last word filled with zero bits.
\<close>

fun pack_bytes :: "byte list \<Rightarrow> word32 list" where
  "pack_bytes (a # b # c # d # r) = bytes_word a b c d # pack_bytes r"
| "pack_bytes [a, b, c] = [bytes_word a b c 0]"
| "pack_bytes [a, b] = [bytes_word a b 0 0]"
| "pack_bytes [a] = [bytes_word a 0 0 0]"
| "pack_bytes [] = []"

text \<open>
  \<^verbatim>\<open>enc.Latin1.stringify\<close> reads the first \<^verbatim>\<open>sigBytes\<close> bytes (none when
  \<^verbatim>\<open>sigBytes\<close> is zero or negative: its loop is \<^verbatim>\<open>for (i = 0; i < sigBytes; i++)\<close>);
  \<^verbatim>\<open>enc.Latin1.parse\<close> packs the character codes of a string. The strings on both
  sides hold one byte per character and are kept as byte lists.
\<close>

definition Latin1_stringify :: "WordArray \<Rightarrow> byte list" where
  "Latin1_stringify wa = map (byte_at (words wa)) [0..<nat (sigBytes wa)]"

definition Latin1_parse :: "byte list \<Rightarrow> WordArray" where
  "Latin1_parse bs = \<lparr>words = pack_bytes bs, sigBytes = int (length bs)\<rparr>"

text \<open>
  \<^verbatim>\<open>clamp\<close> zeroes the bits after the last significant byte and cuts the array to
  \<^verbatim>\<open>ceil(sigBytes / 4)\<close> words: the words are the significant bytes, packed again.
  The program only reaches it with \<^verbatim>\<open>sigBytes >= 0\<close>.
\<close>

definition clamp :: "WordArray \<Rightarrow> WordArray" where
  "clamp wa = wa\<lparr>words := pack_bytes (Latin1_stringify wa)\<rparr>"

text \<open>
  \<^verbatim>\<open>concat\<close>: clamp the receiver; when its length is not a multiple of four, or in
  the bytes of the argument one at a time, else copy the argument's words
  \<^verbatim>\<open>for (j = 0; j < thatSigBytes; j += 4) thisWords[(thisSigBytes + j) >>> 2] = thatWords[j >>> 2]\<close>.
\<close>

definition concat_wa :: "WordArray \<Rightarrow> WordArray \<Rightarrow> WordArray" where
  "concat_wa this that =
     (if sigBytes this mod 4 \<noteq> 0
      then \<lparr>words = pack_bytes (Latin1_stringify this @ Latin1_stringify that),
            sigBytes = sigBytes this + sigBytes that\<rparr>
      else \<lparr>words = words (clamp this) @
                    map (word_at (words that)) [0..<nat ((sigBytes that + 3) div 4)],
            sigBytes = sigBytes this + sigBytes that\<rparr>)"

subsection \<open>crypto-js: \<^verbatim>\<open>enc.Base64\<close>\<close>

definition b64_map :: jsstring where
  "b64_map = js_of ''ABCDEFGHIJKLMNOPQRSTUVWXYZabcdefghijklmnopqrstuvwxyz0123456789+/=''"

text \<open>\<^verbatim>\<open>map.charAt(n)\<close> for a 6-bit \<open>n\<close>.\<close>

definition b64_char :: "byte \<Rightarrow> 16 word" where
  "b64_char n = b64_map ! unat n"

fun index_of :: "'a \<Rightarrow> 'a list \<Rightarrow> nat option" where
  "index_of c [] = None"
| "index_of c (x # xs) = (if x = c then Some 0 else map_option Suc (index_of c xs))"

text \<open>
  \<^verbatim>\<open>reverseMap[code]\<close>: the position of the character in the map, \<^verbatim>\<open>undefined\<close> (0
  under the shifts that follow) for a character that is not in it.
\<close>

definition b64_rev :: "16 word \<Rightarrow> byte" where
  "b64_rev c = (case index_of c b64_map of None \<Rightarrow> 0 | Some n \<Rightarrow> of_nat n)"

text \<open>
  \<^verbatim>\<open>stringify\<close> takes the bytes three at a time (a missing byte reads as 0 after
  \<^verbatim>\<open>clamp\<close>), writes the four 6-bit groups of a full triplet, two characters for one
  remaining byte and three for two, and pads with \<^verbatim>\<open>=\<close> to a multiple of four.
\<close>

definition sextet0 :: "byte \<Rightarrow> byte" where "sextet0 a = drop_bit 2 a"
definition sextet1 :: "byte \<Rightarrow> byte \<Rightarrow> byte" where
  "sextet1 a b = push_bit 4 (a AND 3) OR drop_bit 4 b"
definition sextet2 :: "byte \<Rightarrow> byte \<Rightarrow> byte" where
  "sextet2 b c = push_bit 2 (b AND 15) OR drop_bit 6 c"
definition sextet3 :: "byte \<Rightarrow> byte" where "sextet3 c = c AND 63"

fun b64_encode :: "byte list \<Rightarrow> jsstring" where
  "b64_encode (a # b # c # r) =
     b64_char (sextet0 a) # b64_char (sextet1 a b) # b64_char (sextet2 b c) #
     b64_char (sextet3 c) # b64_encode r"
| "b64_encode [a, b] =
     [b64_char (sextet0 a), b64_char (sextet1 a b), b64_char (sextet2 b 0), 0x3D]"
| "b64_encode [a] = [b64_char (sextet0 a), b64_char (sextet1 a 0), 0x3D, 0x3D]"
| "b64_encode [] = []"

definition Base64_stringify :: "WordArray \<Rightarrow> jsstring" where
  "Base64_stringify wa = b64_encode (Latin1_stringify wa)"

text \<open>
  \<^verbatim>\<open>parseLoop\<close>: for every index \<open>i\<close> with \<open>i % 4 \<noteq> 0\<close> one byte
  \<^verbatim>\<open>(reverseMap[s[i-1]] << ((i % 4) * 2)) | (reverseMap[s[i]] >>> (6 - (i % 4) * 2))\<close>,
  of which the low eight bits are new in the word it is or-ed into. No character is
  rejected.
\<close>

definition b64_join :: "nat \<Rightarrow> 16 word \<Rightarrow> 16 word \<Rightarrow> byte" where
  "b64_join k c0 c1 = push_bit (2 * k) (b64_rev c0) OR drop_bit (6 - 2 * k) (b64_rev c1)"

fun b64_decode :: "jsstring \<Rightarrow> byte list" where
  "b64_decode (c0 # c1 # c2 # c3 # r) =
     b64_join 1 c0 c1 # b64_join 2 c1 c2 # b64_join 3 c2 c3 # b64_decode r"
| "b64_decode [c0, c1, c2] = [b64_join 1 c0 c1, b64_join 2 c1 c2]"
| "b64_decode [c0, c1] = [b64_join 1 c0 c1]"
| "b64_decode [c0] = []"
| "b64_decode [] = []"

text \<open>\<^verbatim>\<open>parse\<close> stops at the first padding character, if there is one.\<close>

definition Base64_parse :: "jsstring \<Rightarrow> WordArray" where
  "Base64_parse s = Latin1_parse (b64_decode (takeWhile (\<lambda>c. c \<noteq> 0x3D) s))"

subsection \<open>crypto-js: \<^verbatim>\<open>enc.Utf8\<close>\<close>

text \<open>
  \<^verbatim>\<open>Utf8.parse(s)\<close> is \<^verbatim>\<open>Latin1.parse(unescape(encodeURIComponent(s)))\<close>.
  \<^verbatim>\<open>encodeURIComponent\<close> walks the code points of the string, throws a
  \<^verbatim>\<open>URIError\<close> at a surrogate code unit that is not part of a pair, and writes the
  UTF-8 bytes of every other code point (\<^verbatim>\<open>unescape\<close> turns its \<^verbatim>\<open>%XX\<close> back into single
  characters). The arithmetic is on the numeric values of the code units.
\<close>

fun utf8_enc :: "int list \<Rightarrow> int list option" where
  "utf8_enc [] = Some []"
| "utf8_enc (c # cs) =
     (if c < 0x80 then map_option ((#) c) (utf8_enc cs)
      else if c < 0x800 then
        map_option (\<lambda>r. (0xC0 + c div 64) # (0x80 + c mod 64) # r) (utf8_enc cs)
      else if c < 0xD800 \<or> 0xE000 \<le> c then
        map_option (\<lambda>r. (0xE0 + c div 4096) # (0x80 + c div 64 mod 64) # (0x80 + c mod 64) # r)
          (utf8_enc cs)
      else if 0xDC00 \<le> c then None
      else (case cs of
              [] \<Rightarrow> None
            | k # cs' \<Rightarrow>
                if k < 0xDC00 \<or> 0xE000 \<le> k then None
                else (let v = (c - 0xD800) * 0x400 + (k - 0xDC00) + 0x10000
                      in map_option
                           (\<lambda>r. (0xF0 + v div 262144) # (0x80 + v div 4096 mod 64) #
                                (0x80 + v div 64 mod 64) # (0x80 + v mod 64) # r)
                           (utf8_enc cs'))))"

definition utf8_encode :: "jsstring \<Rightarrow> byte list option" where
  "utf8_encode s = map_option (map word_of_int) (utf8_enc (map uint s))"

definition Utf8_parse :: "jsstring \<Rightarrow> js_error + WordArray" where
  "Utf8_parse s =
     (case utf8_encode s of None \<Rightarrow> Inl URIError | Some bs \<Rightarrow> Inr (Latin1_parse bs))"

text \<open>
  \<^verbatim>\<open>Utf8.stringify(wa)\<close> is \<^verbatim>\<open>decodeURIComponent(escape(Latin1.stringify(wa)))\<close>, with
  every exception replaced by \<^verbatim>\<open>Error('Malformed UTF-8 data')\<close>. \<^verbatim>\<open>escape\<close> writes a
  byte as itself or as \<^verbatim>\<open>%XX\<close>; \<^verbatim>\<open>decodeURIComponent\<close> reads a byte below 0x80 as a
  character, and from a lead byte with \<open>n\<close> leading one bits (\<open>n\<close> = 2, 3 or 4) reads
  \<open>n - 1\<close> continuation bytes; it throws when a byte is missing or is not a continuation
  byte, and when the bytes are not the UTF-8 encoding of a code point (too long an
  encoding, a surrogate, a value above 0x10FFFF). A code point from 0x10000 on becomes a
  surrogate pair.
\<close>

definition utf8_cont :: "int \<Rightarrow> bool" where
  "utf8_cont b = (0x80 \<le> b \<and> b < 0xC0)"

fun utf8_dec :: "int list \<Rightarrow> int list option" where
  "utf8_dec [] = Some []"
| "utf8_dec (b # bs) =
     (if b < 0x80 then map_option ((#) b) (utf8_dec bs)
      else if b < 0xC0 then None
      else if b < 0xE0 then
        (case bs of
           b1 # r \<Rightarrow>
             (let v = (b - 0xC0) * 64 + (b1 - 0x80)
              in if utf8_cont b1 \<and> 0x80 \<le> v then map_option ((#) v) (utf8_dec r) else None)
         | _ \<Rightarrow> None)
      else if b < 0xF0 then
        (case bs of
           b1 # b2 # r \<Rightarrow>
             (let v = (b - 0xE0) * 4096 + (b1 - 0x80) * 64 + (b2 - 0x80)
              in if utf8_cont b1 \<and> utf8_cont b2 \<and> 0x800 \<le> v \<and> (v < 0xD800 \<or> 0xE000 \<le> v)
                 then map_option ((#) v) (utf8_dec r) else None)
         | _ \<Rightarrow> None)
      else if b < 0xF8 then
        (case bs of
           b1 # b2 # b3 # r \<Rightarrow>
             (let v = (b - 0xF0) * 262144 + (b1 - 0x80) * 4096 + (b2 - 0x80) * 64 + (b3 - 0x80)
              in if utf8_cont b1 \<and> utf8_cont b2 \<and> utf8_cont b3 \<and> 0x10000 \<le> v \<and> v \<le> 0x10FFFF
                 then map_option
                        (\<lambda>r'. (0xD800 + (v - 0x10000) div 0x400) #
                              (0xDC00 + (v - 0x10000) mod 0x400) # r')
                        (utf8_dec r)
                 else None)
         | _ \<Rightarrow> None)
      else None)"

definition utf8_decode :: "byte list \<Rightarrow> jsstring option" where
  "utf8_decode bs = map_option (map word_of_int) (utf8_dec (map uint bs))"

definition Utf8_stringify :: "WordArray \<Rightarrow> js_error + jsstring" where
  "Utf8_stringify wa =
     (case utf8_decode (Latin1_stringify wa) of None \<Rightarrow> Inl MalformedUtf8 | Some s \<Rightarrow> Inr s)"

subsection \<open>crypto-js: \<^verbatim>\<open>algo.AES\<close>\<close>

text \<open>
  The lookup tables. crypto-js computes them when it is loaded; \<^verbatim>\<open>SBOX\<close> and
  \<^verbatim>\<open>INV_SBOX\<close> are the Rijndael S-box and its inverse, written out.
\<close>

definition SBOX_table :: "byte list" where
  "SBOX_table =
    [0x63, 0x7c, 0x77, 0x7b, 0xf2, 0x6b, 0x6f, 0xc5, 0x30, 0x01, 0x67, 0x2b, 0xfe, 0xd7, 0xab, 0x76,
     0xca, 0x82, 0xc9, 0x7d, 0xfa, 0x59, 0x47, 0xf0, 0xad, 0xd4, 0xa2, 0xaf, 0x9c, 0xa4, 0x72, 0xc0,
     0xb7, 0xfd, 0x93, 0x26, 0x36, 0x3f, 0xf7, 0xcc, 0x34, 0xa5, 0xe5, 0xf1, 0x71, 0xd8, 0x31, 0x15,
     0x04, 0xc7, 0x23, 0xc3, 0x18, 0x96, 0x05, 0x9a, 0x07, 0x12, 0x80, 0xe2, 0xeb, 0x27, 0xb2, 0x75,
     0x09, 0x83, 0x2c, 0x1a, 0x1b, 0x6e, 0x5a, 0xa0, 0x52, 0x3b, 0xd6, 0xb3, 0x29, 0xe3, 0x2f, 0x84,
     0x53, 0xd1, 0x00, 0xed, 0x20, 0xfc, 0xb1, 0x5b, 0x6a, 0xcb, 0xbe, 0x39, 0x4a, 0x4c, 0x58, 0xcf,
     0xd0, 0xef, 0xaa, 0xfb, 0x43, 0x4d, 0x33, 0x85, 0x45, 0xf9, 0x02, 0x7f, 0x50, 0x3c, 0x9f, 0xa8,
     0x51, 0xa3, 0x40, 0x8f, 0x92, 0x9d, 0x38, 0xf5, 0xbc, 0xb6, 0xda, 0x21, 0x10, 0xff, 0xf3, 0xd2,
     0xcd, 0x0c, 0x13, 0xec, 0x5f, 0x97, 0x44, 0x17, 0xc4, 0xa7, 0x7e, 0x3d, 0x64, 0x5d, 0x19, 0x73,
     0x60, 0x81, 0x4f, 0xdc, 0x22, 0x2a, 0x90, 0x88, 0x46, 0xee, 0xb8, 0x14, 0xde, 0x5e, 0x0b, 0xdb,
     0xe0, 0x32, 0x3a, 0x0a, 0x49, 0x06, 0x24, 0x5c, 0xc2, 0xd3, 0xac, 0x62, 0x91, 0x95, 0xe4, 0x79,
     0xe7, 0xc8, 0x37, 0x6d, 0x8d, 0xd5, 0x4e, 0xa9, 0x6c, 0x56, 0xf4, 0xea, 0x65, 0x7a, 0xae, 0x08,
     0xba, 0x78, 0x25, 0x2e, 0x1c, 0xa6, 0xb4, 0xc6, 0xe8, 0xdd, 0x74, 0x1f, 0x4b, 0xbd, 0x8b, 0x8a,
     0x70, 0x3e, 0xb5, 0x66, 0x48, 0x03, 0xf6, 0x0e, 0x61, 0x35, 0x57, 0xb9, 0x86, 0xc1, 0x1d, 0x9e,
     0xe1, 0xf8, 0x98, 0x11, 0x69, 0xd9, 0x8e, 0x94, 0x9b, 0x1e, 0x87, 0xe9, 0xce, 0x55, 0x28, 0xdf,
     0x8c, 0xa1, 0x89, 0x0d, 0xbf, 0xe6, 0x42, 0x68, 0x41, 0x99, 0x2d, 0x0f, 0xb0, 0x54, 0xbb, 0x16]"

definition INV_SBOX_table :: "byte list" where
  "INV_SBOX_table =
    [0x52, 0x09, 0x6a, 0xd5, 0x30, 0x36, 0xa5, 0x38, 0xbf, 0x40, 0xa3, 0x9e, 0x81, 0xf3, 0xd7, 0xfb,
     0x7c, 0xe3, 0x39, 0x82, 0x9b, 0x2f, 0xff, 0x87, 0x34, 0x8e, 0x43, 0x44, 0xc4, 0xde, 0xe9, 0xcb,
     0x54, 0x7b, 0x94, 0x32, 0xa6, 0xc2, 0x23, 0x3d, 0xee, 0x4c, 0x95, 0x0b, 0x42, 0xfa, 0xc3, 0x4e,
     0x08, 0x2e, 0xa1, 0x66, 0x28, 0xd9, 0x24, 0xb2, 0x76, 0x5b, 0xa2, 0x49, 0x6d, 0x8b, 0xd1, 0x25,
     0x72, 0xf8, 0xf6, 0x64, 0x86, 0x68, 0x98, 0x16, 0xd4, 0xa4, 0x5c, 0xcc, 0x5d, 0x65, 0xb6, 0x92,
     0x6c, 0x70, 0x48, 0x50, 0xfd, 0xed, 0xb9, 0xda, 0x5e, 0x15, 0x46, 0x57, 0xa7, 0x8d, 0x9d, 0x84,
     0x90, 0xd8, 0xab, 0x00, 0x8c, 0xbc, 0xd3, 0x0a, 0xf7, 0xe4, 0x58, 0x05, 0xb8, 0xb3, 0x45, 0x06,
     0xd0, 0x2c, 0x1e, 0x8f, 0xca, 0x3f, 0x0f, 0x02, 0xc1, 0xaf, 0xbd, 0x03, 0x01, 0x13, 0x8a, 0x6b,
     0x3a, 0x91, 0x11, 0x41, 0x4f, 0x67, 0xdc, 0xea, 0x97, 0xf2, 0xcf, 0xce, 0xf0, 0xb4, 0xe6, 0x73,
     0x96, 0xac, 0x74, 0x22, 0xe7, 0xad, 0x35, 0x85, 0xe2, 0xf9, 0x37, 0xe8, 0x1c, 0x75, 0xdf, 0x6e,
     0x47, 0xf1, 0x1a, 0x71, 0x1d, 0x29, 0xc5, 0x89, 0x6f, 0xb7, 0x62, 0x0e, 0xaa, 0x18, 0xbe, 0x1b,
     0xfc, 0x56, 0x3e, 0x4b, 0xc6, 0xd2, 0x79, 0x20, 0x9a, 0xdb, 0xc0, 0xfe, 0x78, 0xcd, 0x5a, 0xf4,
     0x1f, 0xdd, 0xa8, 0x33, 0x88, 0x07, 0xc7, 0x31, 0xb1, 0x12, 0x10, 0x59, 0x27, 0x80, 0xec, 0x5f,
     0x60, 0x51, 0x7f, 0xa9, 0x19, 0xb5, 0x4a, 0x0d, 0x2d, 0xe5, 0x7a, 0x9f, 0x93, 0xc9, 0x9c, 0xef,
     0xa0, 0xe0, 0x3b, 0x4d, 0xae, 0x2a, 0xf5, 0xb0, 0xc8, 0xeb, 0xbb, 0x3c, 0x83, 0x53, 0x99, 0x61,
     0x17, 0x2b, 0x04, 0x7e, 0xba, 0x77, 0xd6, 0x26, 0xe1, 0x69, 0x14, 0x63, 0x55, 0x21, 0x0c, 0x7d]"

definition SBOX :: "byte \<Rightarrow> byte" where
  "SBOX x = SBOX_table ! unat x"

definition INV_SBOX :: "byte \<Rightarrow> byte" where
  "INV_SBOX x = INV_SBOX_table ! unat x"

text \<open>The doubling table \<^verbatim>\<open>d[i] = i < 128 ? i << 1 : (i << 1) ^ 0x11b\<close>.\<close>

definition dbl :: "byte \<Rightarrow> byte" where
  "dbl i = (if i < 128 then push_bit 1 i else push_bit 1 i XOR 0x1b)"

text \<open>
  \<^verbatim>\<open>t = (d[sx] * 0x101) ^ (sx * 0x1010100)\<close> with \<^verbatim>\<open>sx = SBOX[x]\<close>, and
  \<^verbatim>\<open>SUB_MIX_0[x] = (t << 24) | (t >>> 8)\<close>, \<^verbatim>\<open>SUB_MIX_1[x] = (t << 16) | (t >>> 16)\<close>,
  \<^verbatim>\<open>SUB_MIX_2[x] = (t << 8) | (t >>> 24)\<close>, \<^verbatim>\<open>SUB_MIX_3[x] = t\<close>.
\<close>

definition SUB_MIX_3 :: "byte \<Rightarrow> word32" where
  "SUB_MIX_3 x = (let sx = SBOX x in ucast (dbl sx) * 0x101 XOR ucast sx * 0x1010100)"

definition SUB_MIX_0 :: "byte \<Rightarrow> word32" where
  "SUB_MIX_0 x = (let t = SUB_MIX_3 x in push_bit 24 t OR drop_bit 8 t)"

definition SUB_MIX_1 :: "byte \<Rightarrow> word32" where
  "SUB_MIX_1 x = (let t = SUB_MIX_3 x in push_bit 16 t OR drop_bit 16 t)"

definition SUB_MIX_2 :: "byte \<Rightarrow> word32" where
  "SUB_MIX_2 x = (let t = SUB_MIX_3 x in push_bit 8 t OR drop_bit 24 t)"

text \<open>
  The inverse tables are indexed by \<^verbatim>\<open>sx\<close>:
  \<^verbatim>\<open>t = (x8 * 0x1010101) ^ (x4 * 0x10001) ^ (x2 * 0x101) ^ (x * 0x1010100)\<close> with
  \<^verbatim>\<open>x2 = d[x]\<close>, \<^verbatim>\<open>x4 = d[x2]\<close>, \<^verbatim>\<open>x8 = d[x4]\<close>, stored at \<^verbatim>\<open>INV_SUB_MIX_3[sx]\<close>.
\<close>

definition inv_mix :: "byte \<Rightarrow> word32" where
  "inv_mix x =
     (let x2 = dbl x; x4 = dbl x2; x8 = dbl x4
      in ucast x8 * 0x1010101 XOR ucast x4 * 0x10001 XOR ucast x2 * 0x101 XOR ucast x * 0x1010100)"

definition INV_SUB_MIX_3 :: "byte \<Rightarrow> word32" where
  "INV_SUB_MIX_3 sx = inv_mix (INV_SBOX sx)"

definition INV_SUB_MIX_0 :: "byte \<Rightarrow> word32" where
  "INV_SUB_MIX_0 sx = (let t = INV_SUB_MIX_3 sx in push_bit 24 t OR drop_bit 8 t)"

definition INV_SUB_MIX_1 :: "byte \<Rightarrow> word32" where
  "INV_SUB_MIX_1 sx = (let t = INV_SUB_MIX_3 sx in push_bit 16 t OR drop_bit 16 t)"

definition INV_SUB_MIX_2 :: "byte \<Rightarrow> word32" where
  "INV_SUB_MIX_2 sx = (let t = INV_SUB_MIX_3 sx in push_bit 8 t OR drop_bit 24 t)"

definition RCON :: "word32 list" where
  "RCON = [0x00, 0x01, 0x02, 0x04, 0x08, 0x10, 0x20, 0x40, 0x80, 0x1b, 0x36]"

text \<open>The four bytes of a word: \<^verbatim>\<open>t >>> 24\<close>, \<^verbatim>\<open>(t >>> 16) & 0xff\<close>, \<^verbatim>\<open>(t >>> 8) & 0xff\<close>, \<^verbatim>\<open>t & 0xff\<close>.\<close>

definition byte0 :: "word32 \<Rightarrow> byte" where "byte0 t = ucast (drop_bit 24 t)"
definition byte1 :: "word32 \<Rightarrow> byte" where "byte1 t = ucast (drop_bit 16 t)"
definition byte2 :: "word32 \<Rightarrow> byte" where "byte2 t = ucast (drop_bit 8 t)"
definition byte3 :: "word32 \<Rightarrow> byte" where "byte3 t = ucast t"

text \<open>
  \<^verbatim>\<open>_doReset\<close>, the key schedule. \<^verbatim>\<open>keySize = key.sigBytes / 4\<close> is a JavaScript
  number and need not be whole; \<^verbatim>\<open>nRounds = keySize + 6\<close> and
  \<^verbatim>\<open>ksRows = (nRounds + 1) * 4\<close>. There is no check of the key's length. Row
  \<^verbatim>\<open>ksRow\<close> is
  \<^verbatim>\<open>
    if (ksRow < keySize) keySchedule[ksRow] = keyWords[ksRow];
    else {
      t = keySchedule[ksRow - 1];
      if (!(ksRow % keySize)) {
        t = (t << 8) | (t >>> 24);
        t = (SBOX[t >>> 24] << 24) | (SBOX[(t >>> 16) & 0xff] << 16) | (SBOX[(t >>> 8) & 0xff] << 8) | SBOX[t & 0xff];
        t ^= RCON[(ksRow / keySize) | 0] << 24;
      } else if (keySize > 6 && ksRow % keySize == 4) {
        t = (SBOX[t >>> 24] << 24) | ... | SBOX[t & 0xff];
      }
      keySchedule[ksRow] = keySchedule[ksRow - keySize] ^ t;
    }
  \<close>
  With \<^verbatim>\<open>keySize\<close> zero, \<^verbatim>\<open>ksRow % keySize\<close> is \<^verbatim>\<open>NaN\<close> (so \<^verbatim>\<open>!(...)\<close> holds) and
  \<^verbatim>\<open>(ksRow / keySize) | 0\<close> is 0; an index that is not a whole number, or not yet
  written, reads \<^verbatim>\<open>undefined\<close>.
\<close>

definition sub_word :: "word32 \<Rightarrow> word32" where
  "sub_word t = bytes_word (SBOX (byte0 t)) (SBOX (byte1 t)) (SBOX (byte2 t)) (SBOX (byte3 t))"

definition js_rem :: "int \<Rightarrow> rat \<Rightarrow> rat" where
  "js_rem a b = of_int a - b * of_int \<lfloor>of_int a / b\<rfloor>"

definition word_at_int :: "word32 list \<Rightarrow> int \<Rightarrow> word32" where
  "word_at_int ws i = (if 0 \<le> i then word_at ws (nat i) else 0)"

definition rat_index :: "word32 list \<Rightarrow> rat \<Rightarrow> word32" where
  "rat_index ws r = (if r = of_int \<lfloor>r\<rfloor> then word_at_int ws \<lfloor>r\<rfloor> else 0)"

definition key_schedule_row :: "word32 list \<Rightarrow> rat \<Rightarrow> word32 list \<Rightarrow> int \<Rightarrow> word32" where
  "key_schedule_row keyWords keySize ks ksRow =
     (if of_int ksRow < keySize then word_at_int keyWords ksRow
      else
        (let t = word_at_int ks (ksRow - 1);
             t' = (if keySize = 0 \<or> js_rem ksRow keySize = 0
                   then sub_word (push_bit 8 t OR drop_bit 24 t) XOR
                        push_bit 24
                          (word_at_int RCON (if keySize = 0 then 0 else \<lfloor>of_int ksRow / keySize\<rfloor>))
                   else if keySize > 6 \<and> js_rem ksRow keySize = 4 then sub_word t
                   else t)
         in (if keySize = 0 then 0 else rat_index ks (of_int ksRow - keySize)) XOR t'))"

text \<open>The loop \<^verbatim>\<open>for (ksRow = 0; ksRow < ksRows; ksRow++)\<close>, by the number of rows left.\<close>

fun key_schedule_loop :: "word32 list \<Rightarrow> rat \<Rightarrow> nat \<Rightarrow> int \<Rightarrow> word32 list \<Rightarrow> word32 list" where
  "key_schedule_loop keyWords keySize 0 ksRow ks = ks"
| "key_schedule_loop keyWords keySize (Suc k) ksRow ks =
     key_schedule_loop keyWords keySize k (ksRow + 1)
       (ks @ [key_schedule_row keyWords keySize ks ksRow])"

text \<open>
  The inverse key schedule:
  \<^verbatim>\<open>
    ksRow = ksRows - invKsRow;
    t = invKsRow % 4 ? keySchedule[ksRow] : keySchedule[ksRow - 4];
    if (invKsRow < 4 || ksRow <= 4) invKeySchedule[invKsRow] = t;
    else invKeySchedule[invKsRow] =
      INV_SUB_MIX_0[SBOX[t >>> 24]] ^ INV_SUB_MIX_1[SBOX[(t >>> 16) & 0xff]] ^
      INV_SUB_MIX_2[SBOX[(t >>> 8) & 0xff]] ^ INV_SUB_MIX_3[SBOX[t & 0xff]];
  \<close>
\<close>

definition inv_mix_word :: "word32 \<Rightarrow> word32" where
  "inv_mix_word t =
     INV_SUB_MIX_0 (SBOX (byte0 t)) XOR INV_SUB_MIX_1 (SBOX (byte1 t)) XOR
     INV_SUB_MIX_2 (SBOX (byte2 t)) XOR INV_SUB_MIX_3 (SBOX (byte3 t))"

definition inv_key_schedule_row :: "word32 list \<Rightarrow> int \<Rightarrow> int \<Rightarrow> word32" where
  "inv_key_schedule_row ks ksRows invKsRow =
     (let ksRow = ksRows - invKsRow;
          t = (if invKsRow mod 4 \<noteq> 0 then word_at_int ks ksRow else word_at_int ks (ksRow - 4))
      in if invKsRow < 4 \<or> ksRow \<le> 4 then t else inv_mix_word t)"

record AES_state =
  nRounds :: rat
  keySchedule :: "word32 list"
  invKeySchedule :: "word32 list"

definition AES_doReset :: "WordArray \<Rightarrow> AES_state" where
  "AES_doReset key =
     (let keySize = of_int (sigBytes key) / 4;
          ksRows = sigBytes key + 28;
          ks = key_schedule_loop (words key) keySize (nat ksRows) 0 []
      in \<lparr>nRounds = keySize + 6,
          keySchedule = ks,
          invKeySchedule = map (inv_key_schedule_row ks ksRows) [0..ksRows - 1]\<rparr>)"

text \<open>
  \<^verbatim>\<open>_doCryptBlock\<close> works on the four words \<^verbatim>\<open>M[offset .. offset + 3]\<close>. One round:
  \<^verbatim>\<open>
    t0 = SUB_MIX_0[s0 >>> 24] ^ SUB_MIX_1[(s1 >>> 16) & 0xff] ^ SUB_MIX_2[(s2 >>> 8) & 0xff] ^ SUB_MIX_3[s3 & 0xff] ^ keySchedule[ksRow++];
    t1 = SUB_MIX_0[s1 >>> 24] ^ SUB_MIX_1[(s2 >>> 16) & 0xff] ^ SUB_MIX_2[(s3 >>> 8) & 0xff] ^ SUB_MIX_3[s0 & 0xff] ^ keySchedule[ksRow++];
    t2 = SUB_MIX_0[s2 >>> 24] ^ SUB_MIX_1[(s3 >>> 16) & 0xff] ^ SUB_MIX_2[(s0 >>> 8) & 0xff] ^ SUB_MIX_3[s1 & 0xff] ^ keySchedule[ksRow++];
    t3 = SUB_MIX_0[s3 >>> 24] ^ SUB_MIX_1[(s0 >>> 16) & 0xff] ^ SUB_MIX_2[(s1 >>> 8) & 0xff] ^ SUB_MIX_3[s2 & 0xff] ^ keySchedule[ksRow++];
  \<close>
  The loop is \<^verbatim>\<open>for (round = 1; round < nRounds; round++)\<close>: it runs
  \<open>\<lceil>nRounds\<rceil> - 1\<close> times. The last step uses \<^verbatim>\<open>SBOX\<close> alone.
\<close>

type_synonym block = "word32 \<times> word32 \<times> word32 \<times> word32"

definition xor_block :: "block \<Rightarrow> block \<Rightarrow> block" where
  "xor_block x y =
     (case x of (x0, x1, x2, x3) \<Rightarrow> case y of (y0, y1, y2, y3) \<Rightarrow>
        (x0 XOR y0, x1 XOR y1, x2 XOR y2, x3 XOR y3))"

definition key_block :: "word32 list \<Rightarrow> nat \<Rightarrow> block" where
  "key_block ks ksRow =
     (word_at ks ksRow, word_at ks (ksRow + 1), word_at ks (ksRow + 2), word_at ks (ksRow + 3))"

definition mix_round ::
  "(byte \<Rightarrow> word32) \<Rightarrow> (byte \<Rightarrow> word32) \<Rightarrow> (byte \<Rightarrow> word32) \<Rightarrow> (byte \<Rightarrow> word32) \<Rightarrow> block \<Rightarrow> block"
where
  "mix_round m0 m1 m2 m3 s =
     (case s of (s0, s1, s2, s3) \<Rightarrow>
        (m0 (byte0 s0) XOR m1 (byte1 s1) XOR m2 (byte2 s2) XOR m3 (byte3 s3),
         m0 (byte0 s1) XOR m1 (byte1 s2) XOR m2 (byte2 s3) XOR m3 (byte3 s0),
         m0 (byte0 s2) XOR m1 (byte1 s3) XOR m2 (byte2 s0) XOR m3 (byte3 s1),
         m0 (byte0 s3) XOR m1 (byte1 s0) XOR m2 (byte2 s1) XOR m3 (byte3 s2)))"

definition sub_round :: "(byte \<Rightarrow> byte) \<Rightarrow> block \<Rightarrow> block" where
  "sub_round sb s =
     (case s of (s0, s1, s2, s3) \<Rightarrow>
        (bytes_word (sb (byte0 s0)) (sb (byte1 s1)) (sb (byte2 s2)) (sb (byte3 s3)),
         bytes_word (sb (byte0 s1)) (sb (byte1 s2)) (sb (byte2 s3)) (sb (byte3 s0)),
         bytes_word (sb (byte0 s2)) (sb (byte1 s3)) (sb (byte2 s0)) (sb (byte3 s1)),
         bytes_word (sb (byte0 s3)) (sb (byte1 s0)) (sb (byte2 s1)) (sb (byte3 s2))))"

fun crypt_rounds ::
  "(block \<Rightarrow> block) \<Rightarrow> word32 list \<Rightarrow> nat \<Rightarrow> nat \<Rightarrow> block \<Rightarrow> block \<times> nat"
where
  "crypt_rounds rnd ks 0 ksRow s = (s, ksRow)"
| "crypt_rounds rnd ks (Suc n) ksRow s =
     crypt_rounds rnd ks n (ksRow + 4) (xor_block (rnd s) (key_block ks ksRow))"

definition doCryptBlock ::
  "rat \<Rightarrow> word32 list \<Rightarrow> (block \<Rightarrow> block) \<Rightarrow> (byte \<Rightarrow> byte) \<Rightarrow> block \<Rightarrow> block"
where
  "doCryptBlock nr ks rnd sb m =
     (case crypt_rounds rnd ks (nat (\<lceil>nr\<rceil> - 1)) 4 (xor_block m (key_block ks 0)) of
        (s, ksRow) \<Rightarrow> xor_block (sub_round sb s) (key_block ks ksRow))"

definition encryptBlock :: "AES_state \<Rightarrow> block \<Rightarrow> block" where
  "encryptBlock aes m =
     doCryptBlock (nRounds aes) (keySchedule aes)
       (mix_round SUB_MIX_0 SUB_MIX_1 SUB_MIX_2 SUB_MIX_3) SBOX m"

text \<open>\<^verbatim>\<open>decryptBlock\<close> swaps the second and fourth word before and after.\<close>

definition swap13 :: "block \<Rightarrow> block" where
  "swap13 m = (case m of (m0, m1, m2, m3) \<Rightarrow> (m0, m3, m2, m1))"

definition decryptBlock :: "AES_state \<Rightarrow> block \<Rightarrow> block" where
  "decryptBlock aes m =
     swap13 (doCryptBlock (nRounds aes) (invKeySchedule aes)
       (mix_round INV_SUB_MIX_0 INV_SUB_MIX_1 INV_SUB_MIX_2 INV_SUB_MIX_3) INV_SBOX (swap13 m))"

subsection \<open>crypto-js: \<^verbatim>\<open>mode.CBC\<close>, \<^verbatim>\<open>pad.Pkcs7\<close>, \<^verbatim>\<open>lib.BlockCipher\<close>\<close>

text \<open>
  \<^verbatim>\<open>_process(flush)\<close> takes \<^verbatim>\<open>nBlocksReady = Math.ceil(sigBytes / 16)\<close> blocks from
  the data words, \<^verbatim>\<open>nWordsReady = nBlocksReady * 4\<close> words, and hands each to the mode
  in place; a word the array does not have reads as \<^verbatim>\<open>undefined\<close>. With no block ready
  the result has no words. The result's \<^verbatim>\<open>sigBytes\<close> is
  \<^verbatim>\<open>Math.min(nWordsReady * 4, sigBytes)\<close>.
\<close>

definition nBlocksReady :: "int \<Rightarrow> nat" where
  "nBlocksReady n = nat ((n + 15) div 16)"

definition block_at :: "word32 list \<Rightarrow> nat \<Rightarrow> block" where
  "block_at ws k = (word_at ws (4 * k), word_at ws (4 * k + 1), word_at ws (4 * k + 2), word_at ws (4 * k + 3))"

definition blocks_of :: "WordArray \<Rightarrow> block list" where
  "blocks_of data = map (block_at (words data)) [0..<nBlocksReady (sigBytes data)]"

fun words_of_blocks :: "block list \<Rightarrow> word32 list" where
  "words_of_blocks [] = []"
| "words_of_blocks ((w0, w1, w2, w3) # bs) = w0 # w1 # w2 # w3 # words_of_blocks bs"

text \<open>
  CBC. The encryptor xors the previous ciphertext block (first the IV) into the block
  and encrypts; the decryptor keeps the ciphertext block, decrypts, and xors the
  previous ciphertext block (first the IV) into the result. The IV is passed as its
  array of words, \<^verbatim>\<open>cfg.iv.words\<close>.
\<close>

fun CBC_encrypt :: "(block \<Rightarrow> block) \<Rightarrow> block \<Rightarrow> block list \<Rightarrow> block list" where
  "CBC_encrypt enc prev [] = []"
| "CBC_encrypt enc prev (b # bs) =
     (let c = enc (xor_block b prev) in c # CBC_encrypt enc c bs)"

fun CBC_decrypt :: "(block \<Rightarrow> block) \<Rightarrow> block \<Rightarrow> block list \<Rightarrow> block list" where
  "CBC_decrypt dec prev [] = []"
| "CBC_decrypt dec prev (c # cs) = xor_block (dec c) prev # CBC_decrypt dec c cs"

definition process :: "(block list \<Rightarrow> block list) \<Rightarrow> WordArray \<Rightarrow> WordArray" where
  "process mode data =
     \<lparr>words = words_of_blocks (mode (blocks_of data)),
      sigBytes = min (int (nBlocksReady (sigBytes data)) * 16) (sigBytes data)\<rparr>"

text \<open>
  \<^verbatim>\<open>Pkcs7.pad\<close>: \<^verbatim>\<open>nPaddingBytes = 16 - data.sigBytes % 16\<close>, a word of four such
  bytes pushed \<^verbatim>\<open>for (i = 0; i < nPaddingBytes; i += 4)\<close>, and
  \<^verbatim>\<open>data.concat(WordArray.create(paddingWords, nPaddingBytes))\<close>.
  \<^verbatim>\<open>Pkcs7.unpad\<close>: \<^verbatim>\<open>nPaddingBytes = data.words[(data.sigBytes - 1) >>> 2] & 0xff\<close> and
  \<^verbatim>\<open>data.sigBytes -= nPaddingBytes\<close>, with no check of the padding bytes.
\<close>

definition Pkcs7_pad :: "WordArray \<Rightarrow> WordArray" where
  "Pkcs7_pad data =
     (let nPaddingBytes = 16 - sigBytes data mod 16;
          p = (word_of_int nPaddingBytes :: byte);
          paddingWords = replicate (nat ((nPaddingBytes + 3) div 4)) (bytes_word p p p p)
      in concat_wa data (WordArray_create paddingWords nPaddingBytes))"

definition Pkcs7_unpad :: "WordArray \<Rightarrow> WordArray" where
  "Pkcs7_unpad data =
     (let nPaddingBytes =
            (if sigBytes data \<le> 0 then 0
             else uint (byte3 (word_at (words data) (nat ((sigBytes data - 1) div 4)))))
      in data\<lparr>sigBytes := sigBytes data - nPaddingBytes\<rparr>)"

text \<open>
  \<^verbatim>\<open>CryptoJS.AES.encrypt(message, key, cfg)\<close> with a string message and a
  \<^verbatim>\<open>WordArray\<close> key: the message is parsed as UTF-8 and appended to the empty buffer,
  the buffer is padded, and all its blocks are processed. The result here is the
  \<^verbatim>\<open>ciphertext\<close> field of the returned object.
\<close>

definition empty_wa :: WordArray where
  "empty_wa = \<lparr>words = [], sigBytes = 0\<rparr>"

definition iv_block :: "word32 list \<Rightarrow> block" where
  "iv_block ivWords = block_at ivWords 0"

definition AES_encrypt :: "jsstring \<Rightarrow> WordArray \<Rightarrow> WordArray \<Rightarrow> js_error + WordArray" where
  "AES_encrypt message key iv =
     (let aes = AES_doReset key in
      case Utf8_parse message of
        Inl e \<Rightarrow> Inl e
      | Inr m \<Rightarrow>
          Inr (process (CBC_encrypt (encryptBlock aes) (iv_block (words iv)))
                 (Pkcs7_pad (concat_wa empty_wa m))))"

text \<open>
  \<^verbatim>\<open>CryptoJS.AES.decrypt({ ciphertext: c }, key, cfg)\<close>: the ciphertext is appended to
  the empty buffer, all its blocks are processed, and the result is unpadded.
\<close>

definition AES_decrypt :: "WordArray \<Rightarrow> WordArray \<Rightarrow> WordArray \<Rightarrow> WordArray" where
  "AES_decrypt ciphertext key iv =
     (let aes = AES_doReset key in
      Pkcs7_unpad (process (CBC_decrypt (decryptBlock aes) (iv_block (words iv)))
                     (concat_wa empty_wa ciphertext)))"

subsection \<open>JavaScript numbers\<close>

text \<open>
  A JavaScript number is an IEEE 754 double: a rational of the form \<open>m * 2^e\<close> with
  \<open>|m| < 2^53\<close> and \<open>-1074 \<le> e\<close>, below \<open>2^1024\<close> in magnitude, or an infinity, or
  \<^verbatim>\<open>NaN\<close>. The two zeros are not told apart: nothing below depends on the sign of a zero.
  \<open>number_value x\<close> is the double nearest to the rational \<open>x\<close>, ties to the even
  significand: the value of a numeric literal and the result of an arithmetic operation.
\<close>

datatype jsnum = Num rat | PosInfinity | NegInfinity | NaN

definition pow2 :: "int \<Rightarrow> rat" where
  "pow2 e = (if 0 \<le> e then 2 ^ nat e else 1 / 2 ^ nat (- e))"

definition floor_log2 :: "rat \<Rightarrow> int" where
  "floor_log2 a =
     (case quotient_of a of (p, q) \<Rightarrow>
        (let k = bitlen p - bitlen q in if pow2 k \<le> a then k else k - 1))"

definition round_half_even :: "rat \<Rightarrow> int" where
  "round_half_even m =
     (let f = \<lfloor>m\<rfloor>; d = m - of_int f
      in if d < 1 / 2 then f else if 1 / 2 < d then f + 1 else if even f then f else f + 1)"

definition number_value :: "rat \<Rightarrow> jsnum" where
  "number_value x =
     (if x = 0 then Num 0
      else
        (let a = \<bar>x\<bar>;
             e = max (floor_log2 a) (- 1022);
             q = pow2 (e - 52);
             v = of_int (round_half_even (a / q)) * q
         in if pow2 1024 \<le> v then (if 0 < x then PosInfinity else NegInfinity)
            else Num (if 0 < x then v else - v)))"

text \<open>\<^verbatim>\<open>a - b\<close> for a finite \<open>a\<close>, \<^verbatim>\<open>Math.abs\<close>, and \<^verbatim>\<open>x > 60000\<close>.\<close>

definition js_minus :: "rat \<Rightarrow> jsnum \<Rightarrow> jsnum" where
  "js_minus a b =
     (case b of
        Num y \<Rightarrow> number_value (a - y)
      | PosInfinity \<Rightarrow> NegInfinity
      | NegInfinity \<Rightarrow> PosInfinity
      | NaN \<Rightarrow> NaN)"

definition Math_abs :: "jsnum \<Rightarrow> jsnum" where
  "Math_abs x =
     (case x of Num y \<Rightarrow> Num \<bar>y\<bar> | PosInfinity \<Rightarrow> PosInfinity
      | NegInfinity \<Rightarrow> PosInfinity | NaN \<Rightarrow> NaN)"

definition js_greater :: "jsnum \<Rightarrow> rat \<Rightarrow> bool" where
  "js_greater x c =
     (case x of Num y \<Rightarrow> c < y | PosInfinity \<Rightarrow> True | NegInfinity \<Rightarrow> False | NaN \<Rightarrow> False)"

subsection \<open>JavaScript values and \<^verbatim>\<open>JSON\<close>\<close>

text \<open>
  The values \<^verbatim>\<open>JSON.parse\<close> can return, and \<^verbatim>\<open>undefined\<close>, which reading a property
  can give. An object keeps its members as written, in order; a later member of the same
  name replaces an earlier one when a property is read.
\<close>

datatype json =
    JUndefined
  | JNull
  | JBool bool
  | JNum jsnum
  | JStr jsstring
  | JArr "json list"
  | JObj "(jsstring \<times> json) list"

text \<open>
  \<^verbatim>\<open>JSON.stringify({ t: now, v: value })\<close> for an integral number \<^verbatim>\<open>now\<close> and a string
  \<^verbatim>\<open>value\<close>: the members in order, no white space, the number in decimal, the string
  quoted. In a quoted string \<^verbatim>\<open>"\<close> and \<^verbatim>\<open>\\<close> are escaped, the control characters become
  \<^verbatim>\<open>\b \t \n \f \r\<close> or \<^verbatim>\<open>\u00XX\<close>, and a surrogate code unit that is not part of a pair
  becomes \<^verbatim>\<open>\uXXXX\<close> (lower-case hexadecimal); every other code unit stands for itself.
\<close>

definition hex_digit :: "int \<Rightarrow> 16 word" where
  "hex_digit n = (if n < 10 then word_of_int (48 + n) else word_of_int (87 + n))"

definition unicode_escape :: "16 word \<Rightarrow> jsstring" where
  "unicode_escape c =
     [0x5C, 0x75, hex_digit (uint c div 4096), hex_digit (uint c div 256 mod 16),
      hex_digit (uint c div 16 mod 16), hex_digit (uint c mod 16)]"

definition is_high_surrogate :: "16 word \<Rightarrow> bool" where
  "is_high_surrogate c = (0xD800 \<le> c \<and> c \<le> 0xDBFF)"

definition is_low_surrogate :: "16 word \<Rightarrow> bool" where
  "is_low_surrogate c = (0xDC00 \<le> c \<and> c \<le> 0xDFFF)"

fun quote_chars :: "jsstring \<Rightarrow> jsstring" where
  "quote_chars [] = []"
| "quote_chars (c # cs) =
     (if c = 0x08 then [0x5C, 0x62] @ quote_chars cs
      else if c = 0x09 then [0x5C, 0x74] @ quote_chars cs
      else if c = 0x0A then [0x5C, 0x6E] @ quote_chars cs
      else if c = 0x0C then [0x5C, 0x66] @ quote_chars cs
      else if c = 0x0D then [0x5C, 0x72] @ quote_chars cs
      else if c = 0x22 then [0x5C, 0x22] @ quote_chars cs
      else if c = 0x5C then [0x5C, 0x5C] @ quote_chars cs
      else if c < 0x20 then unicode_escape c @ quote_chars cs
      else if is_high_surrogate c then
        (case cs of
           [] \<Rightarrow> unicode_escape c
         | k # cs' \<Rightarrow>
             if is_low_surrogate k then c # k # quote_chars cs'
             else unicode_escape c @ quote_chars cs)
      else if is_low_surrogate c then unicode_escape c @ quote_chars cs
      else c # quote_chars cs)"

definition QuoteJSONString :: "jsstring \<Rightarrow> jsstring" where
  "QuoteJSONString s = [0x22] @ quote_chars s @ [0x22]"

function decimal_digits :: "int \<Rightarrow> jsstring" where
  "decimal_digits n =
     (if n < 10 then [word_of_int (48 + n)]
      else decimal_digits (n div 10) @ [word_of_int (48 + n mod 10)])"
  by pat_completeness auto
termination
  by (relation "measure nat") auto

declare decimal_digits.simps [simp del]

definition Number_toString :: "int \<Rightarrow> jsstring" where
  "Number_toString n = (if n < 0 then 0x2D # decimal_digits (- n) else decimal_digits n)"

definition JSON_stringify_payload :: "int \<Rightarrow> jsstring \<Rightarrow> jsstring" where
  "JSON_stringify_payload t v =
     js_of ''{'' @ QuoteJSONString (js_of ''t'') @ js_of '':'' @ Number_toString t @ js_of '','' @
     QuoteJSONString (js_of ''v'') @ js_of '':'' @ QuoteJSONString v @ js_of ''}''"

text \<open>
  \<^verbatim>\<open>JSON.parse\<close>, in two passes: the text is cut into tokens (white space is a space,
  tab, line feed or carriage return), and the tokens are read by a machine with a stack
  of the arrays and objects that are open. A text that is not JSON is a
  \<^verbatim>\<open>SyntaxError\<close>.
\<close>

datatype token = TLBrace | TRBrace | TLBracket | TRBracket | TColon | TComma | TValue json

definition is_digit :: "16 word \<Rightarrow> bool" where
  "is_digit c = (0x30 \<le> c \<and> c \<le> 0x39)"

fun digits_value :: "int \<Rightarrow> jsstring \<Rightarrow> int" where
  "digits_value acc [] = acc"
| "digits_value acc (c # cs) = digits_value (10 * acc + (uint c - 48)) cs"

definition hex_value :: "16 word \<Rightarrow> int option" where
  "hex_value c =
     (if is_digit c then Some (uint c - 48)
      else if 0x41 \<le> c \<and> c \<le> 0x46 then Some (uint c - 55)
      else if 0x61 \<le> c \<and> c \<le> 0x66 then Some (uint c - 87)
      else None)"

definition unescape_char :: "16 word \<Rightarrow> 16 word option" where
  "unescape_char e =
     (if e = 0x22 then Some 0x22 else if e = 0x5C then Some 0x5C else if e = 0x2F then Some 0x2F
      else if e = 0x62 then Some 0x08 else if e = 0x66 then Some 0x0C
      else if e = 0x6E then Some 0x0A else if e = 0x72 then Some 0x0D
      else if e = 0x74 then Some 0x09 else None)"

definition cons_char :: "16 word \<Rightarrow> (jsstring \<times> jsstring) option \<Rightarrow> (jsstring \<times> jsstring) option" where
  "cons_char c r = map_option (\<lambda>(s, rest). (c # s, rest)) r"

text \<open>The characters of a string after its opening quote, and the text after its closing quote.\<close>

fun lex_string :: "jsstring \<Rightarrow> (jsstring \<times> jsstring) option" where
  "lex_string [] = None"
| "lex_string (c # cs) =
     (if c = 0x22 then Some ([], cs)
      else if c = 0x5C then
        (case cs of
           [] \<Rightarrow> None
         | e # r \<Rightarrow>
             if e = 0x75 then
               (case r of
                  h1 # h2 # h3 # h4 # r' \<Rightarrow>
                    (case (hex_value h1, hex_value h2, hex_value h3, hex_value h4) of
                       (Some a, Some b, Some c', Some d) \<Rightarrow>
                         cons_char (word_of_int (((a * 16 + b) * 16 + c') * 16 + d)) (lex_string r')
                     | _ \<Rightarrow> None)
                | _ \<Rightarrow> None)
             else (case unescape_char e of
                     None \<Rightarrow> None
                   | Some ch \<Rightarrow> cons_char ch (lex_string r)))
      else if c < 0x20 then None
      else cons_char c (lex_string cs))"

text \<open>
  A number: an optional \<^verbatim>\<open>-\<close>, then \<^verbatim>\<open>0\<close> or a digit from 1 to 9 followed by digits,
  then an optional fraction (\<^verbatim>\<open>.\<close> and at least one digit) and an optional exponent
  (\<^verbatim>\<open>e\<close> or \<^verbatim>\<open>E\<close>, an optional sign, at least one digit).
\<close>

definition scale10 :: "rat \<Rightarrow> int \<Rightarrow> rat" where
  "scale10 m e = (if 0 \<le> e then m * 10 ^ nat e else m / 10 ^ nat (- e))"

definition lex_fraction :: "jsstring \<Rightarrow> (jsstring \<times> jsstring) option" where
  "lex_fraction s =
     (case s of
        c # r \<Rightarrow>
          if c = 0x2E then
            (if takeWhile is_digit r = [] then None
             else Some (takeWhile is_digit r, dropWhile is_digit r))
          else Some ([], s)
      | [] \<Rightarrow> Some ([], s))"

definition lex_exponent :: "jsstring \<Rightarrow> (int \<times> jsstring) option" where
  "lex_exponent s =
     (case s of
        c # r \<Rightarrow>
          if c = 0x65 \<or> c = 0x45 then
            (let (neg, r') =
                   (case r of
                      sg # r'' \<Rightarrow>
                        if sg = 0x2D then (True, r'') else if sg = 0x2B then (False, r'')
                        else (False, r)
                    | [] \<Rightarrow> (False, r))
             in if takeWhile is_digit r' = [] then None
                else Some ((if neg then - 1 else 1) * digits_value 0 (takeWhile is_digit r'),
                           dropWhile is_digit r'))
          else Some (0, s)
      | [] \<Rightarrow> Some (0, s))"

definition lex_number :: "jsstring \<Rightarrow> (jsnum \<times> jsstring) option" where
  "lex_number s =
     (let (neg, s1) = (case s of c # r \<Rightarrow> if c = 0x2D then (True, r) else (False, s)
                       | [] \<Rightarrow> (False, s));
          ip = (case s1 of c # r \<Rightarrow> if c = 0x30 then [c] else takeWhile is_digit s1 | [] \<Rightarrow> []);
          s2 = drop (length ip) s1
      in if ip = [] then None
         else
           (case lex_fraction s2 of
              None \<Rightarrow> None
            | Some (fp, s3) \<Rightarrow>
                (case lex_exponent s3 of
                   None \<Rightarrow> None
                 | Some (ex, s4) \<Rightarrow>
                     Some (number_value
                             (scale10 (of_int ((if neg then - 1 else 1) * digits_value 0 (ip @ fp)))
                                (ex - int (length fp))),
                           s4))))"

definition is_ws :: "16 word \<Rightarrow> bool" where
  "is_ws c = (c = 0x20 \<or> c = 0x09 \<or> c = 0x0A \<or> c = 0x0D)"

definition lex_literal :: "jsstring \<Rightarrow> (json \<times> jsstring) option" where
  "lex_literal s =
     (if take 4 s = js_of ''true'' then Some (JBool True, drop 4 s)
      else if take 5 s = js_of ''false'' then Some (JBool False, drop 5 s)
      else if take 4 s = js_of ''null'' then Some (JNull, drop 4 s)
      else None)"

text \<open>One token from the front of a text that does not start with white space.\<close>

definition lex_token :: "jsstring \<Rightarrow> (token \<times> jsstring) option" where
  "lex_token s =
     (case s of
        [] \<Rightarrow> None
      | c # cs \<Rightarrow>
          if c = 0x7B then Some (TLBrace, cs)
          else if c = 0x7D then Some (TRBrace, cs)
          else if c = 0x5B then Some (TLBracket, cs)
          else if c = 0x5D then Some (TRBracket, cs)
          else if c = 0x3A then Some (TColon, cs)
          else if c = 0x2C then Some (TComma, cs)
          else if c = 0x22 then map_option (\<lambda>(v, rest). (TValue (JStr v), rest)) (lex_string cs)
          else if c = 0x2D \<or> is_digit c then
            map_option (\<lambda>(n, rest). (TValue (JNum n), rest)) (lex_number s)
          else map_option (\<lambda>(v, rest). (TValue v, rest)) (lex_literal s))"

lemma lex_string_shorter: "lex_string s = Some (v, rest) \<Longrightarrow> length rest < length s"
proof (induction s arbitrary: v rest rule: lex_string.induct)
  case 1
  then show ?case by simp
next
  case (2 c cs)
  show ?case
    using "2.prems" "2.IH"
    by (auto simp: cons_char_def split: if_splits list.splits option.splits prod.splits)
       (force | fastforce)+
qed

lemma lex_fraction_shorter: "lex_fraction s = Some (fp, rest) \<Longrightarrow> length rest \<le> length s"
  using length_dropWhile_le [of is_digit "tl s"]
  by (auto simp: lex_fraction_def split: list.splits if_splits)

lemma lex_exponent_shorter: "lex_exponent s = Some (ex, rest) \<Longrightarrow> length rest \<le> length s"
proof -
  assume a: "lex_exponent s = Some (ex, rest)"
  have d: "length (dropWhile is_digit r) \<le> length r" for r :: jsstring
    by (rule length_dropWhile_le)
  show ?thesis
    using a d [of "tl s"] d [of "tl (tl s)"]
    by (auto simp: lex_exponent_def Let_def split: list.splits if_splits prod.splits)
qed

lemma lex_number_shorter:
  assumes "lex_number s = Some (n, rest)"
  shows "length rest < length s"
proof -
  define s1 where "s1 = (case s of c # r \<Rightarrow> if c = 0x2D then r else s | [] \<Rightarrow> s)"
  define ip where "ip = (case s1 of c # r \<Rightarrow> if c = 0x30 then [c] else takeWhile is_digit s1 | [] \<Rightarrow> [])"
  have s1: "length s1 \<le> length s"
    by (auto simp: s1_def split: list.splits)
  have ipl: "length ip \<le> length s1"
    using length_takeWhile_le [of is_digit s1] by (auto simp: ip_def split: list.splits)
  from assms obtain fp s3 ex where
    ip: "ip \<noteq> []" and f: "lex_fraction (drop (length ip) s1) = Some (fp, s3)"
    and e: "lex_exponent s3 = Some (ex, rest)"
    unfolding lex_number_def s1_def [symmetric] ip_def [symmetric]
    by (auto simp: Let_def s1_def ip_def split: list.splits if_splits option.splits prod.splits)
  have "length rest \<le> length (drop (length ip) s1)"
    using lex_fraction_shorter [OF f] lex_exponent_shorter [OF e] by simp
  moreover have "length (drop (length ip) s1) < length s1"
    using ip ipl by (cases ip) auto
  ultimately show ?thesis using s1 by simp
qed

lemma lex_token_shorter: "lex_token s = Some (tok, rest) \<Longrightarrow> length rest < length s"
  by (auto simp: lex_token_def lex_literal_def split: list.splits if_splits
           dest!: lex_string_shorter lex_number_shorter)

function json_lex :: "jsstring \<Rightarrow> token list option" where
  "json_lex s =
     (if dropWhile is_ws s = [] then Some []
      else (case lex_token (dropWhile is_ws s) of
              None \<Rightarrow> None
            | Some (tok, rest) \<Rightarrow> map_option ((#) tok) (json_lex rest)))"
  by pat_completeness auto
termination
proof (relation "measure length")
  show "wf (measure length)" by simp
next
  fix s :: jsstring and x tok rest
  assume "lex_token (dropWhile is_ws s) = Some x" and "(tok, rest) = x"
  then have "length rest < length (dropWhile is_ws s)"
    using lex_token_shorter by metis
  then show "(rest, s) \<in> measure length"
    using length_dropWhile_le [of is_ws s] by simp
qed

declare json_lex.simps [simp del]

text \<open>
  The machine. A frame is an open array with its elements so far, or an open object
  with its members so far and the name of the member being read; both lists are kept
  newest first.
\<close>

datatype frame = FArr "json list" | FObj "(jsstring \<times> json) list" "jsstring option"

datatype expect =
    EValue        \<comment> \<open>a value\<close>
  | EFirstElem    \<comment> \<open>after \<^verbatim>\<open>[\<close>: a value or \<^verbatim>\<open>]\<close>\<close>
  | EFirstKey     \<comment> \<open>after \<^verbatim>\<open>{\<close>: a member name or \<^verbatim>\<open>}\<close>\<close>
  | EKey          \<comment> \<open>after \<^verbatim>\<open>,\<close> in an object: a member name\<close>
  | EColon        \<comment> \<open>after a member name\<close>
  | EAfter        \<comment> \<open>after a value inside an array or object: \<^verbatim>\<open>,\<close> or the closing bracket\<close>
  | EDone json    \<comment> \<open>the whole value has been read\<close>

fun place :: "json \<Rightarrow> frame list \<Rightarrow> (expect \<times> frame list) option" where
  "place v [] = Some (EDone v, [])"
| "place v (FArr xs # st) = Some (EAfter, FArr (v # xs) # st)"
| "place v (FObj kvs (Some k) # st) = Some (EAfter, FObj ((k, v) # kvs) None # st)"
| "place v (FObj kvs None # st) = None"

definition open_or_place :: "frame list \<Rightarrow> token \<Rightarrow> (expect \<times> frame list) option" where
  "open_or_place st t =
     (case t of
        TValue v \<Rightarrow> place v st
      | TLBracket \<Rightarrow> Some (EFirstElem, FArr [] # st)
      | TLBrace \<Rightarrow> Some (EFirstKey, FObj [] None # st)
      | _ \<Rightarrow> None)"

definition member_name :: "frame list \<Rightarrow> token \<Rightarrow> (expect \<times> frame list) option" where
  "member_name st t =
     (case (st, t) of
        (FObj kvs None # st', TValue (JStr k)) \<Rightarrow> Some (EColon, FObj kvs (Some k) # st')
      | _ \<Rightarrow> None)"

definition close_array :: "frame list \<Rightarrow> (expect \<times> frame list) option" where
  "close_array st = (case st of FArr xs # st' \<Rightarrow> place (JArr (rev xs)) st' | _ \<Rightarrow> None)"

definition close_object :: "frame list \<Rightarrow> (expect \<times> frame list) option" where
  "close_object st =
     (case st of FObj kvs None # st' \<Rightarrow> place (JObj (rev kvs)) st' | _ \<Rightarrow> None)"

definition step :: "expect \<Rightarrow> frame list \<Rightarrow> token \<Rightarrow> (expect \<times> frame list) option" where
  "step e st t =
     (case e of
        EValue \<Rightarrow> open_or_place st t
      | EFirstElem \<Rightarrow> (if t = TRBracket then close_array st else open_or_place st t)
      | EFirstKey \<Rightarrow> (if t = TRBrace then close_object st else member_name st t)
      | EKey \<Rightarrow> member_name st t
      | EColon \<Rightarrow> (if t = TColon then Some (EValue, st) else None)
      | EAfter \<Rightarrow>
          (case st of
             FArr xs # st' \<Rightarrow>
               (if t = TComma then Some (EValue, st)
                else if t = TRBracket then close_array st else None)
           | FObj kvs None # st' \<Rightarrow>
               (if t = TComma then Some (EKey, st)
                else if t = TRBrace then close_object st else None)
           | _ \<Rightarrow> None)
      | EDone v \<Rightarrow> None)"

fun run :: "(expect \<times> frame list) option \<Rightarrow> token list \<Rightarrow> json option" where
  "run None ts = None"
| "run (Some (e, st)) [] = (case e of EDone v \<Rightarrow> Some v | _ \<Rightarrow> None)"
| "run (Some (e, st)) (t # ts) = run (step e st t) ts"

definition JSON_parse :: "jsstring \<Rightarrow> js_error + json" where
  "JSON_parse s =
     (case json_lex s of
        None \<Rightarrow> Inl SyntaxError
      | Some ts \<Rightarrow> (case run (Some (EValue, [])) ts of None \<Rightarrow> Inl SyntaxError | Some v \<Rightarrow> Inr v))"

subsection \<open>Property access, truthiness, conversion to a number\<close>

text \<open>
  \<^verbatim>\<open>data.t\<close> and \<^verbatim>\<open>data.v\<close>: a \<^verbatim>\<open>TypeError\<close> on \<^verbatim>\<open>null\<close>, the member of that name
  (the last one written) on an object, \<^verbatim>\<open>undefined\<close> when the object has none and on
  an array, string, number or boolean. This is right for the names \<^verbatim>\<open>t\<close> and \<^verbatim>\<open>v\<close>,
  which no prototype defines; the program reads no other name.
\<close>

definition js_get :: "json \<Rightarrow> jsstring \<Rightarrow> js_error + json" where
  "js_get d k =
     (case d of
        JNull \<Rightarrow> Inl TypeError
      | JUndefined \<Rightarrow> Inl TypeError
      | JObj kvs \<Rightarrow> Inr (case map_of (rev kvs) k of None \<Rightarrow> JUndefined | Some v \<Rightarrow> v)
      | _ \<Rightarrow> Inr JUndefined)"

text \<open>\<^verbatim>\<open>if (x)\<close>: \<^verbatim>\<open>undefined\<close>, \<^verbatim>\<open>null\<close>, \<^verbatim>\<open>false\<close>, zero, \<^verbatim>\<open>NaN\<close> and the empty string are falsy.\<close>

definition truthy :: "json \<Rightarrow> bool" where
  "truthy x =
     (case x of
        JUndefined \<Rightarrow> False
      | JNull \<Rightarrow> False
      | JBool b \<Rightarrow> b
      | JNum n \<Rightarrow> n \<noteq> Num 0 \<and> n \<noteq> NaN
      | JStr s \<Rightarrow> s \<noteq> []
      | JArr xs \<Rightarrow> True
      | JObj kvs \<Rightarrow> True)"

text \<open>
  The number a string stands for (\<^verbatim>\<open>StringToNumber\<close>): white space and line
  terminators around it are dropped; the empty string is 0; \<^verbatim>\<open>0x\<close>, \<^verbatim>\<open>0o\<close>, \<^verbatim>\<open>0b\<close>
  start an unsigned integer in that base; otherwise an optional sign and
  \<^verbatim>\<open>Infinity\<close> or a decimal literal with an optional exponent. Anything else is
  \<^verbatim>\<open>NaN\<close>.
\<close>

definition is_str_ws :: "16 word \<Rightarrow> bool" where
  "is_str_ws c =
     (c = 0x09 \<or> c = 0x0A \<or> c = 0x0B \<or> c = 0x0C \<or> c = 0x0D \<or> c = 0x20 \<or> c = 0xA0 \<or>
      c = 0x1680 \<or> (0x2000 \<le> c \<and> c \<le> 0x200A) \<or> c = 0x2028 \<or> c = 0x2029 \<or> c = 0x202F \<or>
      c = 0x205F \<or> c = 0x3000 \<or> c = 0xFEFF)"

definition str_trim :: "jsstring \<Rightarrow> jsstring" where
  "str_trim s = rev (dropWhile is_str_ws (rev (dropWhile is_str_ws s)))"

fun base_value :: "int \<Rightarrow> int \<Rightarrow> jsstring \<Rightarrow> int option" where
  "base_value base acc [] = Some acc"
| "base_value base acc (c # cs) =
     (case hex_value c of
        None \<Rightarrow> None
      | Some d \<Rightarrow> if d < base then base_value base (base * acc + d) cs else None)"

definition radix_literal :: "jsstring \<Rightarrow> jsnum option" where
  "radix_literal s =
     (case s of
        z # x # ds \<Rightarrow>
          if z = 0x30 \<and> (x = 0x78 \<or> x = 0x58 \<or> x = 0x6F \<or> x = 0x4F \<or> x = 0x62 \<or> x = 0x42) then
            Some (case (if ds = [] then None
                        else base_value (if x = 0x78 \<or> x = 0x58 then 16
                                         else if x = 0x6F \<or> x = 0x4F then 8 else 2) 0 ds) of
                    None \<Rightarrow> NaN
                  | Some n \<Rightarrow> number_value (of_int n))
          else None
      | _ \<Rightarrow> None)"

definition decimal_literal :: "jsstring \<Rightarrow> jsnum" where
  "decimal_literal s =
     (let (neg, u) = (case s of c # r \<Rightarrow> if c = 0x2D then (True, r)
                                          else if c = 0x2B then (False, r) else (False, s)
                      | [] \<Rightarrow> (False, s))
      in if u = js_of ''Infinity'' then (if neg then NegInfinity else PosInfinity)
         else
           (let ip = takeWhile is_digit u;
                r1 = dropWhile is_digit u;
                dot = (r1 \<noteq> [] \<and> hd r1 = 0x2E);
                fp = (if dot then takeWhile is_digit (tl r1) else []);
                r2 = (if dot then dropWhile is_digit (tl r1) else r1)
            in if ip = [] \<and> fp = [] then NaN
               else (case lex_exponent r2 of
                       None \<Rightarrow> NaN
                     | Some (ex, r3) \<Rightarrow>
                         if r3 \<noteq> [] then NaN
                         else number_value
                                (scale10 (of_int ((if neg then - 1 else 1) * digits_value 0 (ip @ fp)))
                                   (ex - int (length fp))))))"

definition StringToNumber :: "jsstring \<Rightarrow> jsnum" where
  "StringToNumber s =
     (let u = str_trim s
      in if u = [] then Num 0
         else (case radix_literal u of Some n \<Rightarrow> n | None \<Rightarrow> decimal_literal u))"

text \<open>
  \<^verbatim>\<open>ToNumber\<close>, as the subtraction \<^verbatim>\<open>now - data.t\<close> applies it. An object or array is
  first made a primitive: \<^verbatim>\<open>valueOf\<close> gives no primitive, and \<^verbatim>\<open>toString\<close> is
  \<^verbatim>\<open>"[object Object]"\<close> for an object and the elements joined by commas for an array
  (\<^verbatim>\<open>null\<close> as the empty string, nested arrays and objects by their own \<^verbatim>\<open>toString\<close>).
  A member named \<^verbatim>\<open>toString\<close> hides the inherited function and is not callable, so
  the conversion of such an object throws a \<^verbatim>\<open>TypeError\<close>. A joined string with a comma
  in it is \<^verbatim>\<open>NaN\<close>; the string of a single number converts back to that number.
\<close>

fun no_primitive :: "json \<Rightarrow> bool" where
  "no_primitive (JObj kvs) = (js_of ''toString'' \<in> fst ` set kvs)"
| "no_primitive (JArr xs) = (\<exists>x \<in> set xs. no_primitive x)"
| "no_primitive _ = False"

fun joined_number :: "json \<Rightarrow> jsnum" where
  "joined_number (JArr []) = Num 0"
| "joined_number (JArr [x]) =
     (case x of
        JNum n \<Rightarrow> n
      | JStr s \<Rightarrow> StringToNumber s
      | JNull \<Rightarrow> Num 0
      | JUndefined \<Rightarrow> Num 0
      | JBool b \<Rightarrow> NaN
      | JArr ys \<Rightarrow> joined_number x
      | JObj kvs \<Rightarrow> NaN)"
| "joined_number _ = NaN"

definition ToNumber :: "json \<Rightarrow> js_error + jsnum" where
  "ToNumber x =
     (case x of
        JUndefined \<Rightarrow> Inr NaN
      | JNull \<Rightarrow> Inr (Num 0)
      | JBool b \<Rightarrow> Inr (Num (if b then 1 else 0))
      | JNum n \<Rightarrow> Inr n
      | JStr s \<Rightarrow> Inr (StringToNumber s)
      | _ \<Rightarrow> if no_primitive x then Inl TypeError else Inr (joined_number x))"

subsection \<open>The two functions of \<^verbatim>\<open>crypto_utils.js\<close>\<close>

text \<open>
  \<^verbatim>\<open>WordArray.random(16)\<close>: four random words; the four words drawn are the argument
  \<open>rnd\<close> of the encryption.
\<close>

definition WordArray_random16 :: "block \<Rightarrow> WordArray" where
  "WordArray_random16 rnd = (case rnd of (w0, w1, w2, w3) \<Rightarrow> \<lparr>words = [w0, w1, w2, w3], sigBytes = 16\<rparr>)"

text \<open>
  \<^verbatim>\<open>
  export function encryptWithDynamicIV(value, keyStr) {
      try {
          const payload = JSON.stringify({ t: Date.now(), v: value });
          const key = CryptoJS.enc.Utf8.parse(keyStr);
          const iv = CryptoJS.lib.WordArray.random(16);
          const encrypted = CryptoJS.AES.encrypt(payload, key,
              { iv: iv, mode: CryptoJS.mode.CBC, padding: CryptoJS.pad.Pkcs7 });
          const combined = iv.concat(encrypted.ciphertext);
          return CryptoJS.enc.Base64.stringify(combined);
      } catch (error) {
          console.error(..., error);
          throw error;
      }
  }
  \<close>
  \<open>value\<close> and \<open>keyStr\<close> are strings, as the function's documentation says; \<open>now\<close> is what
  \<^verbatim>\<open>Date.now()\<close> returns, a whole number of milliseconds. The body of the \<^verbatim>\<open>try\<close> is
  \<open>encrypt_try\<close>, its statements after the first are \<open>encrypt_payload\<close>, and the
  \<^verbatim>\<open>catch\<close> throws the error it caught.
\<close>

definition encrypt_payload :: "jsstring \<Rightarrow> jsstring \<Rightarrow> block \<Rightarrow> js_error + jsstring" where
  "encrypt_payload payload keyStr rnd =
     (case Utf8_parse keyStr of
        Inl e \<Rightarrow> Inl e
      | Inr key \<Rightarrow>
          (let iv = WordArray_random16 rnd in
           case AES_encrypt payload key iv of
             Inl e \<Rightarrow> Inl e
           | Inr ciphertext \<Rightarrow>
               (let combined = concat_wa iv ciphertext
                in Inr (Base64_stringify combined))))"

definition encrypt_try :: "jsstring \<Rightarrow> jsstring \<Rightarrow> int \<Rightarrow> block \<Rightarrow> js_error + jsstring" where
  "encrypt_try value keyStr now rnd =
     (let payload = JSON_stringify_payload now value
      in encrypt_payload payload keyStr rnd)"

definition encryptWithDynamicIV :: "jsstring \<Rightarrow> jsstring \<Rightarrow> int \<Rightarrow> block \<Rightarrow> js_error + jsstring" where
  "encryptWithDynamicIV value keyStr now rnd =
     (case encrypt_try value keyStr now rnd of
        Inl error \<Rightarrow> Inl error
      | Inr blob \<Rightarrow> Inr blob)"

text \<open>
  \<^verbatim>\<open>
  export function decryptWithDynamicIV(ciphertextBase64, keyStr) {
      try {
          const rawData = CryptoJS.enc.Base64.parse(ciphertextBase64);
          const ivWords = rawData.words.slice(0, 4);
          const iv = CryptoJS.lib.WordArray.create(ivWords, 16);
          const cipherWords = rawData.words.slice(4);
          const cipherSigBytes = rawData.sigBytes - 16;
          const ciphertext = CryptoJS.lib.WordArray.create(cipherWords, cipherSigBytes);
          const key = CryptoJS.enc.Utf8.parse(keyStr);
          const decrypted = CryptoJS.AES.decrypt({ ciphertext: ciphertext }, key,
              { iv: iv, mode: CryptoJS.mode.CBC, padding: CryptoJS.pad.Pkcs7 });
          const jsonStr = decrypted.toString(CryptoJS.enc.Utf8);
          if (!jsonStr) return null;
          const data = JSON.parse(jsonStr);
          if (data.t) {
              const now = Date.now();
              if (Math.abs(now - data.t) > 60000) {
                  console.warn(...);
                  return null;
              }
          }
          return data.v;
      } catch (e) {
          console.error(..., e);
          return null;
      }
  }
  \<close>
  \<open>now\<close> is what \<^verbatim>\<open>Date.now()\<close> returns if it is called. The freshness check is
  \<open>check_fresh\<close>, the body of the \<^verbatim>\<open>try\<close> is \<open>decrypt_try\<close>, and the \<^verbatim>\<open>catch\<close> turns
  every error into \<^verbatim>\<open>null\<close>.
\<close>

definition decrypt_json_text :: "jsstring \<Rightarrow> jsstring \<Rightarrow> js_error + jsstring" where
  "decrypt_json_text ciphertextBase64 keyStr =
     (let rawData = Base64_parse ciphertextBase64;
          ivWords = take 4 (words rawData);
          iv = WordArray_create ivWords 16;
          cipherWords = drop 4 (words rawData);
          cipherSigBytes = sigBytes rawData - 16;
          ciphertext = WordArray_create cipherWords cipherSigBytes
      in case Utf8_parse keyStr of
           Inl e \<Rightarrow> Inl e
         | Inr key \<Rightarrow> Utf8_stringify (AES_decrypt ciphertext key iv))"

definition check_fresh :: "json \<Rightarrow> int \<Rightarrow> js_error + json" where
  "check_fresh data now =
     (case js_get data (js_of ''t'') of
        Inl e \<Rightarrow> Inl e
      | Inr t \<Rightarrow>
          (if truthy t then
             (case ToNumber t of
                Inl e \<Rightarrow> Inl e
              | Inr tn \<Rightarrow>
                  if js_greater (Math_abs (js_minus (of_int now) tn)) 60000 then Inr JNull
                  else js_get data (js_of ''v''))
           else js_get data (js_of ''v'')))"

definition decrypt_try :: "jsstring \<Rightarrow> jsstring \<Rightarrow> int \<Rightarrow> js_error + json" where
  "decrypt_try ciphertextBase64 keyStr now =
     (case decrypt_json_text ciphertextBase64 keyStr of
        Inl e \<Rightarrow> Inl e
      | Inr jsonStr \<Rightarrow>
          if jsonStr = [] then Inr JNull
          else (case JSON_parse jsonStr of
                  Inl e \<Rightarrow> Inl e
                | Inr data \<Rightarrow> check_fresh data now))"

definition decryptWithDynamicIV :: "jsstring \<Rightarrow> jsstring \<Rightarrow> int \<Rightarrow> js_error + json" where
  "decryptWithDynamicIV ciphertextBase64 keyStr now =
     (case decrypt_try ciphertextBase64 keyStr now of
        Inl e \<Rightarrow> Inr JNull
      | Inr result \<Rightarrow> Inr result)"

section \<open>Proofs: the AES block transformation\<close>

subsection \<open>All 256 bytes\<close>

definition all_bytes :: "byte list" where
  "all_bytes =
    [0x00, 0x01, 0x02, 0x03, 0x04, 0x05, 0x06, 0x07, 0x08, 0x09, 0x0A, 0x0B, 0x0C, 0x0D, 0x0E, 0x0F,
     0x10, 0x11, 0x12, 0x13, 0x14, 0x15, 0x16, 0x17, 0x18, 0x19, 0x1A, 0x1B, 0x1C, 0x1D, 0x1E, 0x1F,
     0x20, 0x21, 0x22, 0x23, 0x24, 0x25, 0x26, 0x27, 0x28, 0x29, 0x2A, 0x2B, 0x2C, 0x2D, 0x2E, 0x2F,
     0x30, 0x31, 0x32, 0x33, 0x34, 0x35, 0x36, 0x37, 0x38, 0x39, 0x3A, 0x3B, 0x3C, 0x3D, 0x3E, 0x3F,
     0x40, 0x41, 0x42, 0x43, 0x44, 0x45, 0x46, 0x47, 0x48, 0x49, 0x4A, 0x4B, 0x4C, 0x4D, 0x4E, 0x4F,
     0x50, 0x51, 0x52, 0x53, 0x54, 0x55, 0x56, 0x57, 0x58, 0x59, 0x5A, 0x5B, 0x5C, 0x5D, 0x5E, 0x5F,
     0x60, 0x61, 0x62, 0x63, 0x64, 0x65, 0x66, 0x67, 0x68, 0x69, 0x6A, 0x6B, 0x6C, 0x6D, 0x6E, 0x6F,
     0x70, 0x71, 0x72, 0x73, 0x74, 0x75, 0x76, 0x77, 0x78, 0x79, 0x7A, 0x7B, 0x7C, 0x7D, 0x7E, 0x7F,
     0x80, 0x81, 0x82, 0x83, 0x84, 0x85, 0x86, 0x87, 0x88, 0x89, 0x8A, 0x8B, 0x8C, 0x8D, 0x8E, 0x8F,
     0x90, 0x91, 0x92, 0x93, 0x94, 0x95, 0x96, 0x97, 0x98, 0x99, 0x9A, 0x9B, 0x9C, 0x9D, 0x9E, 0x9F,
     0xA0, 0xA1, 0xA2, 0xA3, 0xA4, 0xA5, 0xA6, 0xA7, 0xA8, 0xA9, 0xAA, 0xAB, 0xAC, 0xAD, 0xAE, 0xAF,
     0xB0, 0xB1, 0xB2, 0xB3, 0xB4, 0xB5, 0xB6, 0xB7, 0xB8, 0xB9, 0xBA, 0xBB, 0xBC, 0xBD, 0xBE, 0xBF,
     0xC0, 0xC1, 0xC2, 0xC3, 0xC4, 0xC5, 0xC6, 0xC7, 0xC8, 0xC9, 0xCA, 0xCB, 0xCC, 0xCD, 0xCE, 0xCF,
     0xD0, 0xD1, 0xD2, 0xD3, 0xD4, 0xD5, 0xD6, 0xD7, 0xD8, 0xD9, 0xDA, 0xDB, 0xDC, 0xDD, 0xDE, 0xDF,
     0xE0, 0xE1, 0xE2, 0xE3, 0xE4, 0xE5, 0xE6, 0xE7, 0xE8, 0xE9, 0xEA, 0xEB, 0xEC, 0xED, 0xEE, 0xEF,
     0xF0, 0xF1, 0xF2, 0xF3, 0xF4, 0xF5, 0xF6, 0xF7, 0xF8, 0xF9, 0xFA, 0xFB, 0xFC, 0xFD, 0xFE, 0xFF]"

lemma all_bytes_upt: "map of_nat [0..<256] = all_bytes"
  by code_simp

lemma all_bytes_UNIV: "x \<in> set all_bytes"
proof -
  have "unat x < 256" using unsigned_less [of x] by simp
  then have "unat x \<in> set [0..<256]" by simp
  then have "(of_nat (unat x) :: byte) \<in> of_nat ` set [0..<256]"
    by (rule imageI)
  then have "x \<in> set (map of_nat [0..<256])"
    by (simp add: of_nat_unat del: set_upt upt.simps)
  then show ?thesis by (simp only: all_bytes_upt)
qed

lemma all_byte: "list_all P all_bytes \<Longrightarrow> P (x::byte)"
  using all_bytes_UNIV [of x] by (simp add: list_all_iff)

lemma inv_sbox: "INV_SBOX (SBOX x) = x"
proof (rule all_byte [where P = "\<lambda>x. INV_SBOX (SBOX x) = x"])
  show "list_all (\<lambda>x. INV_SBOX (SBOX x) = x) all_bytes" by code_simp
qed

lemma dbl_top: "(x::byte) < 128 \<longleftrightarrow> \<not> bit x 7"
proof (rule all_byte [where P = "\<lambda>x. (x < 128) = (\<not> bit x 7)"])
  show "list_all (\<lambda>x::byte. (x < 128) = (\<not> bit x 7)) all_bytes" by code_simp
qed

lemma dbl_alt: "dbl x = push_bit 1 x XOR (if bit x 7 then 0x1b else 0)"
  by (simp add: dbl_def dbl_top)

lemma dbl_xor: "dbl (x XOR y) = dbl x XOR dbl y"
  by (simp add: dbl_alt bit_xor_iff push_bit_xor ac_simps)

lemma dbl_0: "dbl 0 = 0"
  by (simp add: dbl_def)

subsection \<open>Bytes of a word\<close>

lemma byte_bit_high [simp]: "8 \<le> n \<Longrightarrow> \<not> bit (b::byte) n"
  by (auto dest: bit_imp_le_length)

lemma byte0_bytes_word [simp]: "byte0 (bytes_word a b c d) = a"
  unfolding byte0_def bytes_word_def
  by (rule bit_word_eqI) (auto simp add: bit_simps)

lemma byte1_bytes_word [simp]: "byte1 (bytes_word a b c d) = b"
  unfolding byte1_def bytes_word_def
  by (rule bit_word_eqI) (auto simp add: bit_simps)

lemma byte2_bytes_word [simp]: "byte2 (bytes_word a b c d) = c"
  unfolding byte2_def bytes_word_def
  by (rule bit_word_eqI) (auto simp add: bit_simps)

lemma byte3_bytes_word [simp]: "byte3 (bytes_word a b c d) = d"
  unfolding byte3_def bytes_word_def
  by (rule bit_word_eqI) (auto simp add: bit_simps)

lemma bytes_word_bytes [simp]: "bytes_word (byte0 w) (byte1 w) (byte2 w) (byte3 w) = w"
  unfolding byte0_def byte1_def byte2_def byte3_def bytes_word_def
  apply (rule bit_word_eqI)
  apply (auto simp add: bit_simps not_less not_le)
  subgoal for n by (cases "16 \<le> n") auto
  subgoal for n by (cases "24 \<le> n"; cases "16 \<le> n") auto
  done

lemma bytes_word_xor:
  "bytes_word a b c d XOR bytes_word a' b' c' d' = bytes_word (a XOR a') (b XOR b') (c XOR c') (d XOR d')"
  unfolding bytes_word_def
  by (rule bit_word_eqI) (auto simp add: bit_simps)

lemma byte0_xor [simp]: "byte0 (x XOR y) = byte0 x XOR byte0 y"
  unfolding byte0_def by (rule bit_word_eqI) (auto simp add: bit_simps)
lemma byte1_xor [simp]: "byte1 (x XOR y) = byte1 x XOR byte1 y"
  unfolding byte1_def by (rule bit_word_eqI) (auto simp add: bit_simps)
lemma byte2_xor [simp]: "byte2 (x XOR y) = byte2 x XOR byte2 y"
  unfolding byte2_def by (rule bit_word_eqI) (auto simp add: bit_simps)
lemma byte3_xor [simp]: "byte3 (x XOR y) = byte3 x XOR byte3 y"
  unfolding byte3_def by (rule bit_word_eqI) (auto simp add: bit_simps)

lemma rot8: "push_bit 24 (bytes_word a b c d) OR drop_bit 8 (bytes_word a b c d) = bytes_word d a b c"
  unfolding bytes_word_def
  by (rule bit_word_eqI) (auto simp add: bit_simps not_less not_le)
lemma rot16: "push_bit 16 (bytes_word a b c d) OR drop_bit 16 (bytes_word a b c d) = bytes_word c d a b"
  unfolding bytes_word_def
  apply (rule bit_word_eqI)
  apply (auto simp add: bit_simps not_less not_le)
  subgoal for n using bit_imp_le_length [of a "n - 8"] by auto
  subgoal for n using bit_imp_le_length [of a "n - 8"] by auto
  done
lemma rot24: "push_bit 8 (bytes_word a b c d) OR drop_bit 24 (bytes_word a b c d) = bytes_word b c d a"
  unfolding bytes_word_def
  by (rule bit_word_eqI) (auto simp add: bit_simps not_less not_le)

subsection \<open>The tables as columns of bytes\<close>

lemma mul_1010101: "ucast (x::byte) * (0x1010101::word32) = bytes_word x x x x"
  by (rule all_byte [where P = "\<lambda>x. ucast x * (0x1010101::word32) = bytes_word x x x x"]) code_simp

lemma mul_10001: "ucast (x::byte) * (0x10001::word32) = bytes_word 0 x 0 x"
  by (rule all_byte [where P = "\<lambda>x. ucast x * (0x10001::word32) = bytes_word 0 x 0 x"]) code_simp

lemma mul_101: "ucast (x::byte) * (0x101::word32) = bytes_word 0 0 x x"
  by (rule all_byte [where P = "\<lambda>x. ucast x * (0x101::word32) = bytes_word 0 0 x x"]) code_simp

lemma mul_1010100: "ucast (x::byte) * (0x1010100::word32) = bytes_word x x x 0"
  by (rule all_byte [where P = "\<lambda>x. ucast x * (0x1010100::word32) = bytes_word x x x 0"]) code_simp

lemma SUB_MIX_3_bytes: "SUB_MIX_3 x = bytes_word (SBOX x) (SBOX x) (dbl (SBOX x) XOR SBOX x) (dbl (SBOX x))"
  by (simp add: SUB_MIX_3_def Let_def mul_101 mul_1010100 bytes_word_xor)

lemma SUB_MIX_0_bytes: "SUB_MIX_0 x = bytes_word (dbl (SBOX x)) (SBOX x) (SBOX x) (dbl (SBOX x) XOR SBOX x)"
  by (simp add: SUB_MIX_0_def Let_def SUB_MIX_3_bytes rot8)

lemma SUB_MIX_1_bytes: "SUB_MIX_1 x = bytes_word (dbl (SBOX x) XOR SBOX x) (dbl (SBOX x)) (SBOX x) (SBOX x)"
  by (simp add: SUB_MIX_1_def Let_def SUB_MIX_3_bytes rot16)

lemma SUB_MIX_2_bytes: "SUB_MIX_2 x = bytes_word (SBOX x) (dbl (SBOX x) XOR SBOX x) (dbl (SBOX x)) (SBOX x)"
  by (simp add: SUB_MIX_2_def Let_def SUB_MIX_3_bytes rot24)

definition m9 :: "byte \<Rightarrow> byte" where "m9 x = dbl (dbl (dbl x)) XOR x"
definition m11 :: "byte \<Rightarrow> byte" where "m11 x = dbl (dbl (dbl x)) XOR dbl x XOR x"
definition m13 :: "byte \<Rightarrow> byte" where "m13 x = dbl (dbl (dbl x)) XOR dbl (dbl x) XOR x"
definition m14 :: "byte \<Rightarrow> byte" where "m14 x = dbl (dbl (dbl x)) XOR dbl (dbl x) XOR dbl x"

lemma inv_mix_bytes: "inv_mix x = bytes_word (m9 x) (m13 x) (m11 x) (m14 x)"
  by (simp add: inv_mix_def Let_def mul_1010101 mul_10001 mul_101 mul_1010100 bytes_word_xor
        m9_def m11_def m13_def m14_def ac_simps)

lemma INV_SUB_MIX_3_SBOX: "INV_SUB_MIX_3 (SBOX x) = bytes_word (m9 x) (m13 x) (m11 x) (m14 x)"
  by (simp add: INV_SUB_MIX_3_def inv_sbox inv_mix_bytes)

lemma INV_SUB_MIX_0_SBOX: "INV_SUB_MIX_0 (SBOX x) = bytes_word (m14 x) (m9 x) (m13 x) (m11 x)"
  by (simp add: INV_SUB_MIX_0_def Let_def INV_SUB_MIX_3_SBOX rot8)

lemma INV_SUB_MIX_1_SBOX: "INV_SUB_MIX_1 (SBOX x) = bytes_word (m11 x) (m14 x) (m9 x) (m13 x)"
  by (simp add: INV_SUB_MIX_1_def Let_def INV_SUB_MIX_3_SBOX rot16)

lemma INV_SUB_MIX_2_SBOX: "INV_SUB_MIX_2 (SBOX x) = bytes_word (m13 x) (m11 x) (m14 x) (m9 x)"
  by (simp add: INV_SUB_MIX_2_def Let_def INV_SUB_MIX_3_SBOX rot24)

lemma m_xor:
  "m9 (x XOR y) = m9 x XOR m9 y" "m11 (x XOR y) = m11 x XOR m11 y"
  "m13 (x XOR y) = m13 x XOR m13 y" "m14 (x XOR y) = m14 x XOR m14 y"
  by (simp_all add: m9_def m11_def m13_def m14_def dbl_xor ac_simps)

lemma m_0: "m9 0 = 0" "m11 0 = 0" "m13 0 = 0" "m14 0 = 0"
  by (simp_all add: m9_def m11_def m13_def m14_def dbl_0)

lemma gf_id1: "m14 (dbl s) XOR m11 s XOR m13 s XOR m9 (dbl s XOR s) = s"
  by (simp add: m9_def m11_def m13_def m14_def dbl_xor ac_simps)

lemma gf_id2: "m14 (dbl s XOR s) XOR m11 (dbl s) XOR m13 s XOR m9 s = 0"
  by (simp add: m9_def m11_def m13_def m14_def dbl_xor ac_simps)

lemma gf_id3: "m14 s XOR m11 (dbl s XOR s) XOR m13 (dbl s) XOR m9 s = 0"
  by (simp add: m9_def m11_def m13_def m14_def dbl_xor ac_simps)

lemma gf_id4: "m14 s XOR m11 s XOR m13 (dbl s XOR s) XOR m9 (dbl s) = 0"
  by (simp add: m9_def m11_def m13_def m14_def dbl_xor ac_simps)

text \<open>The inverse mixing of a column, and the mixing of a column, on bytes.\<close>

definition inv_col :: "byte \<Rightarrow> byte \<Rightarrow> byte \<Rightarrow> byte \<Rightarrow> byte" where
  "inv_col a b c d = m14 a XOR m11 b XOR m13 c XOR m9 d"

definition mix_col :: "byte \<Rightarrow> byte \<Rightarrow> byte \<Rightarrow> byte \<Rightarrow> byte" where
  "mix_col a b c d = dbl a XOR (dbl b XOR b) XOR c XOR d"

lemma inv_col_split:
  "inv_col (a XOR a') (b XOR b') (c XOR c') (d XOR d') = inv_col a b c d XOR inv_col a' b' c' d'"
  by (simp add: inv_col_def m_xor ac_simps)

lemma mix_col_split:
  "mix_col a b c d = mix_col a 0 0 0 XOR mix_col 0 b 0 0 XOR mix_col 0 0 c 0 XOR mix_col 0 0 0 d"
  by (simp add: mix_col_def dbl_0 ac_simps)

lemma inv_col_0: "inv_col 0 0 0 0 = 0"
  by (simp add: inv_col_def m_0)

lemma inv_mix_col:
  "inv_col (mix_col a b c d) (mix_col b c d a) (mix_col c d a b) (mix_col d a b c) = a"
proof -
  have 1: "inv_col (mix_col a 0 0 0) (mix_col 0 0 0 a) (mix_col 0 0 a 0) (mix_col 0 a 0 0) = a"
    using gf_id1 [of a] by (simp add: inv_col_def mix_col_def dbl_0 ac_simps)
  have 2: "inv_col (mix_col 0 b 0 0) (mix_col b 0 0 0) (mix_col 0 0 0 b) (mix_col 0 0 b 0) = 0"
    using gf_id2 [of b] by (simp add: inv_col_def mix_col_def dbl_0 ac_simps)
  have 3: "inv_col (mix_col 0 0 c 0) (mix_col 0 c 0 0) (mix_col c 0 0 0) (mix_col 0 0 0 c) = 0"
    using gf_id3 [of c] by (simp add: inv_col_def mix_col_def dbl_0 ac_simps)
  have 4: "inv_col (mix_col 0 0 0 d) (mix_col 0 0 d 0) (mix_col 0 d 0 0) (mix_col d 0 0 0) = 0"
    using gf_id4 [of d] by (simp add: inv_col_def mix_col_def dbl_0 ac_simps)
  have "inv_col (mix_col a b c d) (mix_col b c d a) (mix_col c d a b) (mix_col d a b c) =
        inv_col (mix_col a 0 0 0) (mix_col 0 0 0 a) (mix_col 0 0 a 0) (mix_col 0 a 0 0) XOR
        inv_col (mix_col 0 b 0 0) (mix_col b 0 0 0) (mix_col 0 0 0 b) (mix_col 0 0 b 0) XOR
        inv_col (mix_col 0 0 c 0) (mix_col 0 c 0 0) (mix_col c 0 0 0) (mix_col 0 0 0 c) XOR
        inv_col (mix_col 0 0 0 d) (mix_col 0 0 d 0) (mix_col 0 d 0 0) (mix_col d 0 0 0)"
  proof -
    have s1: "mix_col a b c d = mix_col a 0 0 0 XOR mix_col 0 b 0 0 XOR mix_col 0 0 c 0 XOR mix_col 0 0 0 d"
      by (simp add: mix_col_def dbl_0 ac_simps)
    have s2: "mix_col b c d a = mix_col 0 0 0 a XOR mix_col b 0 0 0 XOR mix_col 0 c 0 0 XOR mix_col 0 0 d 0"
      by (simp add: mix_col_def dbl_0 ac_simps)
    have s3: "mix_col c d a b = mix_col 0 0 a 0 XOR mix_col 0 0 0 b XOR mix_col c 0 0 0 XOR mix_col 0 d 0 0"
      by (simp add: mix_col_def dbl_0 ac_simps)
    have s4: "mix_col d a b c = mix_col 0 a 0 0 XOR mix_col 0 0 b 0 XOR mix_col 0 0 0 c XOR mix_col d 0 0 0"
      by (simp add: mix_col_def dbl_0 ac_simps)
    show ?thesis
      by (simp only: s1 s2 s3 s4 inv_col_split)
  qed
  then show ?thesis by (simp add: 1 2 3 4)
qed

subsection \<open>Rounds and their inverses\<close>

lemma round_word_bytes:
  "SUB_MIX_0 a XOR SUB_MIX_1 b XOR SUB_MIX_2 c XOR SUB_MIX_3 d =
   bytes_word (mix_col (SBOX a) (SBOX b) (SBOX c) (SBOX d))
              (mix_col (SBOX b) (SBOX c) (SBOX d) (SBOX a))
              (mix_col (SBOX c) (SBOX d) (SBOX a) (SBOX b))
              (mix_col (SBOX d) (SBOX a) (SBOX b) (SBOX c))"
  by (simp add: SUB_MIX_0_bytes SUB_MIX_1_bytes SUB_MIX_2_bytes SUB_MIX_3_bytes bytes_word_xor
        mix_col_def ac_simps)

lemma inv_mix_word_bytes:
  "inv_mix_word t =
   bytes_word (inv_col (byte0 t) (byte1 t) (byte2 t) (byte3 t))
              (inv_col (byte1 t) (byte2 t) (byte3 t) (byte0 t))
              (inv_col (byte2 t) (byte3 t) (byte0 t) (byte1 t))
              (inv_col (byte3 t) (byte0 t) (byte1 t) (byte2 t))"
  by (simp add: inv_mix_word_def INV_SUB_MIX_0_SBOX INV_SUB_MIX_1_SBOX INV_SUB_MIX_2_SBOX
        INV_SUB_MIX_3_SBOX bytes_word_xor inv_col_def ac_simps)

lemma inv_mix_word_xor: "inv_mix_word (x XOR y) = inv_mix_word x XOR inv_mix_word y"
  by (simp add: inv_mix_word_bytes bytes_word_xor inv_col_split)

lemma inv_mix_round_word:
  "inv_mix_word (SUB_MIX_0 a XOR SUB_MIX_1 b XOR SUB_MIX_2 c XOR SUB_MIX_3 d) =
   bytes_word (SBOX a) (SBOX b) (SBOX c) (SBOX d)"
  by (simp only: round_word_bytes inv_mix_word_bytes byte0_bytes_word byte1_bytes_word
        byte2_bytes_word byte3_bytes_word inv_mix_col)

definition inv_mix_block :: "block \<Rightarrow> block" where
  "inv_mix_block s =
     (case s of (s0, s1, s2, s3) \<Rightarrow>
        (inv_mix_word s0, inv_mix_word s1, inv_mix_word s2, inv_mix_word s3))"

abbreviation enc_round :: "block \<Rightarrow> block" where
  "enc_round \<equiv> mix_round SUB_MIX_0 SUB_MIX_1 SUB_MIX_2 SUB_MIX_3"

abbreviation dec_round :: "block \<Rightarrow> block" where
  "dec_round \<equiv> mix_round INV_SUB_MIX_0 INV_SUB_MIX_1 INV_SUB_MIX_2 INV_SUB_MIX_3"

lemma inv_mix_enc_round: "inv_mix_block (enc_round s) = sub_round SBOX s"
  by (cases s) (simp add: inv_mix_block_def mix_round_def sub_round_def inv_mix_round_word)

lemma dec_round_swap: "dec_round (swap13 (sub_round SBOX x)) = swap13 (inv_mix_block x)"
  by (cases x) (simp add: mix_round_def swap13_def sub_round_def inv_mix_block_def inv_mix_word_def)

lemma inv_sub_round_swap: "sub_round INV_SBOX (swap13 (sub_round SBOX x)) = swap13 x"
  by (cases x) (simp add: swap13_def sub_round_def inv_sbox)

lemma inv_mix_block_xor:
  "inv_mix_block (xor_block a b) = xor_block (inv_mix_block a) (inv_mix_block b)"
  by (cases a; cases b) (simp add: inv_mix_block_def xor_block_def inv_mix_word_xor)

lemma swap13_xor: "swap13 (xor_block a b) = xor_block (swap13 a) (swap13 b)"
  by (cases a; cases b) (simp add: swap13_def xor_block_def)

lemma swap13_swap13 [simp]: "swap13 (swap13 a) = a"
  by (cases a) (simp add: swap13_def)

lemma xor_block_cancel [simp]: "xor_block (xor_block a k) k = a"
  by (cases a; cases k) (simp add: xor_block_def ac_simps)

lemma crypt_rounds_snd: "snd (crypt_rounds rnd ks n r s) = r + 4 * n"
  by (induction n arbitrary: r s) simp_all

lemma crypt_rounds_Suc:
  "crypt_rounds rnd ks (Suc n) r s =
     (xor_block (rnd (fst (crypt_rounds rnd ks n r s))) (key_block ks (r + 4 * n)), r + 4 * n + 4)"
proof (induction n arbitrary: r s)
  case 0
  show ?case by simp
next
  case (Suc n)
  have "crypt_rounds rnd ks (Suc (Suc n)) r s =
        crypt_rounds rnd ks (Suc n) (r + 4) (xor_block (rnd s) (key_block ks r))"
    by simp
  also have "\<dots> = (xor_block (rnd (fst (crypt_rounds rnd ks n (r + 4)
                        (xor_block (rnd s) (key_block ks r))))) (key_block ks (r + 4 + 4 * n)),
                    r + 4 + 4 * n + 4)"
    by (rule Suc.IH)
  finally show ?case by (simp add: ac_simps)
qed

text \<open>The inverse key schedule of a key whose length is a multiple of four bytes.\<close>

lemma word_at_int_nat [simp]: "word_at_int ws (int i) = word_at ws i"
  by (simp add: word_at_int_def)

lemma inv_key_rows:
  fixes ks :: "word32 list" and R :: nat
  defines "N \<equiv> 4 * (int R + 1)"
  defines "iks \<equiv> map (inv_key_schedule_row ks N) [0..N - 1]"
  assumes "r \<le> R"
  shows "word_at iks (4 * r) =
           (if r = 0 \<or> r = R then word_at ks (4 * (R - r))
            else inv_mix_word (word_at ks (4 * (R - r))))"
    and "word_at iks (4 * r + 1) =
           (if r = 0 \<or> r = R then word_at ks (4 * (R - r) + 3)
            else inv_mix_word (word_at ks (4 * (R - r) + 3)))"
    and "word_at iks (4 * r + 2) =
           (if r = 0 \<or> r = R then word_at ks (4 * (R - r) + 2)
            else inv_mix_word (word_at ks (4 * (R - r) + 2)))"
    and "word_at iks (4 * r + 3) =
           (if r = 0 \<or> r = R then word_at ks (4 * (R - r) + 1)
            else inv_mix_word (word_at ks (4 * (R - r) + 1)))"
proof -
  have w: "word_at iks i = inv_key_schedule_row ks N (int i)" if "int i < N" for i
  proof -
    from that have "i < nat N" by linarith
    then show ?thesis unfolding iks_def by (simp add: word_at_def)
  qed
  show "word_at iks (4 * r) =
           (if r = 0 \<or> r = R then word_at ks (4 * (R - r))
            else inv_mix_word (word_at ks (4 * (R - r))))"
  proof -
    have i0: "int (4 * r) = 4 * int r" by simp
    have i1: "(4 * int r) mod 4 = 0" by presburger
    have i2: "N - (4 * int r) - 4 = int (4 * (R - r))" using assms(3) unfolding N_def by simp
    have i3: "(4 * int r < 4 \<or> N - (4 * int r) \<le> 4) = (r = 0 \<or> r = R)"
      using assms(3) unfolding N_def by auto
    have "int (4 * r) < N" using assms(3) unfolding N_def by simp
    then have "word_at iks (4 * r) = inv_key_schedule_row ks N (4 * int r)"
      using w [of "4 * r"] by (simp only: i0)
    also have "\<dots> = (if r = 0 \<or> r = R then word_at ks (4 * (R - r))
            else inv_mix_word (word_at ks (4 * (R - r))))"
      unfolding inv_key_schedule_row_def Let_def
      by (simp only: i1 i2 i3 word_at_int_nat simp_thms if_True if_False)
    finally show ?thesis .
  qed
  show "word_at iks (4 * r + 1) =
           (if r = 0 \<or> r = R then word_at ks (4 * (R - r) + 3)
            else inv_mix_word (word_at ks (4 * (R - r) + 3)))"
  proof -
    have i0: "int (4 * r + 1) = 4 * int r + 1" by simp
    have i1: "(4 * int r + 1) mod 4 \<noteq> 0" by presburger
    have i2: "N - (4 * int r + 1) = int (4 * (R - r) + 3)" using assms(3) unfolding N_def by simp
    have i3: "(4 * int r + 1 < 4 \<or> N - (4 * int r + 1) \<le> 4) = (r = 0 \<or> r = R)"
      using assms(3) unfolding N_def by auto
    have i4: "(4 * int r + 1 < 4 \<or> int (4 * (R - r) + 3) \<le> 4) = (r = 0 \<or> r = R)"
      using assms(3) by auto
    have "int (4 * r + 1) < N" using assms(3) unfolding N_def by simp
    then have "word_at iks (4 * r + 1) = inv_key_schedule_row ks N (4 * int r + 1)"
      using w [of "4 * r + 1"] by (simp only: i0)
    also have "\<dots> = (if r = 0 \<or> r = R then word_at ks (4 * (R - r) + 3)
            else inv_mix_word (word_at ks (4 * (R - r) + 3)))"
      unfolding inv_key_schedule_row_def Let_def
      by (simp only: i1 i2 i3 i4 word_at_int_nat simp_thms if_True if_False)
    finally show ?thesis .
  qed
  show "word_at iks (4 * r + 2) =
           (if r = 0 \<or> r = R then word_at ks (4 * (R - r) + 2)
            else inv_mix_word (word_at ks (4 * (R - r) + 2)))"
  proof -
    have i0: "int (4 * r + 2) = 4 * int r + 2" by simp
    have i1: "(4 * int r + 2) mod 4 \<noteq> 0" by presburger
    have i2: "N - (4 * int r + 2) = int (4 * (R - r) + 2)" using assms(3) unfolding N_def by simp
    have i3: "(4 * int r + 2 < 4 \<or> N - (4 * int r + 2) \<le> 4) = (r = 0 \<or> r = R)"
      using assms(3) unfolding N_def by auto
    have i4: "(4 * int r + 2 < 4 \<or> int (4 * (R - r) + 2) \<le> 4) = (r = 0 \<or> r = R)"
      using assms(3) by auto
    have "int (4 * r + 2) < N" using assms(3) unfolding N_def by simp
    then have "word_at iks (4 * r + 2) = inv_key_schedule_row ks N (4 * int r + 2)"
      using w [of "4 * r + 2"] by (simp only: i0)
    also have "\<dots> = (if r = 0 \<or> r = R then word_at ks (4 * (R - r) + 2)
            else inv_mix_word (word_at ks (4 * (R - r) + 2)))"
      unfolding inv_key_schedule_row_def Let_def
      by (simp only: i1 i2 i3 i4 word_at_int_nat simp_thms if_True if_False)
    finally show ?thesis .
  qed
  show "word_at iks (4 * r + 3) =
           (if r = 0 \<or> r = R then word_at ks (4 * (R - r) + 1)
            else inv_mix_word (word_at ks (4 * (R - r) + 1)))"
  proof -
    have i0: "int (4 * r + 3) = 4 * int r + 3" by simp
    have i1: "(4 * int r + 3) mod 4 \<noteq> 0" by presburger
    have i2: "N - (4 * int r + 3) = int (4 * (R - r) + 1)" using assms(3) unfolding N_def by simp
    have i3: "(4 * int r + 3 < 4 \<or> N - (4 * int r + 3) \<le> 4) = (r = 0 \<or> r = R)"
      using assms(3) unfolding N_def by auto
    have i4: "(4 * int r + 3 < 4 \<or> int (4 * (R - r) + 1) \<le> 4) = (r = 0 \<or> r = R)"
      using assms(3) by auto
    have "int (4 * r + 3) < N" using assms(3) unfolding N_def by simp
    then have "word_at iks (4 * r + 3) = inv_key_schedule_row ks N (4 * int r + 3)"
      using w [of "4 * r + 3"] by (simp only: i0)
    also have "\<dots> = (if r = 0 \<or> r = R then word_at ks (4 * (R - r) + 1)
            else inv_mix_word (word_at ks (4 * (R - r) + 1)))"
      unfolding inv_key_schedule_row_def Let_def
      by (simp only: i1 i2 i3 i4 word_at_int_nat simp_thms if_True if_False)
    finally show ?thesis .
  qed
qed

lemma inv_key_block:
  assumes "r \<le> R"
  shows "key_block (map (inv_key_schedule_row ks (4 * (int R + 1))) [0..4 * (int R + 1) - 1]) (4 * r) =
         swap13 (if r = 0 \<or> r = R then key_block ks (4 * (R - r))
                 else inv_mix_block (key_block ks (4 * (R - r))))"
  unfolding key_block_def
  by (simp only: inv_key_rows [OF assms]) (simp add: swap13_def inv_mix_block_def)


text \<open>Decryption undoes encryption when the rounds and the two schedules are aligned.\<close>

lemma doCryptBlock_inverse:
  fixes ks :: "word32 list" and R :: nat
  defines "iks \<equiv> map (inv_key_schedule_row ks (4 * (int R + 1))) [0..4 * (int R + 1) - 1]"
  assumes R: "1 \<le> R"
  shows "swap13 (doCryptBlock (of_nat R) iks dec_round INV_SBOX
           (swap13 (doCryptBlock (of_nat R) ks enc_round SBOX m))) = m"
proof -
  define k where "k = R - 1"
  define x0 where "x0 = xor_block m (key_block ks 0)"
  define y where "y i = fst (crypt_rounds enc_round ks i 4 x0)" for i
  have Rk: "R = Suc k" using R by (simp add: k_def)
  have nr: "nat (\<lceil>(of_nat R :: rat)\<rceil> - 1) = k" by (simp add: k_def)
  have kb: "key_block iks (4 * r) =
            swap13 (if r = 0 \<or> r = R then key_block ks (4 * (R - r))
                    else inv_mix_block (key_block ks (4 * (R - r))))" if "r \<le> R" for r
    unfolding iks_def by (rule inv_key_block [OF that])
  have y_Suc: "y (Suc i) = xor_block (enc_round (y i)) (key_block ks (4 + 4 * i))" for i
    by (simp add: y_def crypt_rounds_Suc del: crypt_rounds.simps)
  have enc: "doCryptBlock (of_nat R) ks enc_round SBOX m =
             xor_block (sub_round SBOX (y k)) (key_block ks (4 * R))"
  proof -
    have "crypt_rounds enc_round ks k 4 x0 = (y k, 4 + 4 * k)"
      using crypt_rounds_snd [of enc_round ks k 4 x0] by (simp add: y_def prod_eq_iff)
    then show ?thesis
      unfolding doCryptBlock_def nr x0_def [symmetric] by (simp add: Rk)
  qed
  define z0 where "z0 = swap13 (sub_round SBOX (y k))"
  have start: "xor_block (swap13 (doCryptBlock (of_nat R) ks enc_round SBOX m)) (key_block iks 0) = z0"
    using kb [of 0] by (simp add: enc swap13_xor z0_def)
  have inv: "fst (crypt_rounds dec_round iks j 4 z0) = swap13 (sub_round SBOX (y (k - j)))"
    if "j \<le> k" for j
    using that
  proof (induction j)
    case 0
    show ?case by (simp add: z0_def)
  next
    case (Suc j)
    then have jk: "j < k" and IH: "fst (crypt_rounds dec_round iks j 4 z0) = swap13 (sub_round SBOX (y (k - j)))"
      by simp_all
    have r: "Suc j \<le> R" "Suc j \<noteq> 0" "Suc j \<noteq> R" using jk Rk by simp_all
    have kj: "k - j = Suc (k - Suc j)" using jk by simp
    have idx: "4 + 4 * (k - Suc j) = 4 * (R - Suc j)" using jk Rk by simp
    have "fst (crypt_rounds dec_round iks (Suc j) 4 z0) =
          xor_block (dec_round (swap13 (sub_round SBOX (y (k - j))))) (key_block iks (4 * Suc j))"
      by (simp add: crypt_rounds_Suc IH del: crypt_rounds.simps)
    also have "\<dots> = swap13 (inv_mix_block (xor_block (y (k - j)) (key_block ks (4 * (R - Suc j)))))"
      using kb [OF r(1)] r(2,3) by (simp add: dec_round_swap swap13_xor inv_mix_block_xor)
    also have "xor_block (y (k - j)) (key_block ks (4 * (R - Suc j))) = enc_round (y (k - Suc j))"
      by (subst kj) (simp add: y_Suc idx)
    finally show ?case by (simp add: inv_mix_enc_round)
  qed
  have dec_rounds: "crypt_rounds dec_round iks k 4 z0 = (swap13 (sub_round SBOX x0), 4 * R)"
    using inv [of k] crypt_rounds_snd [of dec_round iks k 4 z0]
    by (simp add: prod_eq_iff y_def Rk)
  have "doCryptBlock (of_nat R) iks dec_round INV_SBOX
          (swap13 (doCryptBlock (of_nat R) ks enc_round SBOX m)) =
        xor_block (sub_round INV_SBOX (swap13 (sub_round SBOX x0))) (key_block iks (4 * R))"
    unfolding doCryptBlock_def [of _ iks] nr start dec_rounds by simp
  also have "\<dots> = swap13 m"
    using kb [of R] by (simp add: inv_sub_round_swap x0_def swap13_xor [symmetric])
  finally show ?thesis by simp
qed

text \<open>
  For a key of \<open>4 * n\<close> bytes \<^verbatim>\<open>decryptBlock\<close> undoes \<^verbatim>\<open>encryptBlock\<close>: the number of
  rounds is whole and the inverse key schedule lines up with the key schedule.
\<close>

lemma decryptBlock_encryptBlock:
  assumes "sigBytes key = 4 * int n"
  shows "decryptBlock (AES_doReset key) (encryptBlock (AES_doReset key) m) = m"
proof -
  have nr: "nRounds (AES_doReset key) = of_nat (n + 6)"
    by (simp add: AES_doReset_def Let_def assms)
  have rows: "sigBytes key + 28 = 4 * (int (n + 6) + 1)"
    by (simp add: assms)
  have iks: "invKeySchedule (AES_doReset key) =
             map (inv_key_schedule_row (keySchedule (AES_doReset key)) (4 * (int (n + 6) + 1)))
               [0..4 * (int (n + 6) + 1) - 1]"
    unfolding AES_doReset_def Let_def rows by simp
  show ?thesis
    unfolding decryptBlock_def encryptBlock_def nr iks
    by (rule doCryptBlock_inverse) simp
qed

section \<open>Proofs: word arrays, padding and chaining\<close>

subsection \<open>Bytes and words of a word array\<close>

lemma length_pack_bytes: "length (pack_bytes bs) = (length bs + 3) div 4"
  by (induction bs rule: pack_bytes.induct) simp_all

lemma byte_at_Cons_low:
  "byte_at (w # ws) 0 = byte0 w"
  "byte_at (w # ws) 1 = byte1 w"
  "byte_at (w # ws) 2 = byte2 w"
  "byte_at (w # ws) 3 = byte3 w"
  by (simp_all add: byte_at_def word_at_def byte0_def byte1_def byte2_def byte3_def)

lemma byte_at_Cons_Suc0 [simp]: "byte_at (w # ws) (Suc 0) = byte1 w"
  using byte_at_Cons_low(2) [of w ws] by simp

lemma byte_at_Cons_add4: "byte_at (w # ws) (i + 4) = byte_at ws i"
  by (simp add: byte_at_def word_at_def)

lemma nth_add4: "(a # b # c # d # r) ! (i + 4) = r ! i"
proof -
  have "i + 4 = Suc (Suc (Suc (Suc i)))" by simp
  then show ?thesis by (simp only: nth_Cons_Suc)
qed

lemma nth_low4:
  "(a # r) ! 0 = a" "(a # b # r1) ! 1 = b" "(a # b # c # r2) ! 2 = c" "(a # b # c # d # r3) ! 3 = d"
  by (simp_all add: nth_Cons')

lemma less4_cases: "i < 4 \<Longrightarrow> i = 0 \<or> i = 1 \<or> i = 2 \<or> i = (3::nat)"
  by arith

lemma ge4_add4: "\<not> i < 4 \<Longrightarrow> \<exists>j. i = j + (4::nat)"
  by (rule exI [of _ "i - 4"]) simp

lemma byte_at_pack: "i < length bs \<Longrightarrow> byte_at (pack_bytes bs) i = bs ! i"
proof (induction bs arbitrary: i rule: pack_bytes.induct)
  case (1 a b c d r)
  show ?case
  proof (cases "i < 4")
    case True
    from less4_cases [OF this] show ?thesis
      by (auto simp: byte_at_Cons_low nth_low4)
  next
    case False
    from ge4_add4 [OF this] obtain j where j: "i = j + 4" by blast
    with "1.prems" have "j < length r" by simp
    then show ?thesis using "1.IH" [of j] by (simp add: j byte_at_Cons_add4 nth_add4)
  qed
next
  case (2 a b c)
  then have "i < 4" by simp
  from less4_cases [OF this] 2 show ?case by (auto simp: byte_at_Cons_low nth_low4)
next
  case (3 a b)
  then have "i < 4" by simp
  from less4_cases [OF this] 3 show ?case by (auto simp: byte_at_Cons_low nth_low4)
next
  case (4 a)
  then have "i < 4" by simp
  from less4_cases [OF this] 4 show ?case by (auto simp: byte_at_Cons_low nth_low4)
next
  case 5
  then show ?case by simp
qed

lemma bytes_of_pack: "n \<le> length bs \<Longrightarrow> map (byte_at (pack_bytes bs)) [0..<n] = take n bs"
  by (rule nth_equalityI) (simp_all add: byte_at_pack)

lemma Latin1_stringify_parse [simp]: "Latin1_stringify (Latin1_parse bs) = bs"
  by (simp add: Latin1_stringify_def Latin1_parse_def bytes_of_pack)

lemma unpack_Cons:
  "map (byte_at (w # ws)) [0..<4 * Suc (length ws)] =
   byte0 w # byte1 w # byte2 w # byte3 w # map (byte_at ws) [0..<4 * length ws]"
proof (rule nth_equalityI)
  show "length (map (byte_at (w # ws)) [0..<4 * Suc (length ws)]) =
        length (byte0 w # byte1 w # byte2 w # byte3 w # map (byte_at ws) [0..<4 * length ws])"
    by simp
next
  fix i assume "i < length (map (byte_at (w # ws)) [0..<4 * Suc (length ws)])"
  then have i: "i < 4 + 4 * length ws" by simp
  show "map (byte_at (w # ws)) [0..<4 * Suc (length ws)] ! i =
        (byte0 w # byte1 w # byte2 w # byte3 w # map (byte_at ws) [0..<4 * length ws]) ! i"
  proof (cases "i < 4")
    case True
    from less4_cases [OF this] i show ?thesis by (auto simp: byte_at_Cons_low nth_low4)
  next
    case False
    from ge4_add4 [OF this] obtain j where j: "i = j + 4" by blast
    with i have jl: "j < 4 * length ws" by simp
    have "map (byte_at (w # ws)) [0..<4 * Suc (length ws)] ! (j + 4) = byte_at ws j"
      using jl by (simp add: byte_at_Cons_add4 del: upt_Suc)
    moreover have "(byte0 w # byte1 w # byte2 w # byte3 w # map (byte_at ws) [0..<4 * length ws]) ! (j + 4)
        = byte_at ws j"
      using jl by (simp only: nth_add4) simp
    ultimately show ?thesis by (simp only: j)
  qed
qed

lemma pack_unpack: "pack_bytes (map (byte_at ws) [0..<4 * length ws]) = ws"
proof (induction ws)
  case Nil
  show ?case by simp
next
  case (Cons w ws)
  have "pack_bytes (map (byte_at (w # ws)) [0..<4 * length (w # ws)]) =
        pack_bytes (byte0 w # byte1 w # byte2 w # byte3 w # map (byte_at ws) [0..<4 * length ws])"
    using unpack_Cons [of w ws] by simp
  then show ?case using Cons.IH by simp
qed

lemma clamp_aligned: "sigBytes wa = 4 * int (length (words wa)) \<Longrightarrow> clamp wa = wa"
  by (simp add: clamp_def Latin1_stringify_def nat_mult_distrib pack_unpack)

lemma clamp_parse [simp]: "clamp (Latin1_parse bs) = Latin1_parse bs"
proof -
  have "clamp (Latin1_parse bs) = (Latin1_parse bs)\<lparr>words := pack_bytes bs\<rparr>"
    unfolding clamp_def by simp
  then show ?thesis by (simp add: Latin1_parse_def)
qed

lemma map_word_at: "map (word_at ws) [0..<length ws] = ws"
  by (rule nth_equalityI) (simp_all add: word_at_def)

lemma concat_empty_parse [simp]: "concat_wa empty_wa (Latin1_parse bs) = Latin1_parse bs"
proof -
  have "nat ((int (length bs) + 3) div 4) = length (pack_bytes bs)"
    by (simp add: length_pack_bytes nat_div_distrib nat_add_distrib)
  then show ?thesis
    by (simp add: concat_wa_def empty_wa_def clamp_def Latin1_stringify_def Latin1_parse_def
          map_word_at)
qed

lemma concat_empty_aligned:
  "sigBytes wa = 4 * int (length (words wa)) \<Longrightarrow> concat_wa empty_wa wa = wa"
proof -
  assume a: "sigBytes wa = 4 * int (length (words wa))"
  then have "nat ((sigBytes wa + 3) div 4) = length (words wa)" by simp
  then show ?thesis
    by (simp add: concat_wa_def empty_wa_def clamp_def Latin1_stringify_def map_word_at)
qed

lemma pack_append:
  "length as mod 4 = 0 \<Longrightarrow> pack_bytes (as @ bs) = pack_bytes as @ pack_bytes bs"
proof (induction as rule: pack_bytes.induct)
  case (1 a b c d r)
  from "1.prems" have "(length r + 4) mod 4 = 0" by simp
  then have "length r mod 4 = 0" by simp
  with "1.IH" show ?case by simp
qed simp_all

lemma pack_replicate: "pack_bytes (replicate (4 * k) b) = replicate k (bytes_word b b b b)"
proof (induction k)
  case 0
  show ?case by simp
next
  case (Suc k)
  have "4 * Suc k = Suc (Suc (Suc (Suc (4 * k))))" by simp
  then show ?case using Suc.IH by (simp only: replicate_Suc pack_bytes.simps)
qed

subsection \<open>Padding\<close>

lemma byte_at_replicate:
  assumes "i < 4 * k"
  shows "byte_at (replicate k (bytes_word p p p p)) i = p"
proof -
  have d: "i div 4 < k" using assms by simp
  have "i mod 4 < 4" by simp
  from less4_cases [OF this] show ?thesis
    using d byte0_bytes_word [of p p p p] byte1_bytes_word [of p p p p]
      byte2_bytes_word [of p p p p] byte3_bytes_word [of p p p p]
    by (auto simp: byte_at_def word_at_def byte0_def byte1_def byte2_def byte3_def)
qed

lemma stringify_padding:
  assumes "0 \<le> n"
  shows "Latin1_stringify (WordArray_create (replicate (nat ((n + 3) div 4)) (bytes_word p p p p)) n) =
         replicate (nat n) p"
proof (rule nth_equalityI)
  show "length (Latin1_stringify (WordArray_create (replicate (nat ((n + 3) div 4)) (bytes_word p p p p)) n)) =
        length (replicate (nat n) p)"
    by (simp add: Latin1_stringify_def WordArray_create_def)
next
  fix i
  assume "i < length (Latin1_stringify (WordArray_create (replicate (nat ((n + 3) div 4)) (bytes_word p p p p)) n))"
  then have i: "i < nat n" by (simp add: Latin1_stringify_def WordArray_create_def)
  then have "i < 4 * nat ((n + 3) div 4)" using assms by linarith
  then show "Latin1_stringify (WordArray_create (replicate (nat ((n + 3) div 4)) (bytes_word p p p p)) n) ! i =
             replicate (nat n) p ! i"
    using i by (simp add: Latin1_stringify_def WordArray_create_def byte_at_replicate)
qed

definition pad_len :: "nat \<Rightarrow> nat" where
  "pad_len n = 16 - n mod 16"

definition padded :: "byte list \<Rightarrow> byte list" where
  "padded bs = bs @ replicate (pad_len (length bs)) (of_nat (pad_len (length bs)))"

lemma pad_len_bounds: "1 \<le> pad_len n" "pad_len n \<le> 16" "(n + pad_len n) mod 16 = 0"
  unfolding pad_len_def by (simp_all add: mod_simps) presburger?

lemma length_padded: "length (padded bs) = 16 * (length bs div 16 + 1)"
  unfolding padded_def pad_len_def by simp presburger

lemma Pkcs7_pad_parse: "Pkcs7_pad (Latin1_parse bs) = Latin1_parse (padded bs)"
proof -
  define n where "n = length bs"
  define npad :: int where "npad = 16 - int n mod 16"
  have npad: "npad = int (pad_len n)" "0 \<le> npad"
    unfolding npad_def pad_len_def by (simp_all add: of_nat_diff zmod_int) 
  have pw: "(word_of_int npad :: byte) = of_nat (pad_len n)"
    by (simp add: npad)
  let ?that = "WordArray_create (replicate (nat ((npad + 3) div 4)) (bytes_word (of_nat (pad_len n)) (of_nat (pad_len n)) (of_nat (pad_len n)) (of_nat (pad_len n)))) npad"
  have pad: "Pkcs7_pad (Latin1_parse bs) = concat_wa (Latin1_parse bs) ?that"
    unfolding Pkcs7_pad_def Let_def by (simp add: Latin1_parse_def n_def [symmetric] npad_def [symmetric] pw)
  have st: "Latin1_stringify ?that = replicate (pad_len n) (of_nat (pad_len n))"
    using stringify_padding [OF npad(2), of "of_nat (pad_len n)"] by (simp add: npad)
  show ?thesis
  proof (cases "n mod 4 = 0")
    case False
    then have "int n mod 4 \<noteq> 0" by presburger
    then have "sigBytes (Latin1_parse bs) mod 4 \<noteq> 0"
      by (simp add: Latin1_parse_def n_def)
    then show ?thesis
      unfolding pad concat_wa_def
      by (simp add: st padded_def n_def [symmetric]) (simp add: Latin1_parse_def WordArray_create_def npad n_def)
  next
    case True
    then have "int n mod 4 = 0" by presburger
    then have al: "sigBytes (Latin1_parse bs) mod 4 = 0"
      by (simp add: Latin1_parse_def n_def)
    from True have "pad_len n mod 4 = 0" unfolding pad_len_def by presburger
    then obtain k where k: "pad_len n = 4 * k" by (auto simp: mod_eq_0_iff_dvd)
    have k4: "nat ((npad + 3) div 4) = k" by (simp add: npad k)
    have "words (concat_wa (Latin1_parse bs) ?that) = pack_bytes bs @ replicate k (bytes_word (of_nat (pad_len n)) (of_nat (pad_len n)) (of_nat (pad_len n)) (of_nat (pad_len n)))"
      unfolding concat_wa_def using al
      by (simp add: k4 WordArray_create_def) (simp add: Latin1_parse_def map_word_at [of "replicate k _", simplified])
    also have "\<dots> = pack_bytes (padded bs)"
      using True by (simp add: padded_def n_def [symmetric] pack_append k pack_replicate)
    finally have w: "words (concat_wa (Latin1_parse bs) ?that) = pack_bytes (padded bs)" .
    have s: "sigBytes (concat_wa (Latin1_parse bs) ?that) = int (length (padded bs))"
      unfolding concat_wa_def by (simp add: Latin1_parse_def WordArray_create_def npad padded_def n_def)
    show ?thesis unfolding pad using w s by (simp add: Latin1_parse_def)
  qed
qed

subsection \<open>Blocks\<close>

lemma nBlocksReady_16 [simp]: "nBlocksReady (16 * int nb) = nb"
  by (simp add: nBlocksReady_def)

lemma length_words_of_blocks [simp]: "length (words_of_blocks bl) = 4 * length bl"
  by (induction bl rule: words_of_blocks.induct) simp_all

lemma length_CBC_encrypt [simp]: "length (CBC_encrypt enc prev bl) = length bl"
  by (induction bl arbitrary: prev) (simp_all add: Let_def)

lemma block_at_Cons4: "block_at (w0 # w1 # w2 # w3 # ws) (Suc k) = block_at ws k"
proof -
  have "4 * Suc k = Suc (Suc (Suc (Suc (4 * k))))" by simp
  then show ?thesis by (simp add: block_at_def word_at_def ac_simps)
qed

lemma block_at_0: "block_at (w0 # w1 # w2 # w3 # ws) 0 = (w0, w1, w2, w3)"
  by (simp add: block_at_def word_at_def)

lemma map_upt_Suc': "map f [0..<Suc n] = f 0 # map (\<lambda>k. f (Suc k)) [0..<n]"
  by (simp add: map_upt_Suc del: upt_Suc)

lemma blocks_words_of_blocks: "map (block_at (words_of_blocks bl)) [0..<length bl] = bl"
proof (induction bl rule: words_of_blocks.induct)
  case 1
  show ?case by simp
next
  case (2 w0 w1 w2 w3 bs)
  have "map (block_at (words_of_blocks ((w0, w1, w2, w3) # bs))) [0..<length ((w0, w1, w2, w3) # bs)] =
        (w0, w1, w2, w3) # map (block_at (words_of_blocks bs)) [0..<length bs]"
    by (simp add: map_upt_Suc' block_at_0 block_at_Cons4 del: upt_Suc)
  then show ?case using 2 by simp
qed

lemma words_of_blocks_blocks:
  "length ws = 4 * nb \<Longrightarrow> words_of_blocks (map (block_at ws) [0..<nb]) = ws"
proof (induction nb arbitrary: ws)
  case 0
  then show ?case by simp
next
  case (Suc nb)
  from Suc.prems obtain w0 w1 w2 w3 r where ws: "ws = w0 # w1 # w2 # w3 # r" and r: "length r = 4 * nb"
    by (cases ws; simp; (rename_tac a as, case_tac as; simp)?; (rename_tac b bs, case_tac bs; simp)?;
        (rename_tac c cs, case_tac cs; simp)?)
  have "map (block_at ws) [0..<Suc nb] = (w0, w1, w2, w3) # map (block_at r) [0..<nb]"
    by (simp add: ws map_upt_Suc' block_at_0 block_at_Cons4 del: upt_Suc)
  then show ?case using Suc.IH [OF r] by (simp add: ws)
qed

lemma CBC_decrypt_encrypt:
  assumes "\<And>x. dec (enc x) = x"
  shows "CBC_decrypt dec prev (CBC_encrypt enc prev bl) = bl"
  by (induction bl arbitrary: prev) (simp_all add: Let_def assms)

subsection \<open>Base64\<close>

lemma b64_map_eq:
  "b64_map =
     [0x41, 0x42, 0x43, 0x44, 0x45, 0x46, 0x47, 0x48, 0x49, 0x4A, 0x4B, 0x4C, 0x4D, 0x4E,
      0x4F, 0x50, 0x51, 0x52, 0x53, 0x54, 0x55, 0x56, 0x57, 0x58, 0x59, 0x5A, 0x61, 0x62,
      0x63, 0x64, 0x65, 0x66, 0x67, 0x68, 0x69, 0x6A, 0x6B, 0x6C, 0x6D, 0x6E, 0x6F, 0x70,
      0x71, 0x72, 0x73, 0x74, 0x75, 0x76, 0x77, 0x78, 0x79, 0x7A, 0x30, 0x31, 0x32, 0x33,
      0x34, 0x35, 0x36, 0x37, 0x38, 0x39, 0x2B, 0x2F, 0x3D]"
  by (simp add: b64_map_def js_of_def)

lemma b64_rev_char: "b64_rev (b64_char (x AND 63)) = x AND 63"
proof (rule all_byte [where P = "\<lambda>x. b64_rev (b64_char (x AND 63)) = x AND 63"])
  show "list_all (\<lambda>x. b64_rev (b64_char (x AND 63)) = x AND 63) all_bytes"
    unfolding b64_rev_def b64_char_def b64_map_eq by code_simp
qed

lemma b64_char_not_pad: "b64_char (x AND 63) \<noteq> 0x3D"
proof (rule all_byte [where P = "\<lambda>x. b64_char (x AND 63) \<noteq> 0x3D"])
  show "list_all (\<lambda>x. b64_char (x AND 63) \<noteq> 0x3D) all_bytes"
    unfolding b64_char_def b64_map_eq by code_simp
qed

lemma masks: "(63 :: byte) = mask 6" "(15 :: byte) = mask 4" "(3 :: byte) = mask 2"
  by (simp_all add: mask_eq_exp_minus_1)

lemma diff_helpers:
  "2 \<le> n \<Longrightarrow> Suc (Suc (n - 2)) = n"
  "4 \<le> n \<Longrightarrow> 4 + (n - 4) = n"
  "6 \<le> n \<Longrightarrow> 6 + (n - 6) = n"
  by simp_all

lemma sextet_and:
  "sextet0 a AND 63 = sextet0 a"
  "sextet1 a b AND 63 = sextet1 a b"
  "sextet2 b c AND 63 = sextet2 b c"
  "sextet3 c AND 63 = sextet3 c"
  unfolding sextet0_def sextet1_def sextet2_def sextet3_def masks
  by (rule bit_word_eqI; auto simp add: bit_simps not_less not_le diff_helpers dest: bit_imp_le_length)+

lemma sextet_rev:
  "b64_rev (b64_char (sextet0 a)) = sextet0 a"
  "b64_rev (b64_char (sextet1 a b)) = sextet1 a b"
  "b64_rev (b64_char (sextet2 b c)) = sextet2 b c"
  "b64_rev (b64_char (sextet3 c)) = sextet3 c"
  using b64_rev_char [of "sextet0 a"] b64_rev_char [of "sextet1 a b"]
    b64_rev_char [of "sextet2 b c"] b64_rev_char [of "sextet3 c"]
  by (simp_all only: sextet_and)

lemma sextet_not_pad:
  "b64_char (sextet0 a) \<noteq> 0x3D"
  "b64_char (sextet1 a b) \<noteq> 0x3D"
  "b64_char (sextet2 b c) \<noteq> 0x3D"
  "b64_char (sextet3 c) \<noteq> 0x3D"
  using b64_char_not_pad [of "sextet0 a"] b64_char_not_pad [of "sextet1 a b"]
    b64_char_not_pad [of "sextet2 b c"] b64_char_not_pad [of "sextet3 c"]
  by (simp_all only: sextet_and simp_thms)

lemma sextet_join1: "push_bit 2 (sextet0 a) OR drop_bit 4 (sextet1 a b) = a"
  unfolding sextet0_def sextet1_def masks
  apply (rule bit_word_eqI)
  apply (auto simp add: bit_simps not_less not_le diff_helpers dest: bit_imp_le_length)
  subgoal for n by (cases "2 \<le> n") (auto simp: diff_helpers)
  subgoal for n by (cases "2 \<le> n") (auto simp: diff_helpers)
  done

lemma sextet_join2: "push_bit 4 (sextet1 a b) OR drop_bit 2 (sextet2 b c) = b"
  unfolding sextet1_def sextet2_def masks
  apply (rule bit_word_eqI)
  apply (auto simp add: bit_simps not_less not_le diff_helpers dest: bit_imp_le_length)
  subgoal for n by (cases "4 \<le> n") (auto simp: diff_helpers)
  subgoal for n by (cases "4 \<le> n") (auto simp: diff_helpers)
  done

lemma sextet_join3: "push_bit 6 (sextet2 b c) OR sextet3 c = c"
  unfolding sextet2_def sextet3_def masks
  by (rule bit_word_eqI) (auto simp add: bit_simps not_less not_le diff_helpers dest: bit_imp_le_length)

lemma b64_join_chars:
  "b64_join (Suc 0) (b64_char (sextet0 a)) (b64_char (sextet1 a b)) = a"
  "b64_join 2 (b64_char (sextet1 a b)) (b64_char (sextet2 b c)) = b"
  "b64_join 3 (b64_char (sextet2 b c)) (b64_char (sextet3 c)) = c"
  by (simp_all add: b64_join_def sextet_rev sextet_join1 sextet_join2 sextet_join3)

lemma b64_decode_encode: "b64_decode (takeWhile (\<lambda>c. c \<noteq> 0x3D) (b64_encode bs)) = bs"
  by (induction bs rule: b64_encode.induct) (simp_all add: sextet_not_pad b64_join_chars)

lemma Latin1_parse_stringify:
  "sigBytes wa = 4 * int (length (words wa)) \<Longrightarrow> Latin1_parse (Latin1_stringify wa) = wa"
  by (simp add: Latin1_parse_def Latin1_stringify_def nat_mult_distrib pack_unpack)

lemma Base64_parse_stringify:
  "sigBytes wa = 4 * int (length (words wa)) \<Longrightarrow> Base64_parse (Base64_stringify wa) = wa"
  by (simp add: Base64_parse_def Base64_stringify_def b64_decode_encode Latin1_parse_stringify)

subsection \<open>Encryption followed by decryption\<close>

text \<open>The ciphertext of a byte string under a key and an IV, as the library computes it.\<close>

definition cipher_blocks :: "byte list \<Rightarrow> WordArray \<Rightarrow> word32 list \<Rightarrow> block list" where
  "cipher_blocks bs key ivWords =
     CBC_encrypt (encryptBlock (AES_doReset key)) (iv_block ivWords)
       (map (block_at (pack_bytes (padded bs))) [0..<length bs div 16 + 1])"

lemma length_cipher_blocks [simp]: "length (cipher_blocks bs key ivWords) = length bs div 16 + 1"
  by (simp add: cipher_blocks_def)

lemma blocks_of_parse_padded:
  "blocks_of (Latin1_parse (padded bs)) =
   map (block_at (pack_bytes (padded bs))) [0..<length bs div 16 + 1]"
proof -
  have "sigBytes (Latin1_parse (padded bs)) = 16 * int (length bs div 16 + 1)"
    by (simp add: Latin1_parse_def length_padded)
  then show ?thesis
    unfolding blocks_of_def by (simp only: nBlocksReady_16) (simp add: Latin1_parse_def)
qed

lemma AES_encrypt_bytes:
  assumes "utf8_encode message = Some bs"
  shows "AES_encrypt message key iv =
         Inr \<lparr>words = words_of_blocks (cipher_blocks bs key (words iv)),
              sigBytes = 16 * int (length bs div 16 + 1)\<rparr>"
proof -
  have s: "sigBytes (Latin1_parse (padded bs)) = 16 * int (length bs div 16 + 1)"
    by (simp add: Latin1_parse_def length_padded)
  have "process (CBC_encrypt (encryptBlock (AES_doReset key)) (iv_block (words iv)))
          (Latin1_parse (padded bs)) =
        \<lparr>words = words_of_blocks (cipher_blocks bs key (words iv)),
         sigBytes = 16 * int (length bs div 16 + 1)\<rparr>"
    unfolding process_def blocks_of_parse_padded cipher_blocks_def s
    by (simp only: nBlocksReady_16) simp
  then show ?thesis
    using assms by (simp add: AES_encrypt_def Utf8_parse_def Let_def Pkcs7_pad_parse)
qed

lemma last_padded:
  "padded bs ! (16 * (length bs div 16 + 1) - 1) = of_nat (pad_len (length bs))"
proof -
  have l: "length (padded bs) = length bs + pad_len (length bs)"
    by (simp add: padded_def)
  have "16 * (length bs div 16 + 1) - 1 = length bs + (pad_len (length bs) - 1)"
    using length_padded [of bs] pad_len_bounds(1) [of "length bs"] l by linarith
  then have "padded bs ! (16 * (length bs div 16 + 1) - 1) =
             (bs @ replicate (pad_len (length bs)) (of_nat (pad_len (length bs)))) !
               (length bs + (pad_len (length bs) - 1))"
    by (simp only: padded_def)
  also have "\<dots> = replicate (pad_len (length bs)) (of_nat (pad_len (length bs))) ! (pad_len (length bs) - 1)"
    by (rule nth_append_length_plus)
  also have "\<dots> = of_nat (pad_len (length bs))"
    using pad_len_bounds(1) [of "length bs"] by simp
  finally show ?thesis .
qed

lemma byte3_word_at: "byte3 (word_at ws k) = byte_at ws (4 * k + 3)"
  by (simp add: byte_at_def byte3_def)

lemma Pkcs7_unpad_padded:
  "Pkcs7_unpad (Latin1_parse (padded bs)) =
   \<lparr>words = pack_bytes (padded bs), sigBytes = int (length bs)\<rparr>"
proof -
  define nb where "nb = length bs div 16 + 1"
  have l: "length (padded bs) = 16 * nb" by (simp add: length_padded nb_def)
  have nb: "1 \<le> nb" by (simp add: nb_def)
  have idx: "nat ((int (16 * nb) - 1) div 4) = 4 * nb - 1" using nb by linarith
  have idx2: "4 * (4 * nb - 1) + 3 = 16 * nb - 1" using nb by linarith
  have lt: "16 * nb - 1 < length (padded bs)" using nb l by linarith
  have "byte3 (word_at (pack_bytes (padded bs)) (4 * nb - 1)) = of_nat (pad_len (length bs))"
    unfolding byte3_word_at idx2 
    using byte_at_pack [OF lt] last_padded [of bs] by (simp add: nb_def)
  moreover have "uint (of_nat (pad_len (length bs)) :: byte) = int (pad_len (length bs))"
    using pad_len_bounds(2) [of "length bs"] by (simp add: uint_nat unsigned_of_nat take_bit_nat_eq_self)
  moreover have "int (16 * nb) - int (pad_len (length bs)) = int (length bs)"
    using l by (simp add: padded_def)
  ultimately show ?thesis
    unfolding Pkcs7_unpad_def Let_def
    using nb by (simp add: Latin1_parse_def l idx del: of_nat_mult)
qed

lemma AES_decrypt_cipher:
  assumes key: "sigBytes key = 4 * int n"
  shows "Latin1_stringify
           (AES_decrypt \<lparr>words = words_of_blocks (cipher_blocks bs key ivWords),
                         sigBytes = 16 * int (length bs div 16 + 1)\<rparr> key
              (WordArray_create ivWords 16)) = bs"
proof -
  define nb where "nb = length bs div 16 + 1"
  let ?ct = "\<lparr>words = words_of_blocks (cipher_blocks bs key ivWords), sigBytes = 16 * int nb\<rparr>"
  have al: "sigBytes ?ct = 4 * int (length (words ?ct))" by (simp add: nb_def)
  have sg: "sigBytes ?ct = 16 * int nb" by simp
  have lc: "length (cipher_blocks bs key ivWords) = nb" by (simp add: nb_def)
  have bl: "blocks_of ?ct = cipher_blocks bs key ivWords"
    unfolding blocks_of_def using blocks_words_of_blocks [of "cipher_blocks bs key ivWords"]
    by (simp only: lc WordArray.simps nBlocksReady_16)
  have dec: "CBC_decrypt (decryptBlock (AES_doReset key)) (iv_block ivWords) (cipher_blocks bs key ivWords) =
             map (block_at (pack_bytes (padded bs))) [0..<nb]"
    unfolding cipher_blocks_def nb_def
    by (rule CBC_decrypt_encrypt) (rule decryptBlock_encryptBlock [OF key])
  have lp: "length (pack_bytes (padded bs)) = 4 * nb"
    by (simp add: length_pack_bytes length_padded nb_def)
  have "process (CBC_decrypt (decryptBlock (AES_doReset key)) (iv_block ivWords)) ?ct =
        Latin1_parse (padded bs)"
    unfolding process_def bl dec sg nBlocksReady_16 words_of_blocks_blocks [OF lp]
    by (simp add: Latin1_parse_def length_padded nb_def)
  then have "AES_decrypt ?ct key (WordArray_create ivWords 16) =
             \<lparr>words = pack_bytes (padded bs), sigBytes = int (length bs)\<rparr>"
    unfolding AES_decrypt_def Let_def concat_empty_aligned [OF al]
    by (simp add: WordArray_create_def Pkcs7_unpad_padded)
  then show ?thesis
    unfolding nb_def [symmetric]
    by (simp add: Latin1_stringify_def bytes_of_pack padded_def)
qed

subsection \<open>UTF-8\<close>

lemma div_mod_parts:
  fixes q r m :: int
  assumes "0 \<le> r" "r < m"
  shows "(q * m + r) div m = q" "(q * m + r) mod m = r"
  using assms by simp_all

lemma six_bits: "utf8_cont (128 + x mod 64)"
  unfolding utf8_cont_def
  using pos_mod_bound [of 64 x] pos_mod_sign [of 64 x] by simp

lemma div_lower:
  fixes c :: int
  assumes "a * m \<le> c" "0 < m"
  shows "a \<le> c div m"
proof -
  have "(a * m) div m \<le> c div m" using assms by (rule zdiv_mono1)
  then show ?thesis using assms by simp
qed

lemma div_upper:
  fixes c :: int
  assumes "c < b * m" "0 < m"
  shows "c div m < b"
proof (rule ccontr)
  assume "\<not> c div m < b"
  then have "b \<le> c div m" by simp
  then have "b * m \<le> (c div m) * m" using assms(2) by (simp add: mult_right_mono)
  also have "\<dots> \<le> c"
    using pos_mod_sign [OF assms(2), of c] div_mult_mod_eq [of c m] by linarith
  finally show False using assms(1) by simp
qed

lemma utf8_two:
  fixes c :: int
  assumes "128 \<le> c" "c < 2048"
  shows "192 \<le> 192 + c div 64" "192 + c div 64 < 224" 
    "(192 + c div 64 - 192) * 64 + (128 + c mod 64 - 128) = c"
  using div_lower [of 0 64 c] div_upper [of c 32 64] assms by simp_all

lemma radix64_3:
  fixes x :: int
  assumes "q1 * 64 + r1 = x" "q2 * 64 + r2 = q1"
  shows "q2 * 4096 + r2 * 64 + r1 = x"
  using assms by (simp add: algebra_simps)

lemma radix64_4:
  fixes x :: int
  assumes "q1 * 64 + r1 = x" "q2 * 64 + r2 = q1" "q3 * 64 + r3 = q2"
  shows "q3 * 262144 + r3 * 4096 + r2 * 64 + r1 = x"
  using assms by (simp add: algebra_simps)

lemma utf8_three:
  fixes c :: int
  assumes "2048 \<le> c" "c < 65536"
  shows "224 \<le> 224 + c div 4096" "224 + c div 4096 < 240"
    "(224 + c div 4096 - 224) * 4096 + (128 + c div 64 mod 64 - 128) * 64 + (128 + c mod 64 - 128) = c"
proof -
  show "224 \<le> 224 + c div 4096" "224 + c div 4096 < 240"
    using div_lower [of 0 4096 c] div_upper [of c 16 4096] assms by simp_all
  have a: "c div 4096 = c div 64 div 64" by (simp add: zdiv_zmult2_eq)
  have "c div 64 div 64 * 4096 + c div 64 mod 64 * 64 + c mod 64 = c"
    by (rule radix64_3) (rule div_mult_mod_eq)+
  then show "(224 + c div 4096 - 224) * 4096 + (128 + c div 64 mod 64 - 128) * 64 + (128 + c mod 64 - 128) = c"
    unfolding a by simp
qed

lemma utf8_four:
  fixes v :: int
  assumes "65536 \<le> v" "v < 1114112"
  shows "240 \<le> 240 + v div 262144" "240 + v div 262144 < 248"
    "(240 + v div 262144 - 240) * 262144 + (128 + v div 4096 mod 64 - 128) * 4096 +
       (128 + v div 64 mod 64 - 128) * 64 + (128 + v mod 64 - 128) = v"
proof -
  show "240 \<le> 240 + v div 262144" "240 + v div 262144 < 248"
    using div_lower [of 0 262144 v] div_upper [of v 8 262144] assms by simp_all
  have a: "v div 4096 = v div 64 div 64" by (simp add: zdiv_zmult2_eq)
  have b: "v div 262144 = v div 64 div 64 div 64" by (simp add: zdiv_zmult2_eq)
  have "v div 64 div 64 div 64 * 262144 + v div 64 div 64 mod 64 * 4096 + v div 64 mod 64 * 64 + v mod 64 = v"
    by (rule radix64_4) (rule div_mult_mod_eq)+
  then show "(240 + v div 262144 - 240) * 262144 + (128 + v div 4096 mod 64 - 128) * 4096 +
       (128 + v div 64 mod 64 - 128) * 64 + (128 + v mod 64 - 128) = v"
    unfolding a b by simp
qed

lemma utf8_pair:
  fixes c k :: int
  assumes "55296 \<le> c" "c < 56320" "56320 \<le> k" "k < 57344"
  defines "v \<equiv> (c - 55296) * 1024 + (k - 56320) + 65536"
  shows "65536 \<le> v" "v < 1114112" "55296 + (v - 65536) div 1024 = c" "56320 + (v - 65536) mod 1024 = k"
proof -
  have k: "0 \<le> k - 56320" "k - 56320 < 1024" using assms by simp_all
  show "65536 \<le> v" "v < 1114112" using assms by simp_all
  have "v - 65536 = (c - 55296) * 1024 + (k - 56320)" by (simp add: v_def)
  then show "55296 + (v - 65536) div 1024 = c" "56320 + (v - 65536) mod 1024 = k"
    using k by (simp_all only: div_mod_parts)
qed

lemma enc_one: "c < 128 \<Longrightarrow> utf8_enc (c # cs) = map_option ((#) c) (utf8_enc cs)"
  by simp

lemma enc_two:
  "128 \<le> c \<Longrightarrow> c < 2048 \<Longrightarrow>
   utf8_enc (c # cs) = map_option (\<lambda>r. (192 + c div 64) # (128 + c mod 64) # r) (utf8_enc cs)"
  by simp

lemma enc_three:
  "2048 \<le> c \<Longrightarrow> c < 55296 \<or> 57344 \<le> c \<Longrightarrow>
   utf8_enc (c # cs) =
   map_option (\<lambda>r. (224 + c div 4096) # (128 + c div 64 mod 64) # (128 + c mod 64) # r) (utf8_enc cs)"
  by simp

lemma enc_low: "56320 \<le> c \<Longrightarrow> c < 57344 \<Longrightarrow> utf8_enc (c # cs) = None"
  by simp

lemma enc_high_end: "55296 \<le> c \<Longrightarrow> c < 56320 \<Longrightarrow> utf8_enc [c] = None"
  by simp

lemma enc_high_bad:
  "55296 \<le> c \<Longrightarrow> c < 56320 \<Longrightarrow> k < 56320 \<or> 57344 \<le> k \<Longrightarrow>
   utf8_enc (c # k # cs) = None"
  by simp

lemma enc_high:
  "55296 \<le> c \<Longrightarrow> c < 56320 \<Longrightarrow> 56320 \<le> k \<Longrightarrow> k < 57344 \<Longrightarrow>
   v = (c - 55296) * 1024 + (k - 56320) + 65536 \<Longrightarrow>
   utf8_enc (c # k # cs) =
   map_option (\<lambda>r. (240 + v div 262144) # (128 + v div 4096 mod 64) #
                     (128 + v div 64 mod 64) # (128 + v mod 64) # r) (utf8_enc cs)"
  by (simp add: Let_def)

lemma dec_one: "b < 128 \<Longrightarrow> utf8_dec (b # bs) = map_option ((#) b) (utf8_dec bs)"
  by simp

lemma dec_two:
  "192 \<le> b \<Longrightarrow> b < 224 \<Longrightarrow> utf8_cont b1 \<Longrightarrow> v = (b - 192) * 64 + (b1 - 128) \<Longrightarrow>
   128 \<le> v \<Longrightarrow> utf8_dec (b # b1 # r) = map_option ((#) v) (utf8_dec r)"
  by (simp add: Let_def)

lemma dec_three:
  "224 \<le> b \<Longrightarrow> b < 240 \<Longrightarrow> utf8_cont b1 \<Longrightarrow> utf8_cont b2 \<Longrightarrow>
   v = (b - 224) * 4096 + (b1 - 128) * 64 + (b2 - 128) \<Longrightarrow>
   2048 \<le> v \<Longrightarrow> v < 55296 \<or> 57344 \<le> v \<Longrightarrow>
   utf8_dec (b # b1 # b2 # r) = map_option ((#) v) (utf8_dec r)"
  by (simp add: Let_def)

lemma dec_four:
  "240 \<le> b \<Longrightarrow> b < 248 \<Longrightarrow> utf8_cont b1 \<Longrightarrow> utf8_cont b2 \<Longrightarrow> utf8_cont b3 \<Longrightarrow>
   v = (b - 240) * 262144 + (b1 - 128) * 4096 + (b2 - 128) * 64 + (b3 - 128) \<Longrightarrow>
   65536 \<le> v \<Longrightarrow> v \<le> 1114111 \<Longrightarrow>
   utf8_dec (b # b1 # b2 # b3 # r) =
   map_option (\<lambda>r'. (55296 + (v - 65536) div 1024) # (56320 + (v - 65536) mod 1024) # r') (utf8_dec r)"
  by (simp add: Let_def)


lemma utf8_dec_enc:
  "utf8_enc cs = Some bs \<Longrightarrow> list_all (\<lambda>c. c < 65536) cs \<Longrightarrow> utf8_dec bs = Some cs"
proof (induction cs arbitrary: bs rule: utf8_enc.induct)
  case 1
  then show ?case by simp
next
  case (2 c cs)
  have c: "c < 65536" and cs: "list_all (\<lambda>c. c < 65536) cs" using "2.prems"(2) by simp_all
  consider (one) "c < 128" | (two) "128 \<le> c" "c < 2048"
    | (three) "2048 \<le> c" "c < 55296 \<or> 57344 \<le> c"
    | (low) "56320 \<le> c" "c < 57344" | (high) "55296 \<le> c" "c < 56320"
    by linarith
  then show ?case
  proof cases
    case one
    then obtain r where r: "utf8_enc cs = Some r" "bs = c # r"
      using "2.prems"(1) by (auto simp only: enc_one)
    have "utf8_dec r = Some cs" using "2.IH"(1) one r(1) cs by simp
    then show ?thesis unfolding r(2) by (simp only: dec_one [OF one]) simp
  next
    case two
    then obtain r where r: "utf8_enc cs = Some r" "bs = (192 + c div 64) # (128 + c mod 64) # r"
      using "2.prems"(1) by (auto simp only: enc_two)
    have "utf8_dec r = Some cs" using "2.IH"(2) two r(1) cs by simp
    moreover have "utf8_dec bs = map_option ((#) c) (utf8_dec r)"
      unfolding r(2) 
      by (rule dec_two [OF utf8_two(1,2) [OF two] six_bits]) (simp_all add: utf8_two(3) [OF two] two)
    ultimately show ?thesis by simp
  next
    case three
    then obtain r where r: "utf8_enc cs = Some r"
      "bs = (224 + c div 4096) # (128 + c div 64 mod 64) # (128 + c mod 64) # r"
      using "2.prems"(1) by (auto simp only: enc_three)
    have "utf8_dec r = Some cs" using "2.IH"(3) three r(1) cs by simp
    moreover have "utf8_dec bs = map_option ((#) c) (utf8_dec r)"
      unfolding r(2) 
      by (rule dec_three [OF utf8_three(1,2) [OF three(1) c] six_bits six_bits])
         (simp_all only: utf8_three(3) [OF three(1) c] three)
    ultimately show ?thesis by simp
  next
    case low
    then show ?thesis using "2.prems"(1) by (simp add: enc_low)
  next
    case high
    show ?thesis
    proof (cases cs)
      case Nil
      then show ?thesis using "2.prems"(1) high by (simp add: enc_high_end)
    next
      case (Cons k cs')
      show ?thesis
      proof (cases "56320 \<le> k \<and> k < 57344")
        case False
        then have "k < 56320 \<or> 57344 \<le> k" by linarith
        then show ?thesis using "2.prems"(1) high unfolding Cons by (simp add: enc_high_bad)
      next
        case True
        then have k: "56320 \<le> k" "k < 57344" by simp_all
        define v where "v = (c - 55296) * 1024 + (k - 56320) + 65536"
        note p = utf8_pair [OF high k, folded v_def]
        have v': "v \<le> 1114111" using p(2) by simp
        obtain r where r: "utf8_enc cs' = Some r"
          "bs = (240 + v div 262144) # (128 + v div 4096 mod 64) #
                 (128 + v div 64 mod 64) # (128 + v mod 64) # r"
          using "2.prems"(1) unfolding Cons by (auto simp only: enc_high [OF high k v_def])
        have "list_all (\<lambda>c. c < 65536) cs'" using cs Cons by simp
        then have "utf8_dec r = Some cs'" using "2.IH"(4) high r(1) Cons k by simp
        moreover have "utf8_dec bs = map_option (\<lambda>r'. c # k # r') (utf8_dec r)"
          unfolding r(2) 
          by (simp only: dec_four [OF utf8_four(1,2) [OF p(1,2)] six_bits six_bits six_bits
                utf8_four(3) [OF p(1,2), symmetric] p(1) v'] p(3,4))
        ultimately show ?thesis unfolding Cons by simp
      qed
    qed
  qed
qed


definition byte_range :: "int \<Rightarrow> bool" where
  "byte_range b = (0 \<le> b \<and> b < 256)"

lemma six_bits_range: "byte_range (128 + x mod 64)"
  using six_bits [of x] by (simp add: byte_range_def utf8_cont_def)

lemma utf8_enc_bytes:
  "utf8_enc cs = Some bs \<Longrightarrow> list_all (\<lambda>c. 0 \<le> c \<and> c < 65536) cs \<Longrightarrow> list_all byte_range bs"
proof (induction cs arbitrary: bs rule: utf8_enc.induct)
  case 1
  then show ?case by simp
next
  case (2 c cs)
  have c: "0 \<le> c" "c < 65536" and cs: "list_all (\<lambda>c. 0 \<le> c \<and> c < 65536) cs"
    using "2.prems"(2) by simp_all
  consider (one) "c < 128" | (two) "128 \<le> c" "c < 2048"
    | (three) "2048 \<le> c" "c < 55296 \<or> 57344 \<le> c"
    | (low) "56320 \<le> c" "c < 57344" | (high) "55296 \<le> c" "c < 56320"
    by linarith
  then show ?case
  proof cases
    case one
    then obtain r where r: "utf8_enc cs = Some r" "bs = c # r"
      using "2.prems"(1) by (auto simp only: enc_one)
    have "list_all byte_range r" using "2.IH"(1) one r(1) cs by simp
    moreover have "byte_range c" using one c by (simp add: byte_range_def)
    ultimately show ?thesis unfolding r(2) by simp
  next
    case two
    then obtain r where r: "utf8_enc cs = Some r" "bs = (192 + c div 64) # (128 + c mod 64) # r"
      using "2.prems"(1) by (auto simp only: enc_two)
    have "list_all byte_range r" using "2.IH"(2) two r(1) cs by simp
    moreover have "byte_range (192 + c div 64)"
      using utf8_two(1,2) [OF two] by (simp add: byte_range_def)
    ultimately show ?thesis unfolding r(2) by (simp add: six_bits_range)
  next
    case three
    then obtain r where r: "utf8_enc cs = Some r"
      "bs = (224 + c div 4096) # (128 + c div 64 mod 64) # (128 + c mod 64) # r"
      using "2.prems"(1) by (auto simp only: enc_three)
    have "list_all byte_range r" using "2.IH"(3) three r(1) cs by simp
    moreover have "byte_range (224 + c div 4096)"
      using utf8_three(1,2) [OF three(1) c(2)] by (simp add: byte_range_def)
    ultimately show ?thesis unfolding r(2) by (simp add: six_bits_range)
  next
    case low
    then show ?thesis using "2.prems"(1) by (simp add: enc_low)
  next
    case high
    show ?thesis
    proof (cases cs)
      case Nil
      then show ?thesis using "2.prems"(1) high by (simp add: enc_high_end)
    next
      case (Cons k cs')
      show ?thesis
      proof (cases "56320 \<le> k \<and> k < 57344")
        case False
        then have "k < 56320 \<or> 57344 \<le> k" by linarith
        then show ?thesis using "2.prems"(1) high unfolding Cons by (simp add: enc_high_bad)
      next
        case True
        then have k: "56320 \<le> k" "k < 57344" by simp_all
        define v where "v = (c - 55296) * 1024 + (k - 56320) + 65536"
        note p = utf8_pair [OF high k, folded v_def]
        obtain r where r: "utf8_enc cs' = Some r"
          "bs = (240 + v div 262144) # (128 + v div 4096 mod 64) #
                 (128 + v div 64 mod 64) # (128 + v mod 64) # r"
          using "2.prems"(1) unfolding Cons by (auto simp only: enc_high [OF high k v_def])
        have "list_all (\<lambda>c. 0 \<le> c \<and> c < 65536) cs'" using cs Cons by simp
        then have "list_all byte_range r" using "2.IH"(4) high r(1) Cons k by simp
        moreover have "byte_range (240 + v div 262144)"
          using utf8_four(1,2) [OF p(1,2)] by (simp add: byte_range_def)
        ultimately show ?thesis unfolding r(2) by (simp add: six_bits_range)
      qed
    qed
  qed
qed

lemma uint_unit: "list_all (\<lambda>c. 0 \<le> c \<and> c < 65536) (map uint (s :: jsstring))"
proof -
  have "0 \<le> uint c \<and> uint c < 65536" for c :: "16 word"
    using uint_lt2p [of c] by simp
  then show ?thesis by (simp add: list_all_iff)
qed

lemma uint_unit': "list_all (\<lambda>c. c < 65536) (map uint (s :: jsstring))"
  using uint_unit [of s] by (simp add: list_all_iff)

lemma map_uint_bytes: "list_all byte_range bs \<Longrightarrow> map uint (map word_of_int bs :: byte list) = bs"
proof (induction bs)
  case Nil
  then show ?case by simp
next
  case (Cons b bs)
  have "uint (word_of_int b :: byte) = b"
    using Cons.prems by (simp add: byte_range_def uint_word_of_int take_bit_int_eq_self)
  then show ?case using Cons by simp
qed

lemma utf8_decode_encode: "utf8_encode s = Some bs \<Longrightarrow> utf8_decode bs = Some s"
proof -
  assume "utf8_encode s = Some bs"
  then obtain ibs where i: "utf8_enc (map uint s) = Some ibs" "bs = map word_of_int ibs"
    by (auto simp: utf8_encode_def)
  have "map uint bs = ibs"
    unfolding i(2) by (rule map_uint_bytes) (rule utf8_enc_bytes [OF i(1) uint_unit])
  moreover have "utf8_dec ibs = Some (map uint s)"
    by (rule utf8_dec_enc [OF i(1) uint_unit'])
  ultimately show ?thesis by (simp add: utf8_decode_def comp_def)
qed

subsection \<open>The blob\<close>

definition iv_words :: "block \<Rightarrow> word32 list" where
  "iv_words rnd = (case rnd of (w0, w1, w2, w3) \<Rightarrow> [w0, w1, w2, w3])"

definition combined_of :: "byte list \<Rightarrow> WordArray \<Rightarrow> block \<Rightarrow> WordArray" where
  "combined_of bs key rnd =
     \<lparr>words = iv_words rnd @ words_of_blocks (cipher_blocks bs key (iv_words rnd)),
      sigBytes = 16 + 16 * int (length bs div 16 + 1)\<rparr>"

lemma length_iv_words [simp]: "length (iv_words rnd) = 4"
  by (cases rnd) (simp add: iv_words_def)

lemma random16_iv_words: "WordArray_random16 rnd = \<lparr>words = iv_words rnd, sigBytes = 16\<rparr>"
  by (cases rnd) (simp add: WordArray_random16_def iv_words_def)

lemma concat_iv:
  assumes "length ws = 4 * nb" and that: "length iv = 4"
  shows "concat_wa \<lparr>words = iv, sigBytes = 16\<rparr> \<lparr>words = ws, sigBytes = 16 * int nb\<rparr> =
         \<lparr>words = iv @ ws, sigBytes = 16 + 16 * int nb\<rparr>"
proof -
  have "clamp \<lparr>words = iv, sigBytes = 16\<rparr> = \<lparr>words = iv, sigBytes = 16\<rparr>"
    by (rule clamp_aligned) (simp add: that)
  moreover have "nat ((16 * int nb + 3) div 4) = length ws" using assms by simp
  ultimately show ?thesis
    by (simp add: concat_wa_def map_word_at)
qed

lemma encrypt_payload_blob:
  assumes "utf8_encode payload = Some bs" "utf8_encode keyStr = Some kb"
  shows "encrypt_payload payload keyStr rnd = Inr (Base64_stringify (combined_of bs (Latin1_parse kb) rnd))"
proof -
  have "concat_wa \<lparr>words = iv_words rnd, sigBytes = 16\<rparr>
          \<lparr>words = words_of_blocks (cipher_blocks bs (Latin1_parse kb) (iv_words rnd)),
           sigBytes = 16 * int (length bs div 16 + 1)\<rparr> =
        combined_of bs (Latin1_parse kb) rnd"
    unfolding combined_of_def by (rule concat_iv) simp_all
  then show ?thesis
    unfolding encrypt_payload_def Let_def random16_iv_words
    by (simp add: Utf8_parse_def assms(2) AES_encrypt_bytes [OF assms(1)])
qed

lemma Base64_parse_combined:
  "Base64_parse (Base64_stringify (combined_of bs key rnd)) = combined_of bs key rnd"
  by (rule Base64_parse_stringify) (simp add: combined_of_def)

lemma decrypt_json_text_blob:
  assumes "utf8_encode payload = Some bs" "utf8_encode keyStr = Some kb" "length kb = 4 * n"
  shows "decrypt_json_text (Base64_stringify (combined_of bs (Latin1_parse kb) rnd)) keyStr = Inr payload"
proof -
  have key: "sigBytes (Latin1_parse kb) = 4 * int n"
    using assms(3) by (simp add: Latin1_parse_def)
  have "Latin1_stringify
          (AES_decrypt \<lparr>words = words_of_blocks (cipher_blocks bs (Latin1_parse kb) (iv_words rnd)),
                        sigBytes = 16 * int (length bs div 16 + 1)\<rparr> (Latin1_parse kb)
             (WordArray_create (iv_words rnd) 16)) = bs"
    by (rule AES_decrypt_cipher [OF key])
  then show ?thesis
    unfolding decrypt_json_text_def Let_def Base64_parse_combined
    by (simp add: combined_of_def Utf8_parse_def assms(2) Utf8_stringify_def WordArray_create_def
          utf8_decode_encode [OF assms(1)])
qed

section \<open>Proofs: the payload\<close>

subsection \<open>Quoting and reading a string\<close>

lemma lex_plain:
  "c \<noteq> 0x22 \<Longrightarrow> c \<noteq> 0x5C \<Longrightarrow> \<not> c < 0x20 \<Longrightarrow> lex_string (c # s) = cons_char c (lex_string s)"
  by simp

lemma lex_escape:
  "unescape_char e = Some ch \<Longrightarrow> e \<noteq> 0x75 \<Longrightarrow> lex_string (0x5C # e # s) = cons_char ch (lex_string s)"
  by simp

lemma int_below:
  fixes n :: int
  assumes "0 \<le> n" "n < k" "list_all P [0..k - 1]"
  shows "P n"
  using assms by (auto simp: list_all_iff)

lemma hex_value_digit: "0 \<le> n \<Longrightarrow> n < 16 \<Longrightarrow> hex_value (hex_digit n) = Some n"
  by (erule (1) int_below) code_simp

lemma nibble: "0 \<le> x mod 16" "x mod 16 < (16::int)"
  by simp_all

lemma radix16_4:
  fixes x :: int
  assumes "q1 * 16 + r1 = x" "q2 * 16 + r2 = q1" "q3 * 16 + r3 = q2"
  shows "((q3 * 16 + r3) * 16 + r2) * 16 + r1 = x"
  using assms by simp

lemma hex_recompose:
  "word_of_int (((uint c div 4096 * 16 + uint c div 256 mod 16) * 16 + uint c div 16 mod 16) * 16 +
      uint c mod 16) = (c :: 16 word)"
proof -
  have a: "uint c div 256 = uint c div 16 div 16" by (simp add: zdiv_zmult2_eq)
  have b: "uint c div 4096 = uint c div 16 div 16 div 16" by (simp add: zdiv_zmult2_eq)
  have "((uint c div 16 div 16 div 16 * 16 + uint c div 16 div 16 mod 16) * 16 + uint c div 16 mod 16) * 16 +
      uint c mod 16 = uint c"
    by (rule radix16_4) (rule div_mult_mod_eq)+
  then show ?thesis unfolding a b by simp
qed

lemma top_nibble: "0 \<le> uint (c :: 16 word) div 4096" "uint (c :: 16 word) div 4096 < 16"
proof -
  show "0 \<le> uint c div 4096" by (rule div_lower) simp_all
  have "uint c < 16 * 4096" using uint_lt2p [of c] by simp
  then show "uint c div 4096 < 16" by (rule div_upper) simp
qed

lemma lex_unicode_hex:
  "hex_value h1 = Some a \<Longrightarrow> hex_value h2 = Some b \<Longrightarrow> hex_value h3 = Some c' \<Longrightarrow>
   hex_value h4 = Some d \<Longrightarrow>
   lex_string (0x5C # 0x75 # h1 # h2 # h3 # h4 # s) =
   cons_char (word_of_int (((a * 16 + b) * 16 + c') * 16 + d)) (lex_string s)"
  by simp

lemma lex_unicode: "lex_string (unicode_escape c @ s) = cons_char c (lex_string s)"
proof -
  have "lex_string (unicode_escape c @ s) =
        cons_char (word_of_int (((uint c div 4096 * 16 + uint c div 256 mod 16) * 16 +
           uint c div 16 mod 16) * 16 + uint c mod 16)) (lex_string s)"
    unfolding unicode_escape_def append.simps
    by (rule lex_unicode_hex) (rule hex_value_digit, simp_all add: top_nibble)+
  then show ?thesis by (simp only: hex_recompose)
qed


lemma surrogate_plain:
  "is_high_surrogate c \<or> is_low_surrogate c \<Longrightarrow> c \<noteq> 0x22 \<and> c \<noteq> 0x5C \<and> \<not> c < 0x20"
  by (auto simp: is_high_surrogate_def is_low_surrogate_def word_le_def word_less_def)

definition escaped :: "16 word \<Rightarrow> bool" where
  "escaped c = (c = 0x08 \<or> c = 0x09 \<or> c = 0x0A \<or> c = 0x0C \<or> c = 0x0D \<or> c = 0x22 \<or> c = 0x5C)"

lemma quote_escaped:
  "escaped c \<Longrightarrow> \<exists>e. quote_chars (c # cs) = 0x5C # e # quote_chars cs \<and> e \<noteq> 0x75 \<and>
     unescape_char e = Some c"
  unfolding escaped_def by (elim disjE) (simp_all add: unescape_char_def)

lemma quote_ctl: "\<not> escaped c \<Longrightarrow> c < 0x20 \<Longrightarrow> quote_chars (c # cs) = unicode_escape c @ quote_chars cs"
  unfolding escaped_def by simp


lemma quote_high_end:
  "\<not> escaped c \<Longrightarrow> \<not> c < 0x20 \<Longrightarrow> is_high_surrogate c \<Longrightarrow> quote_chars [c] = unicode_escape c"
  unfolding escaped_def by simp

lemma quote_pair:
  "\<not> escaped c \<Longrightarrow> \<not> c < 0x20 \<Longrightarrow> is_high_surrogate c \<Longrightarrow> is_low_surrogate k \<Longrightarrow>
   quote_chars (c # k # cs) = c # k # quote_chars cs"
  unfolding escaped_def by simp

lemma quote_high_lone:
  "\<not> escaped c \<Longrightarrow> \<not> c < 0x20 \<Longrightarrow> is_high_surrogate c \<Longrightarrow> \<not> is_low_surrogate k \<Longrightarrow>
   quote_chars (c # k # cs) = unicode_escape c @ quote_chars (k # cs)"
  unfolding escaped_def by simp

lemma quote_low:
  "\<not> escaped c \<Longrightarrow> \<not> c < 0x20 \<Longrightarrow> \<not> is_high_surrogate c \<Longrightarrow> is_low_surrogate c \<Longrightarrow>
   quote_chars (c # cs) = unicode_escape c @ quote_chars cs"
  unfolding escaped_def by simp

lemma quote_plain:
  "\<not> escaped c \<Longrightarrow> \<not> c < 0x20 \<Longrightarrow> \<not> is_high_surrogate c \<Longrightarrow> \<not> is_low_surrogate c \<Longrightarrow>
   quote_chars (c # cs) = c # quote_chars cs"
  unfolding escaped_def by simp

lemma not_escaped_plain: "\<not> escaped c \<Longrightarrow> c \<noteq> 0x22 \<and> c \<noteq> 0x5C"
  by (simp add: escaped_def)


lemma lex_quote_chars: "lex_string (quote_chars v @ 0x22 # rest) = Some (v, rest)"
proof (induction "length v" arbitrary: v rule: less_induct)
  case less
  show ?case
  proof (cases v)
    case Nil
    then show ?thesis by simp
  next
    case (Cons c cs)
    have ih: "lex_string (quote_chars cs @ 0x22 # rest) = Some (cs, rest)"
      using less [of cs] Cons by simp
    consider (esc) "escaped c" | (ctl) "\<not> escaped c" "c < 0x20"
      | (high) "\<not> escaped c" "\<not> c < 0x20" "is_high_surrogate c"
      | (low) "\<not> escaped c" "\<not> c < 0x20" "\<not> is_high_surrogate c" "is_low_surrogate c"
      | (plain) "\<not> escaped c" "\<not> c < 0x20" "\<not> is_high_surrogate c" "\<not> is_low_surrogate c"
      by blast
    then show ?thesis
    proof cases
      case esc
      from quote_escaped [OF esc, of cs]
      obtain e where e: "quote_chars (c # cs) = 0x5C # e # quote_chars cs" "e \<noteq> 0x75"
        "unescape_char e = Some c"
        by (elim exE conjE)
      have "lex_string (quote_chars v @ 0x22 # rest) = cons_char c (lex_string (quote_chars cs @ 0x22 # rest))"
        unfolding Cons e(1) append.simps by (rule lex_escape [OF e(3,2)])
      then show ?thesis by (simp only: ih Cons) (simp add: cons_char_def)
    next
      case ctl
      have "lex_string (quote_chars v @ 0x22 # rest) = cons_char c (lex_string (quote_chars cs @ 0x22 # rest))"
        unfolding Cons quote_ctl [OF ctl] append_assoc by (rule lex_unicode)
      then show ?thesis by (simp only: ih Cons) (simp add: cons_char_def)
    next
      case low
      have "lex_string (quote_chars v @ 0x22 # rest) = cons_char c (lex_string (quote_chars cs @ 0x22 # rest))"
        unfolding Cons quote_low [OF low] append_assoc by (rule lex_unicode)
      then show ?thesis by (simp only: ih Cons) (simp add: cons_char_def)
    next
      case plain
      have "lex_string (quote_chars v @ 0x22 # rest) = cons_char c (lex_string (quote_chars cs @ 0x22 # rest))"
        unfolding Cons quote_plain [OF plain] append.simps
        using not_escaped_plain [OF plain(1)] plain(2) by (intro lex_plain) simp_all
      then show ?thesis by (simp only: ih Cons) (simp add: cons_char_def)
    next
      case high
      note hp = surrogate_plain [of c]
      show ?thesis
      proof (cases cs)
        case Nil
        have "lex_string (quote_chars v @ 0x22 # rest) = cons_char c (lex_string (0x22 # rest))"
          unfolding Cons Nil quote_high_end [OF high] by (rule lex_unicode)
        then show ?thesis unfolding Cons Nil by (simp add: cons_char_def)
      next
        case k: (Cons k cs')
        show ?thesis
        proof (cases "is_low_surrogate k")
          case True
          have ih': "lex_string (quote_chars cs' @ 0x22 # rest) = Some (cs', rest)"
            using less [of cs'] Cons k by simp
          have "lex_string (k # quote_chars cs' @ 0x22 # rest) =
                cons_char k (lex_string (quote_chars cs' @ 0x22 # rest))"
            using surrogate_plain [of k] True by (intro lex_plain) simp_all
          moreover have "lex_string (c # k # quote_chars cs' @ 0x22 # rest) =
                cons_char c (lex_string (k # quote_chars cs' @ 0x22 # rest))"
            using surrogate_plain [of c] high(3) by (intro lex_plain) simp_all
          ultimately show ?thesis
            unfolding Cons k quote_pair [OF high True] append.simps
            by (simp only: ih') (simp add: cons_char_def)
        next
          case False
          have "lex_string (quote_chars v @ 0x22 # rest) = cons_char c (lex_string (quote_chars cs @ 0x22 # rest))"
            unfolding Cons k quote_high_lone [OF high False] append_assoc by (rule lex_unicode)
          then show ?thesis by (simp only: ih Cons) (simp add: cons_char_def)
        qed
      qed
    qed
  qed
qed

lemma lex_token_quoted:
  "lex_token (QuoteJSONString v @ rest) = Some (TValue (JStr v), rest)"
  by (simp add: QuoteJSONString_def lex_token_def lex_quote_chars)

subsection \<open>Printing and reading a whole number\<close>

definition digit_char :: "int \<Rightarrow> 16 word" where
  "digit_char d = word_of_int (48 + d)"

lemma digit_char_props:
  assumes "0 \<le> d" "d < 10"
  shows "is_digit (digit_char d)" "uint (digit_char d) - 48 = d" "(digit_char d = 0x30) = (d = 0)"
    "digit_char d \<noteq> 0x2D"
proof -
  have "is_digit (digit_char d) \<and> uint (digit_char d) - 48 = d \<and> (digit_char d = 0x30) = (d = 0) \<and>
    digit_char d \<noteq> 0x2D"
    using assms by (rule int_below) code_simp
  then show "is_digit (digit_char d)" "uint (digit_char d) - 48 = d" "(digit_char d = 0x30) = (d = 0)"
    "digit_char d \<noteq> 0x2D"
    by simp_all
qed

lemma decimal_digits_small: "n < 10 \<Longrightarrow> decimal_digits n = [digit_char n]"
  by (subst decimal_digits.simps) (simp add: digit_char_def)

lemma decimal_digits_large:
  "10 \<le> n \<Longrightarrow> decimal_digits n = decimal_digits (n div 10) @ [digit_char (n mod 10)]"
  by (subst decimal_digits.simps) (simp add: digit_char_def)

lemma digits_value_snoc: "digits_value acc (xs @ [c]) = 10 * digits_value acc xs + (uint c - 48)"
  by (induction xs arbitrary: acc) simp_all

lemma decimal_digits_props:
  "0 \<le> n \<Longrightarrow>
   list_all is_digit (decimal_digits n) \<and> decimal_digits n \<noteq> [] \<and>
   digits_value 0 (decimal_digits n) = n \<and>
   (hd (decimal_digits n) = 0x30) = (n = 0)"
proof (induction n rule: decimal_digits.induct)
  case (1 n)
  show ?case
  proof (cases "n < 10")
    case True
    then show ?thesis
      using digit_char_props [of n] 1(2) by (simp add: decimal_digits_small)
  next
    case False
    then have l: "10 \<le> n" by simp
    have d: "0 \<le> n div 10" "n div 10 \<noteq> 0"
      using l div_lower [of 1 10 n] by simp_all
    note ih = 1(1) [OF False d(1)]
    have m: "0 \<le> n mod 10" "n mod 10 < 10" by simp_all
    have "digits_value 0 (decimal_digits n) = 10 * (n div 10) + n mod 10"
      unfolding decimal_digits_large [OF l] digits_value_snoc
      using ih digit_char_props(2) [OF m] by simp
    then have "digits_value 0 (decimal_digits n) = n" by simp
    moreover have "hd (decimal_digits n) = hd (decimal_digits (n div 10))"
      unfolding decimal_digits_large [OF l] using ih by simp
    ultimately show ?thesis
      using ih d l digit_char_props(1) [OF m] by (simp add: decimal_digits_large [OF l])
  qed
qed


lemma takeWhile_digits:
  "list_all is_digit ds \<Longrightarrow> takeWhile is_digit (ds @ 0x2C # r) = ds"
  by (induction ds) (simp_all add: is_digit_def)

lemma lex_after_number:
  "lex_fraction (0x2C # r) = Some ([], 0x2C # r)" "lex_exponent (0x2C # r) = Some (0, 0x2C # r)"
  by (simp_all add: lex_fraction_def lex_exponent_def)

text \<open>The integer part \<open>ip\<close> that \<open>lex_number\<close> takes from the digits of a whole number.\<close>

lemma integer_part:
  assumes "0 \<le> n" and ds: "ds = decimal_digits n"
  shows "(case ds @ 0x2C # r of c # r' \<Rightarrow> if c = 0x30 then [c] else takeWhile is_digit (ds @ 0x2C # r)
          | [] \<Rightarrow> []) = ds"
proof -
  note p = decimal_digits_props [OF assms(1), folded ds]
  obtain c0 ds' where c: "ds = c0 # ds'" using p by (cases ds) simp_all
  show ?thesis
  proof (cases "n = 0")
    case True
    then have "ds = [0x30]" unfolding ds by (simp add: decimal_digits_small digit_char_def)
    then show ?thesis by simp
  next
    case False
    then have "c0 \<noteq> 0x30" using p c by simp
    then show ?thesis using takeWhile_digits [of ds r] p unfolding c by simp
  qed
qed

lemma lex_number_digits:
  assumes "0 \<le> n"
  shows "lex_number (decimal_digits n @ 0x2C # r) = Some (number_value (of_int n), 0x2C # r)"
proof -
  define ds where "ds = decimal_digits n"
  note p = decimal_digits_props [OF assms(1), folded ds_def]
  obtain c0 ds' where c: "ds = c0 # ds'" using p by (cases ds) simp_all
  have c0: "c0 \<noteq> 0x2D" using p unfolding c by (auto simp: is_digit_def)
  have neg: "(case ds @ 0x2C # r of c # r' \<Rightarrow> if c = 0x2D then (True, r') else (False, ds @ 0x2C # r)
              | [] \<Rightarrow> (False, ds @ 0x2C # r)) = (False, ds @ 0x2C # r)"
    unfolding c using c0 by simp
  show ?thesis
    unfolding lex_number_def ds_def [symmetric] neg Let_def prod.case
      integer_part [OF assms ds_def]
    using p by (simp add: lex_after_number scale10_def)
qed

lemma lex_number_negative:
  assumes "0 < n"
  shows "lex_number (0x2D # decimal_digits n @ 0x2C # r) = Some (number_value (of_int (- n)), 0x2C # r)"
proof -
  define ds where "ds = decimal_digits n"
  have n: "0 \<le> n" using assms by simp
  note p = decimal_digits_props [OF n, folded ds_def]
  show ?thesis
    unfolding lex_number_def ds_def [symmetric] Let_def list.case
    apply (simp only: refl if_True prod.case integer_part [OF n ds_def])
    using p by (simp add: lex_after_number scale10_def)
qed

lemma lex_token_number:
  assumes "rest = 0x2C # r"
  shows "lex_token (Number_toString t @ rest) = Some (TValue (JNum (number_value (of_int t))), rest)"
proof (cases "t < 0")
  case True
  then have "lex_number (0x2D # decimal_digits (- t) @ 0x2C # r) =
             Some (number_value (of_int (- (- t))), 0x2C # r)"
    by (intro lex_number_negative) simp
  then show ?thesis using True unfolding assms by (simp add: Number_toString_def lex_token_def)
next
  case False
  then have n: "0 \<le> t" by simp
  note p = decimal_digits_props [OF n]
  obtain c0 ds' where c: "decimal_digits t = c0 # ds'" using p by (cases "decimal_digits t") simp_all
  have d: "is_digit c0" using p unfolding c by simp
  then have c0: "c0 \<noteq> 0x7B" "c0 \<noteq> 0x7D" "c0 \<noteq> 0x5B" "c0 \<noteq> 0x5D" "c0 \<noteq> 0x3A" "c0 \<noteq> 0x2C"
    "c0 \<noteq> 0x22"
    by (auto simp: is_digit_def)
  have "lex_token (c0 # ds' @ rest) =
        map_option (\<lambda>(n, rest). (TValue (JNum n), rest)) (lex_number (c0 # ds' @ rest))"
    using c0 d by (simp add: lex_token_def)
  then show ?thesis
    using lex_number_digits [OF n, of r] False unfolding assms c by (simp add: Number_toString_def c)
qed

subsection \<open>Parsing the payload\<close>

lemma json_lex_Nil: "json_lex [] = Some []"
  by (subst json_lex.simps) simp

lemma json_lex_token:
  assumes "lex_token s = Some (tok, rest)" "\<not> is_ws (hd s)"
  shows "json_lex s = map_option ((#) tok) (json_lex rest)"
proof -
  have "s \<noteq> []" using assms(1) by (auto simp: lex_token_def)
  then have "dropWhile is_ws s = s" using assms(2) by (cases s) simp_all
  then show ?thesis using assms(1) \<open>s \<noteq> []\<close> by (subst json_lex.simps) simp
qed

lemma lex_token_punct:
  "lex_token (0x7B # s) = Some (TLBrace, s)" "lex_token (0x7D # s) = Some (TRBrace, s)"
  "lex_token (0x3A # s) = Some (TColon, s)" "lex_token (0x2C # s) = Some (TComma, s)"
  by (simp_all add: lex_token_def)

lemma Number_toString_hd: "Number_toString t \<noteq> [] \<and> \<not> is_ws (hd (Number_toString t))"
proof (cases "t < 0")
  case True
  then show ?thesis by (simp add: Number_toString_def is_ws_def)
next
  case False
  then have n: "0 \<le> t" by simp
  note p = decimal_digits_props [OF n]
  obtain c0 ds' where c: "decimal_digits t = c0 # ds'" using p by (cases "decimal_digits t") simp_all
  have "is_digit c0" using p unfolding c by simp
  then have "\<not> is_ws c0" by (auto simp: is_digit_def is_ws_def)
  then show ?thesis using False by (simp add: Number_toString_def c)
qed

definition payload_tokens :: "int \<Rightarrow> jsstring \<Rightarrow> token list" where
  "payload_tokens t v =
     [TLBrace, TValue (JStr (js_of ''t'')), TColon, TValue (JNum (number_value (of_int t))), TComma,
      TValue (JStr (js_of ''v'')), TColon, TValue (JStr v), TRBrace]"

lemma json_lex_quoted:
  "json_lex (QuoteJSONString v @ rest) = map_option ((#) (TValue (JStr v))) (json_lex rest)"
  by (rule json_lex_token [OF lex_token_quoted]) (simp add: QuoteJSONString_def is_ws_def)

lemma json_lex_number:
  "json_lex (Number_toString t @ 0x2C # r) =
   map_option ((#) (TValue (JNum (number_value (of_int t))))) (json_lex (0x2C # r))"
  by (rule json_lex_token [OF lex_token_number [OF refl]]) (simp add: Number_toString_hd)

lemma json_lex_punct:
  "json_lex (0x7B # s) = map_option ((#) TLBrace) (json_lex s)"
  "json_lex (0x7D # s) = map_option ((#) TRBrace) (json_lex s)"
  "json_lex (0x3A # s) = map_option ((#) TColon) (json_lex s)"
  "json_lex (0x2C # s) = map_option ((#) TComma) (json_lex s)"
  by (rule json_lex_token, rule lex_token_punct, simp add: is_ws_def)+

lemma json_lex_payload: "json_lex (JSON_stringify_payload t v) = Some (payload_tokens t v)"
proof -
  have "JSON_stringify_payload t v =
        0x7B # (QuoteJSONString (js_of ''t'') @ 0x3A # (Number_toString t @ 0x2C #
          (QuoteJSONString (js_of ''v'') @ 0x3A # (QuoteJSONString v @ 0x7D # []))))"
    by (simp add: JSON_stringify_payload_def js_of_def)
  then show ?thesis
    by (simp only: json_lex_punct json_lex_quoted json_lex_number json_lex_Nil)
       (simp add: payload_tokens_def)
qed

lemma run_payload_tokens:
  "run (Some (EValue, [])) (payload_tokens t v) =
   Some (JObj [(js_of ''t'', JNum (number_value (of_int t))), (js_of ''v'', JStr v)])"
  by (simp add: payload_tokens_def step_def open_or_place_def member_name_def close_object_def)

lemma JSON_parse_payload:
  "JSON_parse (JSON_stringify_payload t v) =
   Inr (JObj [(js_of ''t'', JNum (number_value (of_int t))), (js_of ''v'', JStr v)])"
  by (simp add: JSON_parse_def json_lex_payload run_payload_tokens)

subsection \<open>The payload is well-formed UTF-16\<close>

definition encodable :: "int list \<Rightarrow> bool" where
  "encodable cs = (utf8_enc cs \<noteq> None)"

lemma encodable_Nil [simp]: "encodable []"
  by (simp add: encodable_def)

lemma encodable_scalar:
  "c < 55296 \<or> 57344 \<le> c \<Longrightarrow> encodable (c # cs) = encodable cs"
proof -
  assume a: "c < 55296 \<or> 57344 \<le> c"
  consider (one) "c < 128" | (two) "128 \<le> c" "c < 2048" | (three) "2048 \<le> c" "c < 55296 \<or> 57344 \<le> c"
    using a by linarith
  then show ?thesis
  proof cases
    case one
    then show ?thesis unfolding encodable_def by (simp only: enc_one) simp
  next
    case two
    then show ?thesis unfolding encodable_def by (simp only: enc_two) simp
  next
    case three
    then show ?thesis unfolding encodable_def by (simp only: enc_three) simp
  qed
qed

lemma encodable_pair:
  "55296 \<le> c \<Longrightarrow> c < 56320 \<Longrightarrow> 56320 \<le> k \<Longrightarrow> k < 57344 \<Longrightarrow>
   encodable (c # k # cs) = encodable cs"
  unfolding encodable_def by (simp only: enc_high [OF _ _ _ _ refl]) simp

lemma encodable_ascii: "list_all (\<lambda>c. c < 128) xs \<Longrightarrow> encodable (xs @ ys) = encodable ys"
  by (induction xs) (simp_all add: encodable_scalar)

lemma hex_digit_ascii: "0 \<le> n \<Longrightarrow> n < 16 \<Longrightarrow> uint (hex_digit n) < 128"
  by (erule (1) int_below) code_simp

lemma unicode_escape_ascii: "list_all (\<lambda>c. c < 128) (map uint (unicode_escape c))"
  by (simp add: unicode_escape_def hex_digit_ascii top_nibble)

lemma encodable_escape: "encodable (map uint (unicode_escape c) @ ys) = encodable ys"
  by (rule encodable_ascii [OF unicode_escape_ascii])

lemma surrogate_uint:
  "is_high_surrogate c \<Longrightarrow> 55296 \<le> uint c \<and> uint c < 56320"
  "is_low_surrogate c \<Longrightarrow> 56320 \<le> uint c \<and> uint c < 57344"
  "\<not> is_high_surrogate c \<Longrightarrow> \<not> is_low_surrogate c \<Longrightarrow> uint c < 55296 \<or> 57344 \<le> uint c"
  using uint_lt2p [of c]
  by (auto simp: is_high_surrogate_def is_low_surrogate_def word_le_def)

lemma encodable_quote_chars: "encodable (map uint (quote_chars v) @ ys) = encodable ys"
proof (induction "length v" arbitrary: v rule: less_induct)
  case less
  show ?case
  proof (cases v)
    case Nil
    then show ?thesis by simp
  next
    case (Cons c cs)
    have ih: "encodable (map uint (quote_chars cs) @ ys) = encodable ys"
      using less [of cs] Cons by simp
    consider (esc) "escaped c" | (ctl) "\<not> escaped c" "c < 0x20"
      | (high) "\<not> escaped c" "\<not> c < 0x20" "is_high_surrogate c"
      | (low) "\<not> escaped c" "\<not> c < 0x20" "\<not> is_high_surrogate c" "is_low_surrogate c"
      | (plain) "\<not> escaped c" "\<not> c < 0x20" "\<not> is_high_surrogate c" "\<not> is_low_surrogate c"
      by blast
    then show ?thesis
    proof cases
      case esc
      from quote_escaped [OF esc, of cs]
      obtain e where e: "quote_chars (c # cs) = 0x5C # e # quote_chars cs" "e \<noteq> 0x75"
        "unescape_char e = Some c"
        by (elim exE conjE)
      have "uint e < 128" using e(3) by (auto simp: unescape_char_def split: if_splits)
      then show ?thesis unfolding Cons e(1) using ih by (simp add: encodable_scalar)
    next
      case ctl
      show ?thesis unfolding Cons quote_ctl [OF ctl] map_append append_assoc encodable_escape by (rule ih)
    next
      case low
      show ?thesis unfolding Cons quote_low [OF low] map_append append_assoc encodable_escape by (rule ih)
    next
      case plain
      show ?thesis unfolding Cons quote_plain [OF plain]
        using surrogate_uint(3) [OF plain(3,4)] ih by (simp add: encodable_scalar)
    next
      case high
      show ?thesis
      proof (cases cs)
        case Nil
        show ?thesis unfolding Cons Nil quote_high_end [OF high] encodable_escape ..
      next
        case k: (Cons k cs')
        show ?thesis
        proof (cases "is_low_surrogate k")
          case True
          have ih': "encodable (map uint (quote_chars cs') @ ys) = encodable ys"
            using less [of cs'] Cons k by simp
          show ?thesis
            unfolding Cons k quote_pair [OF high True]
            using surrogate_uint(1) [OF high(3)] surrogate_uint(2) [OF True] ih'
            by (simp add: encodable_pair)
        next
          case False
          show ?thesis
            unfolding Cons k quote_high_lone [OF high False] map_append append_assoc encodable_escape
            using ih unfolding k .
        qed
      qed
    qed
  qed
qed

lemma encodable_quoted: "encodable (map uint (QuoteJSONString v) @ ys) = encodable ys"
proof -
  have "encodable (map uint (QuoteJSONString v) @ ys) = encodable (map uint (quote_chars v) @ 34 # ys)"
    by (simp add: QuoteJSONString_def encodable_scalar)
  also have "\<dots> = encodable ys"
    unfolding encodable_quote_chars by (simp add: encodable_scalar)
  finally show ?thesis .
qed

lemma digits_ascii: "list_all is_digit ds \<Longrightarrow> list_all (\<lambda>c. c < 128) (map uint ds)"
  by (induction ds) (auto simp: is_digit_def word_le_def)

lemma encodable_number: "encodable (map uint (Number_toString t) @ ys) = encodable ys"
proof -
  have "list_all (\<lambda>c. c < 128) (map uint (Number_toString t))"
    using decimal_digits_props [of t] decimal_digits_props [of "- t"]
    by (auto simp: Number_toString_def intro: digits_ascii)
  then show ?thesis by (rule encodable_ascii)
qed

lemma payload_encodable: "utf8_encode (JSON_stringify_payload t v) \<noteq> None"
proof -
  have "JSON_stringify_payload t v =
        0x7B # (QuoteJSONString (js_of ''t'') @ 0x3A # (Number_toString t @ 0x2C #
          (QuoteJSONString (js_of ''v'') @ 0x3A # (QuoteJSONString v @ 0x7D # []))))"
    by (simp add: JSON_stringify_payload_def js_of_def)
  then have "encodable (map uint (JSON_stringify_payload t v))"
    by (simp add: encodable_scalar encodable_quoted encodable_number)
  then show ?thesis by (simp add: utf8_encode_def encodable_def)
qed

subsection \<open>Whole numbers as doubles\<close>

lemma round_half_even_int: "round_half_even (of_int m) = m"
  by (simp add: round_half_even_def)

lemma round_half_even_ge: "of_int m \<le> x \<Longrightarrow> m \<le> round_half_even x"
proof -
  assume "of_int m \<le> x"
  then have "m \<le> \<lfloor>x\<rfloor>" by (simp add: le_floor_iff)
  then show ?thesis by (auto simp: round_half_even_def Let_def)
qed

lemma floor_log2_int:
  assumes "0 < n"
  shows "floor_log2 (of_int n) = bitlen n - 1"
proof -
  have "0 \<le> bitlen n - 1" using assms bitlen_eq_zero_iff [of n] bitlen_nonneg [of n] by linarith
  moreover have "(2::rat) ^ nat (bitlen n - 1) \<le> of_int n"
  proof -
    have "(2::int) ^ nat (bitlen n - 1) \<le> n" using bitlen_bounds [OF assms] by simp
    then have "rat_of_int (2 ^ nat (bitlen n - 1)) \<le> of_int n" by (simp only: of_int_le_iff)
    then show ?thesis by simp
  qed
  ultimately show ?thesis
    by (simp add: floor_log2_def quotient_of_rat_of_int pow2_def Let_def compute_bitlen [of 1])
qed

lemma pow2_pos: "0 < pow2 e"
  by (simp add: pow2_def)

lemma pow2_add: "pow2 (a + b) = pow2 a * pow2 b"
proof -
  have "pow2 e = 2 powi e" for e
    by (simp add: pow2_def power_int_def field_simps)
  then show ?thesis by (simp add: power_int_add)
qed


lemma pow2_inverse: "pow2 (- e) * pow2 e = 1"
  using pow2_add [of "- e" e] by (simp add: pow2_def)

lemma pow2_nat: "0 \<le> e \<Longrightarrow> pow2 e = of_int (2 ^ nat e)"
  by (simp add: pow2_def)

lemma scaled_exact:
  assumes "0 < n" "e \<le> 52"
  shows "of_int (round_half_even (of_int n / pow2 (e - 52))) * pow2 (e - 52) = (of_int n :: rat)"
proof -
  have i: "pow2 (52 - e) * pow2 (e - 52) = 1" using pow2_inverse [of "e - 52"] by simp
  have p: "pow2 (e - 52) \<noteq> 0" using pow2_pos [of "e - 52"] by simp
  have "of_int n / pow2 (e - 52) = of_int n * pow2 (52 - e)"
    using i p by (simp add: field_simps)
  also have "\<dots> = of_int (n * 2 ^ nat (52 - e))"
    using assms(2) by (simp add: pow2_nat)
  finally have "round_half_even (of_int n / pow2 (e - 52)) = n * 2 ^ nat (52 - e)"
    by (simp only: round_half_even_int)
  then have "of_int (round_half_even (of_int n / pow2 (e - 52))) * pow2 (e - 52) =
             of_int n * (pow2 (52 - e) * pow2 (e - 52))"
    using assms(2) by (simp add: pow2_nat)
  then show ?thesis by (simp only: i mult_1_right)
qed

lemma number_value_pos:
  assumes "0 < n" "n < 2 ^ 53"
  shows "number_value (of_int n) = Num (of_int n)"
proof -
  have k: "bitlen n - 1 \<le> 52" "0 \<le> bitlen n - 1"
    using assms bitlen_le_iff_power [of n 53] bitlen_eq_zero_iff [of n] bitlen_nonneg [of n]
    by simp_all linarith?
  have e: "max (floor_log2 (of_int n)) (- 1022) = bitlen n - 1"
    using k by (simp add: floor_log2_int [OF assms(1)])
  have "rat_of_int n < of_int (2 ^ 53)" using assms(2) by (simp only: of_int_less_iff)
  then have big: "\<not> pow2 1024 \<le> rat_of_int n" by (simp add: pow2_def)
  have a: "\<bar>rat_of_int n\<bar> = of_int n" "rat_of_int n \<noteq> 0" "0 < rat_of_int n"
    using assms(1) by simp_all
  show ?thesis
    unfolding number_value_def Let_def a e scaled_exact [OF assms(1) k(1)]
    using a big by simp
qed

lemma number_value_neg:
  assumes "0 < n" "n < 2 ^ 53"
  shows "number_value (of_int (- n)) = Num (of_int (- n))"
proof -
  have k: "bitlen n - 1 \<le> 52" "0 \<le> bitlen n - 1"
    using assms bitlen_le_iff_power [of n 53] bitlen_eq_zero_iff [of n] bitlen_nonneg [of n]
    by simp_all linarith?
  have e: "max (floor_log2 (of_int n)) (- 1022) = bitlen n - 1"
    using k by (simp add: floor_log2_int [OF assms(1)])
  have "rat_of_int n < of_int (2 ^ 53)" using assms(2) by (simp only: of_int_less_iff)
  then have big: "\<not> pow2 1024 \<le> rat_of_int n" by (simp add: pow2_def)
  have a: "\<bar>rat_of_int (- n)\<bar> = of_int n" "rat_of_int (- n) \<noteq> 0" "\<not> 0 < rat_of_int (- n)"
    using assms(1) by simp_all
  show ?thesis
    unfolding number_value_def Let_def a e scaled_exact [OF assms(1) k(1)]
    using a big by simp
qed

lemma number_value_int: "\<bar>n\<bar> < 2 ^ 53 \<Longrightarrow> number_value (of_int n) = Num (of_int n)"
proof -
  assume b: "\<bar>n\<bar> < 2 ^ 53"
  consider "n = 0" | "0 < n" | "0 < - n" by linarith
  then show ?thesis
  proof cases
    case 1
    then show ?thesis by (simp add: number_value_def)
  next
    case 2
    then show ?thesis using b by (intro number_value_pos) simp_all
  next
    case 3
    then have "number_value (of_int (- (- n))) = Num (of_int (- (- n)))"
      using b by (intro number_value_neg) simp_all
    then show ?thesis by simp
  qed
qed


lemma big_scaled:
  assumes "pow2 e \<le> a" "52 \<le> e"
  shows "2 ^ 52 \<le> of_int (round_half_even (a / pow2 (e - 52))) * pow2 (e - 52)"
proof -
  define q where "q = pow2 (e - 52)"
  have q: "0 < q" "1 \<le> q" using assms(2) by (simp_all add: q_def pow2_def)
  have "pow2 e = pow2 52 * q" using pow2_add [of 52 "e - 52"] by (simp add: q_def)
  then have "pow2 52 * q \<le> a" using assms(1) by simp
  then have "pow2 52 \<le> a / q" using q(1) by (simp add: pos_le_divide_eq)
  then have "of_int (2 ^ 52) \<le> a / q" by (simp add: pow2_def)
  then have m: "2 ^ 52 \<le> round_half_even (a / q)" by (rule round_half_even_ge)
  then have "(2::rat) ^ 52 \<le> of_int (round_half_even (a / q))"
  proof -
    have "rat_of_int (2 ^ 52) \<le> of_int (round_half_even (a / q))" using m by (simp only: of_int_le_iff)
    then show ?thesis by simp
  qed
  also have "\<dots> \<le> of_int (round_half_even (a / q)) * q"
    using q(2) m by (simp add: mult_le_cancel_left1)
  finally show ?thesis unfolding q_def .
qed

lemma number_value_big:
  assumes "2 ^ 53 \<le> n"
  shows "js_greater (Math_abs (number_value (of_int n))) 60000"
    "js_greater (Math_abs (number_value (of_int (- n)))) 60000"
proof -
  have n: "0 < n" using assms by simp
  have k: "52 \<le> bitlen n - 1"
    using assms bitlen_ge_iff_power [of 54 n] by simp
  have e: "max (floor_log2 (of_int n)) (- 1022) = bitlen n - 1"
    using k by (simp add: floor_log2_int [OF n])
  have "(2::int) ^ nat (bitlen n - 1) \<le> n" using bitlen_bounds [OF n] by simp
  then have "rat_of_int (2 ^ nat (bitlen n - 1)) \<le> of_int n" by (simp only: of_int_le_iff)
  then have p: "pow2 (bitlen n - 1) \<le> of_int n" using k by (simp add: pow2_def)
  define v where "v = of_int (round_half_even (of_int n / pow2 (bitlen n - 1 - 52))) * pow2 (bitlen n - 1 - 52)"
  have v: "2 ^ 52 \<le> v" unfolding v_def by (rule big_scaled [OF p k])
  have a: "\<bar>rat_of_int n\<bar> = of_int n" "rat_of_int n \<noteq> 0" "0 < rat_of_int n"
    "\<bar>rat_of_int (- n)\<bar> = of_int n" "rat_of_int (- n) \<noteq> 0" "\<not> 0 < rat_of_int (- n)"
    using n by simp_all
  have "number_value (of_int n) = (if pow2 1024 \<le> v then PosInfinity else Num v)"
    unfolding number_value_def Let_def a e v_def [symmetric] using a by simp
  then show "js_greater (Math_abs (number_value (of_int n))) 60000"
    using v by (simp add: js_greater_def Math_abs_def)
  have "number_value (of_int (- n)) = (if pow2 1024 \<le> v then NegInfinity else Num (- v))"
    unfolding number_value_def Let_def a e v_def [symmetric] using a by simp
  then show "js_greater (Math_abs (number_value (of_int (- n)))) 60000"
    using v by (simp add: js_greater_def Math_abs_def)
qed

lemma abs_greater_60000:
  "js_greater (Math_abs (number_value (of_int d))) 60000 = (60000 < \<bar>d\<bar>)"
proof (cases "\<bar>d\<bar> < 2 ^ 53")
  case True
  have "(60000 < \<bar>rat_of_int d\<bar>) = (60000 < \<bar>d\<bar>)"
  proof -
    have "(rat_of_int 60000 < of_int \<bar>d\<bar>) = (60000 < \<bar>d\<bar>)" by (simp only: of_int_less_iff)
    then show ?thesis by simp
  qed
  then show ?thesis
    by (simp add: number_value_int [OF True] js_greater_def Math_abs_def)
next
  case False
  then consider "2 ^ 53 \<le> d" | "2 ^ 53 \<le> - d" by linarith
  then show ?thesis
  proof cases
    case 1
    then show ?thesis using number_value_big(1) [OF 1] by simp
  next
    case 2
    then show ?thesis using number_value_big(2) [OF 2] by simp
  qed
qed

section \<open>Proofs: the two functions together\<close>

subsection \<open>The freshness check on a decoded payload\<close>

lemma js_get_payload:
  "js_get (JObj [(js_of ''t'', tv), (js_of ''v'', vv)]) (js_of ''t'') = Inr tv"
  "js_get (JObj [(js_of ''t'', tv), (js_of ''v'', vv)]) (js_of ''v'') = Inr vv"
  by (simp_all add: js_get_def js_of_def)

lemma check_fresh_payload:
  "check_fresh (JObj [(js_of ''t'', JNum (Num (of_int t))), (js_of ''v'', vv)]) now =
   Inr (if t \<noteq> 0 \<and> 60000 < \<bar>now - t\<bar> then JNull else vv)"
proof -
  have "js_greater (Math_abs (js_minus (of_int now) (Num (of_int t)))) 60000 =
        js_greater (Math_abs (number_value (of_int (now - t)))) 60000"
    by (simp add: js_minus_def)
  then have g: "js_greater (Math_abs (js_minus (of_int now) (Num (of_int t)))) 60000 =
        (60000 < \<bar>now - t\<bar>)"
    by (simp only: abs_greater_60000)
  show ?thesis
    unfolding check_fresh_def js_get_payload
    by (simp add: truthy_def ToNumber_def g)
qed

subsection \<open>Decrypting what was encrypted\<close>

text \<open>
  \<open>decrypt_encrypted\<close> is a call of \<^verbatim>\<open>encryptWithDynamicIV\<close> at the time \<open>t\<close> followed by a
  call of \<^verbatim>\<open>decryptWithDynamicIV\<close> on the blob at the time \<open>now\<close>, with the same key. An
  error is the error of the encryption: the decryption throws none.
\<close>

definition decrypt_encrypted :: "jsstring \<Rightarrow> jsstring \<Rightarrow> int \<Rightarrow> block \<Rightarrow> int \<Rightarrow> js_error + json" where
  "decrypt_encrypted v keyStr t rnd now =
     (case encryptWithDynamicIV v keyStr t rnd of
        Inl e \<Rightarrow> Inl e
      | Inr blob \<Rightarrow> decryptWithDynamicIV blob keyStr now)"

lemma encrypt_blob:
  assumes "utf8_encode keyStr = Some kb" "utf8_encode (JSON_stringify_payload t v) = Some bs"
  shows "encryptWithDynamicIV v keyStr t rnd =
         Inr (Base64_stringify (combined_of bs (Latin1_parse kb) rnd))"
  by (simp add: encryptWithDynamicIV_def encrypt_try_def encrypt_payload_blob [OF assms(2,1)])

lemma encrypt_bad_key:
  assumes "utf8_encode keyStr = None"
  shows "encryptWithDynamicIV v keyStr t rnd = Inl URIError"
  by (simp add: encryptWithDynamicIV_def encrypt_try_def encrypt_payload_def Utf8_parse_def assms)

lemma payload_not_empty: "JSON_stringify_payload t v \<noteq> []"
  by (simp add: JSON_stringify_payload_def js_of_def)

lemma decrypt_blob:
  assumes "utf8_encode keyStr = Some kb" "length kb = 4 * n"
    "utf8_encode payload = Some bs" "payload \<noteq> []"
  shows "decryptWithDynamicIV (Base64_stringify (combined_of bs (Latin1_parse kb) rnd)) keyStr now =
         (case JSON_parse payload of
            Inl e \<Rightarrow> Inr JNull
          | Inr data \<Rightarrow> (case check_fresh data now of Inl e \<Rightarrow> Inr JNull | Inr r \<Rightarrow> Inr r))"
  using assms(4)
  by (simp add: decryptWithDynamicIV_def decrypt_try_def decrypt_json_text_blob [OF assms(3,1,2)]
        split: sum.splits)

lemma decrypt_encrypted_result:
  assumes "utf8_encode keyStr = Some kb" "length kb = 4 * n" "\<bar>t\<bar> < 2 ^ 53"
  shows "decrypt_encrypted v keyStr t rnd now =
         Inr (if t \<noteq> 0 \<and> 60000 < \<bar>now - t\<bar> then JNull else JStr v)"
proof -
  obtain bs where bs: "utf8_encode (JSON_stringify_payload t v) = Some bs"
    using payload_encodable [of t v] by auto
  show ?thesis
    unfolding decrypt_encrypted_def encrypt_blob [OF assms(1) bs]
    by (simp add: decrypt_blob [OF assms(1,2) bs payload_not_empty] JSON_parse_payload
          number_value_int [OF assms(3)] check_fresh_payload)
qed

subsection \<open>Keys and values used in the instances\<close>

definition key16 :: jsstring where
  "key16 = js_of ''0123456789abcdef''"

definition key32 :: jsstring where
  "key32 = js_of ''0123456789abcdef0123456789abcdef''"

definition secret :: jsstring where
  "secret = js_of ''s3cr3t''"

lemma key16_bytes:
  "utf8_encode key16 =
   Some [0x30, 0x31, 0x32, 0x33, 0x34, 0x35, 0x36, 0x37, 0x38, 0x39, 0x61, 0x62, 0x63, 0x64, 0x65, 0x66]"
  by (simp add: key16_def utf8_encode_def js_of_def)

lemma key32_bytes:
  "utf8_encode key32 =
   Some [0x30, 0x31, 0x32, 0x33, 0x34, 0x35, 0x36, 0x37, 0x38, 0x39, 0x61, 0x62, 0x63, 0x64, 0x65, 0x66,
         0x30, 0x31, 0x32, 0x33, 0x34, 0x35, 0x36, 0x37, 0x38, 0x39, 0x61, 0x62, 0x63, 0x64, 0x65, 0x66]"
  by (simp add: key32_def utf8_encode_def js_of_def)

lemma time_value_exact: "\<bar>t\<bar> \<le> 8640000000000000 \<Longrightarrow> \<bar>t\<bar> < (2::int) ^ 53"
  by simp

lemma encrypt_returns_blob:
  assumes "utf8_encode keyStr = Some kb"
  shows "\<exists>bs. utf8_encode (JSON_stringify_payload t v) = Some bs \<and>
          encryptWithDynamicIV v keyStr t rnd =
          Inr (Base64_stringify (combined_of bs (Latin1_parse kb) rnd))"
proof -
  obtain bs where bs: "utf8_encode (JSON_stringify_payload t v) = Some bs"
    using payload_encodable [of t v] by auto
  show ?thesis using bs encrypt_blob [OF assms bs] by simp
qed

lemma decrypt_encrypted_split:
  assumes "decrypt_encrypted v keyStr t rnd now = Inr r"
  shows "\<exists>blob. encryptWithDynamicIV v keyStr t rnd = Inr blob \<and>
          decryptWithDynamicIV blob keyStr now = Inr r"
  using assms by (auto simp: decrypt_encrypted_def split: sum.splits)

lemma decrypt_encrypted_16:
  assumes "utf8_encode keyStr = Some kb" "length kb = 16" "\<bar>t\<bar> \<le> 8640000000000000"
  shows "decrypt_encrypted v keyStr t rnd now =
         Inr (if t \<noteq> 0 \<and> 60000 < \<bar>now - t\<bar> then JNull else JStr v)"
proof -
  have "length kb = 4 * 4" using assms(2) by simp
  then show ?thesis
    by (rule decrypt_encrypted_result [OF assms(1) _ time_value_exact [OF assms(3)]])
qed

subsection \<open>A blob with no ciphertext block\<close>

lemma Latin1_stringify_nonpos: "sigBytes wa \<le> 0 \<Longrightarrow> Latin1_stringify wa = []"
  by (simp add: Latin1_stringify_def)

lemma AES_decrypt_nonpos:
  assumes "sigBytes ct \<le> 0"
  shows "Latin1_stringify (AES_decrypt ct key iv) = []"
proof -
  have w: "nat ((sigBytes ct + 3) div 4) = 0" using assms by simp
  have c: "concat_wa empty_wa ct = \<lparr>words = [], sigBytes = sigBytes ct\<rparr>"
    by (simp add: concat_wa_def empty_wa_def clamp_def Latin1_stringify_def w)
  have n: "nBlocksReady (sigBytes ct) = 0" using assms by (simp add: nBlocksReady_def)
  have "process mode \<lparr>words = [], sigBytes = sigBytes ct\<rparr> =
        \<lparr>words = words_of_blocks (mode []), sigBytes = sigBytes ct\<rparr>" for mode
    using assms by (simp add: process_def blocks_of_def n)
  then have "sigBytes (AES_decrypt ct key iv) = sigBytes ct"
    using assms by (simp add: AES_decrypt_def Let_def c Pkcs7_unpad_def)
  then show ?thesis using assms by (simp add: Latin1_stringify_nonpos)
qed

lemma undersized_blob:
  assumes "sigBytes (Base64_parse blob) \<le> 16"
  shows "decryptWithDynamicIV blob keyStr now = Inr JNull"
proof (cases "utf8_encode keyStr")
  case None
  then show ?thesis
    by (simp add: decryptWithDynamicIV_def decrypt_try_def decrypt_json_text_def Utf8_parse_def)
next
  case (Some kb)
  have "Latin1_stringify (AES_decrypt
          (WordArray_create (drop 4 (words (Base64_parse blob))) (sigBytes (Base64_parse blob) - 16))
          (Latin1_parse kb) (WordArray_create (take 4 (words (Base64_parse blob))) 16)) = []"
    by (rule AES_decrypt_nonpos) (simp add: WordArray_create_def assms)
  then have "decrypt_json_text blob keyStr = Inr []"
    by (simp add: decrypt_json_text_def Let_def Utf8_parse_def Some Utf8_stringify_def utf8_decode_def)
  then show ?thesis by (simp add: decryptWithDynamicIV_def decrypt_try_def)
qed

lemma bad_key_null:
  assumes "utf8_encode keyStr = None"
  shows "decryptWithDynamicIV blob keyStr now = Inr JNull"
  using assms
  by (simp add: decryptWithDynamicIV_def decrypt_try_def decrypt_json_text_def Utf8_parse_def)

lemma never_isl: "\<not> isl (decryptWithDynamicIV blob keyStr now)"
  by (simp add: decryptWithDynamicIV_def split: sum.splits)

text \<open>
  \<open>decrypt_payload\<close> is \<^verbatim>\<open>decryptWithDynamicIV\<close> on the blob that the statements of
  \<^verbatim>\<open>encryptWithDynamicIV\<close> after \<^verbatim>\<open>JSON.stringify\<close> make of a payload text: a blob
  of the right form under the key, whatever its plaintext.
\<close>

definition decrypt_payload :: "jsstring \<Rightarrow> jsstring \<Rightarrow> block \<Rightarrow> int \<Rightarrow> js_error + json" where
  "decrypt_payload payload keyStr rnd now =
     (case encrypt_payload payload keyStr rnd of
        Inl e \<Rightarrow> Inl e
      | Inr blob \<Rightarrow> decryptWithDynamicIV blob keyStr now)"

lemma decrypt_payload_result:
  assumes "utf8_encode keyStr = Some kb" "length kb = 4 * n"
    "utf8_encode payload = Some bs" "payload \<noteq> []"
  shows "decrypt_payload payload keyStr rnd now =
         (case JSON_parse payload of
            Inl e \<Rightarrow> Inr JNull
          | Inr data \<Rightarrow> (case check_fresh data now of Inl e \<Rightarrow> Inr JNull | Inr r \<Rightarrow> Inr r))"
  unfolding decrypt_payload_def encrypt_payload_blob [OF assms(3,1)]
  by (simp add: decrypt_blob [OF assms])

lemma json_string_parse: "JSON_parse (QuoteJSONString s) = Inr (JStr s)"
proof -
  have "json_lex (QuoteJSONString s @ []) = Some [TValue (JStr s)]"
    by (simp only: json_lex_quoted json_lex_Nil) simp
  then show ?thesis by (simp add: JSON_parse_def step_def open_or_place_def)
qed

lemma json_string_bytes: "\<exists>bs. utf8_encode (QuoteJSONString s) = Some bs"
proof -
  have "encodable (map uint (QuoteJSONString s) @ [])"
    by (simp only: encodable_quoted encodable_Nil)
  then show ?thesis by (simp add: utf8_encode_def encodable_def)
qed

lemma key16_length:
  "length [0x30, 0x31, 0x32, 0x33, 0x34, 0x35, 0x36, 0x37, 0x38, 0x39, 0x61, 0x62, 0x63, 0x64,
       0x65, 0x66 :: byte] = 4 * 4"
  by simp

lemma decrypt_json_string:
  "decrypt_payload (QuoteJSONString s) key16 rnd now = Inr JUndefined"
proof -
  obtain bs where bs: "utf8_encode (QuoteJSONString s) = Some bs"
    using json_string_bytes by blast
  have n: "QuoteJSONString s \<noteq> []" by (simp add: QuoteJSONString_def)
  show ?thesis
    by (simp add: decrypt_payload_result [OF key16_bytes key16_length bs n] json_string_parse
          check_fresh_def js_get_def truthy_def)
qed

lemma short_blob: "sigBytes (Base64_parse (js_of ''AAAA'')) = 3"
  by code_simp

lemma utf8_encode_lone_surrogate: "utf8_encode [0xD800] = None"
  by (simp add: utf8_encode_def)

text \<open>The JSON text \<^verbatim>\<open>{"v":"s3cr3t"}\<close>, an object with no member \<^verbatim>\<open>t\<close>.\<close>

definition payload_without_t :: jsstring where
  "payload_without_t =
     js_of ''{'' @ QuoteJSONString (js_of ''v'') @ js_of '':'' @ QuoteJSONString secret @ js_of ''}''"

lemma payload_without_t_parse:
  "JSON_parse payload_without_t = Inr (JObj [(js_of ''v'', JStr secret)])"
proof -
  have p: "payload_without_t = 0x7B # (QuoteJSONString (js_of ''v'') @ 0x3A # (QuoteJSONString secret @ 0x7D # []))"
    by (simp add: payload_without_t_def js_of_def)
  have "json_lex payload_without_t =
        Some [TLBrace, TValue (JStr (js_of ''v'')), TColon, TValue (JStr secret), TRBrace]"
    unfolding p by (simp only: json_lex_punct json_lex_quoted json_lex_Nil) simp
  then show ?thesis
    by (simp add: JSON_parse_def step_def open_or_place_def member_name_def close_object_def)
qed

lemma payload_without_t_bytes: "\<exists>bs. utf8_encode payload_without_t = Some bs"
proof -
  have p: "payload_without_t = 0x7B # (QuoteJSONString (js_of ''v'') @ 0x3A # (QuoteJSONString secret @ 0x7D # []))"
    by (simp add: payload_without_t_def js_of_def)
  have "encodable (map uint payload_without_t)"
    unfolding p by (simp add: encodable_scalar encodable_quoted)
  then show ?thesis by (simp add: utf8_encode_def encodable_def)
qed

subsection \<open>The key schedules of one key\<close>

text \<open>
  The key schedule and the inverse key schedule that \<^verbatim>\<open>_doReset\<close> computes from the 16
  bytes \<^verbatim>\<open>0123456789abcdef\<close>, and the decryption of the block of zeros under them,
  evaluated step by step.
\<close>

definition schedule16 :: "word32 list" where
  "schedule16 =
    [0x30313233, 0x34353637, 0x38396162, 0x63646566, 0x727C01C8, 0x464937FF,
     0x7E70569D, 0x1D1433FB, 0x8ABF0E6C, 0xCCF63993, 0xB2866F0E, 0xAF925CF5,
     0xC1F5E815, 0x0D03D186, 0xBF85BE88, 0x1017E27D, 0x396D17DF, 0x346EC659,
     0x8BEB78D1, 0x9BFC9AAC, 0x99D586CB, 0xADBB4092, 0x26503843, 0xBDACA2EF,
     0x28EF59B1, 0x85541923, 0xA3042160, 0x1EA8838F, 0xAA032AC3, 0x2F5733E0,
     0x8C531280, 0x92FB910F, 0x25825C8C, 0x0AD56F6C, 0x86867DEC, 0x147DECE3,
     0xC14C4D76, 0xCB99221A, 0x4D1F5FF6, 0x5962B315, 0x5D2114BD, 0x96B836A7,
     0xDBA76951, 0x82C5DA44]"

definition inv_schedule16 :: "word32 list" where
  "inv_schedule16 =
    [0x5D2114BD, 0x82C5DA44, 0xDBA76951, 0x96B836A7, 0xB7D74C9A, 0xB3057853,
     0xC3743C70, 0xF1D9CC8E, 0x6DFFFA1F, 0x70714423, 0x32ADF0FE, 0x460E8014,
     0xA30AA34A, 0x42DCB4DD, 0x74A370EA, 0x2BF17A0B, 0x2EB701B7, 0x367FC437,
     0x5F520AE1, 0x88FBD941, 0x7402691E, 0x692DCED6, 0xD7A9D3A0, 0xA64CD8F6,
     0x397734E6, 0xBE841D76, 0x71E50B56, 0xD24EB1E8, 0xD6B976D0, 0xCF611620,
     0xA3ABBABE, 0xEB39850E, 0x1F7E3503, 0x6CCAAC9E, 0x48923FB0, 0x3D80F3DE,
     0x1CC5FAE4, 0x2458932E, 0x7512CC6E, 0x22FEC6DD, 0x30313233, 0x63646566,
     0x38396162, 0x34353637]"

lemma key_schedule_loop_add:
  "key_schedule_loop kw ksz (a + b) r ks =
   key_schedule_loop kw ksz b (r + int a) (key_schedule_loop kw ksz a r ks)"
  by (induction a arbitrary: r ks) (simp_all add: algebra_simps)

lemma key_schedule_chunk:
  assumes "key_schedule_loop kw ksz 4 r ks = ks'"
  shows "key_schedule_loop kw ksz (n + 4) r ks = key_schedule_loop kw ksz n (r + 4) ks'"
  using key_schedule_loop_add [of kw ksz 4 n r ks] assms by (simp add: add.commute)

lemma schedule16_rows_0:
  "key_schedule_loop [0x30313233, 0x34353637, 0x38396162, 0x63646566] 4 4 0
     [] =
     [0x30313233, 0x34353637, 0x38396162, 0x63646566]"
  by code_simp

lemma schedule16_rows_4:
  "key_schedule_loop [0x30313233, 0x34353637, 0x38396162, 0x63646566] 4 4 4
     [0x30313233, 0x34353637, 0x38396162, 0x63646566] =
     [0x30313233, 0x34353637, 0x38396162, 0x63646566, 0x727C01C8, 0x464937FF,
      0x7E70569D, 0x1D1433FB]"
  by code_simp

lemma schedule16_rows_8:
  "key_schedule_loop [0x30313233, 0x34353637, 0x38396162, 0x63646566] 4 4 8
     [0x30313233, 0x34353637, 0x38396162, 0x63646566, 0x727C01C8, 0x464937FF,
      0x7E70569D, 0x1D1433FB] =
     [0x30313233, 0x34353637, 0x38396162, 0x63646566, 0x727C01C8, 0x464937FF,
      0x7E70569D, 0x1D1433FB, 0x8ABF0E6C, 0xCCF63993, 0xB2866F0E, 0xAF925CF5]"
  by code_simp

lemma schedule16_rows_12:
  "key_schedule_loop [0x30313233, 0x34353637, 0x38396162, 0x63646566] 4 4 12
     [0x30313233, 0x34353637, 0x38396162, 0x63646566, 0x727C01C8, 0x464937FF,
      0x7E70569D, 0x1D1433FB, 0x8ABF0E6C, 0xCCF63993, 0xB2866F0E, 0xAF925CF5] =
     [0x30313233, 0x34353637, 0x38396162, 0x63646566, 0x727C01C8, 0x464937FF,
      0x7E70569D, 0x1D1433FB, 0x8ABF0E6C, 0xCCF63993, 0xB2866F0E, 0xAF925CF5,
      0xC1F5E815, 0x0D03D186, 0xBF85BE88, 0x1017E27D]"
  by code_simp

lemma schedule16_rows_16:
  "key_schedule_loop [0x30313233, 0x34353637, 0x38396162, 0x63646566] 4 4 16
     [0x30313233, 0x34353637, 0x38396162, 0x63646566, 0x727C01C8, 0x464937FF,
      0x7E70569D, 0x1D1433FB, 0x8ABF0E6C, 0xCCF63993, 0xB2866F0E, 0xAF925CF5,
      0xC1F5E815, 0x0D03D186, 0xBF85BE88, 0x1017E27D] =
     [0x30313233, 0x34353637, 0x38396162, 0x63646566, 0x727C01C8, 0x464937FF,
      0x7E70569D, 0x1D1433FB, 0x8ABF0E6C, 0xCCF63993, 0xB2866F0E, 0xAF925CF5,
      0xC1F5E815, 0x0D03D186, 0xBF85BE88, 0x1017E27D, 0x396D17DF, 0x346EC659,
      0x8BEB78D1, 0x9BFC9AAC]"
  by code_simp

lemma schedule16_rows_20:
  "key_schedule_loop [0x30313233, 0x34353637, 0x38396162, 0x63646566] 4 4 20
     [0x30313233, 0x34353637, 0x38396162, 0x63646566, 0x727C01C8, 0x464937FF,
      0x7E70569D, 0x1D1433FB, 0x8ABF0E6C, 0xCCF63993, 0xB2866F0E, 0xAF925CF5,
      0xC1F5E815, 0x0D03D186, 0xBF85BE88, 0x1017E27D, 0x396D17DF, 0x346EC659,
      0x8BEB78D1, 0x9BFC9AAC] =
     [0x30313233, 0x34353637, 0x38396162, 0x63646566, 0x727C01C8, 0x464937FF,
      0x7E70569D, 0x1D1433FB, 0x8ABF0E6C, 0xCCF63993, 0xB2866F0E, 0xAF925CF5,
      0xC1F5E815, 0x0D03D186, 0xBF85BE88, 0x1017E27D, 0x396D17DF, 0x346EC659,
      0x8BEB78D1, 0x9BFC9AAC, 0x99D586CB, 0xADBB4092, 0x26503843, 0xBDACA2EF]"
  by code_simp

lemma schedule16_rows_24:
  "key_schedule_loop [0x30313233, 0x34353637, 0x38396162, 0x63646566] 4 4 24
     [0x30313233, 0x34353637, 0x38396162, 0x63646566, 0x727C01C8, 0x464937FF,
      0x7E70569D, 0x1D1433FB, 0x8ABF0E6C, 0xCCF63993, 0xB2866F0E, 0xAF925CF5,
      0xC1F5E815, 0x0D03D186, 0xBF85BE88, 0x1017E27D, 0x396D17DF, 0x346EC659,
      0x8BEB78D1, 0x9BFC9AAC, 0x99D586CB, 0xADBB4092, 0x26503843, 0xBDACA2EF] =
     [0x30313233, 0x34353637, 0x38396162, 0x63646566, 0x727C01C8, 0x464937FF,
      0x7E70569D, 0x1D1433FB, 0x8ABF0E6C, 0xCCF63993, 0xB2866F0E, 0xAF925CF5,
      0xC1F5E815, 0x0D03D186, 0xBF85BE88, 0x1017E27D, 0x396D17DF, 0x346EC659,
      0x8BEB78D1, 0x9BFC9AAC, 0x99D586CB, 0xADBB4092, 0x26503843, 0xBDACA2EF,
      0x28EF59B1, 0x85541923, 0xA3042160, 0x1EA8838F]"
  by code_simp

lemma schedule16_rows_28:
  "key_schedule_loop [0x30313233, 0x34353637, 0x38396162, 0x63646566] 4 4 28
     [0x30313233, 0x34353637, 0x38396162, 0x63646566, 0x727C01C8, 0x464937FF,
      0x7E70569D, 0x1D1433FB, 0x8ABF0E6C, 0xCCF63993, 0xB2866F0E, 0xAF925CF5,
      0xC1F5E815, 0x0D03D186, 0xBF85BE88, 0x1017E27D, 0x396D17DF, 0x346EC659,
      0x8BEB78D1, 0x9BFC9AAC, 0x99D586CB, 0xADBB4092, 0x26503843, 0xBDACA2EF,
      0x28EF59B1, 0x85541923, 0xA3042160, 0x1EA8838F] =
     [0x30313233, 0x34353637, 0x38396162, 0x63646566, 0x727C01C8, 0x464937FF,
      0x7E70569D, 0x1D1433FB, 0x8ABF0E6C, 0xCCF63993, 0xB2866F0E, 0xAF925CF5,
      0xC1F5E815, 0x0D03D186, 0xBF85BE88, 0x1017E27D, 0x396D17DF, 0x346EC659,
      0x8BEB78D1, 0x9BFC9AAC, 0x99D586CB, 0xADBB4092, 0x26503843, 0xBDACA2EF,
      0x28EF59B1, 0x85541923, 0xA3042160, 0x1EA8838F, 0xAA032AC3, 0x2F5733E0,
      0x8C531280, 0x92FB910F]"
  by code_simp

lemma schedule16_rows_32:
  "key_schedule_loop [0x30313233, 0x34353637, 0x38396162, 0x63646566] 4 4 32
     [0x30313233, 0x34353637, 0x38396162, 0x63646566, 0x727C01C8, 0x464937FF,
      0x7E70569D, 0x1D1433FB, 0x8ABF0E6C, 0xCCF63993, 0xB2866F0E, 0xAF925CF5,
      0xC1F5E815, 0x0D03D186, 0xBF85BE88, 0x1017E27D, 0x396D17DF, 0x346EC659,
      0x8BEB78D1, 0x9BFC9AAC, 0x99D586CB, 0xADBB4092, 0x26503843, 0xBDACA2EF,
      0x28EF59B1, 0x85541923, 0xA3042160, 0x1EA8838F, 0xAA032AC3, 0x2F5733E0,
      0x8C531280, 0x92FB910F] =
     [0x30313233, 0x34353637, 0x38396162, 0x63646566, 0x727C01C8, 0x464937FF,
      0x7E70569D, 0x1D1433FB, 0x8ABF0E6C, 0xCCF63993, 0xB2866F0E, 0xAF925CF5,
      0xC1F5E815, 0x0D03D186, 0xBF85BE88, 0x1017E27D, 0x396D17DF, 0x346EC659,
      0x8BEB78D1, 0x9BFC9AAC, 0x99D586CB, 0xADBB4092, 0x26503843, 0xBDACA2EF,
      0x28EF59B1, 0x85541923, 0xA3042160, 0x1EA8838F, 0xAA032AC3, 0x2F5733E0,
      0x8C531280, 0x92FB910F, 0x25825C8C, 0x0AD56F6C, 0x86867DEC, 0x147DECE3]"
  by code_simp

lemma schedule16_rows_36:
  "key_schedule_loop [0x30313233, 0x34353637, 0x38396162, 0x63646566] 4 4 36
     [0x30313233, 0x34353637, 0x38396162, 0x63646566, 0x727C01C8, 0x464937FF,
      0x7E70569D, 0x1D1433FB, 0x8ABF0E6C, 0xCCF63993, 0xB2866F0E, 0xAF925CF5,
      0xC1F5E815, 0x0D03D186, 0xBF85BE88, 0x1017E27D, 0x396D17DF, 0x346EC659,
      0x8BEB78D1, 0x9BFC9AAC, 0x99D586CB, 0xADBB4092, 0x26503843, 0xBDACA2EF,
      0x28EF59B1, 0x85541923, 0xA3042160, 0x1EA8838F, 0xAA032AC3, 0x2F5733E0,
      0x8C531280, 0x92FB910F, 0x25825C8C, 0x0AD56F6C, 0x86867DEC, 0x147DECE3] =
     [0x30313233, 0x34353637, 0x38396162, 0x63646566, 0x727C01C8, 0x464937FF,
      0x7E70569D, 0x1D1433FB, 0x8ABF0E6C, 0xCCF63993, 0xB2866F0E, 0xAF925CF5,
      0xC1F5E815, 0x0D03D186, 0xBF85BE88, 0x1017E27D, 0x396D17DF, 0x346EC659,
      0x8BEB78D1, 0x9BFC9AAC, 0x99D586CB, 0xADBB4092, 0x26503843, 0xBDACA2EF,
      0x28EF59B1, 0x85541923, 0xA3042160, 0x1EA8838F, 0xAA032AC3, 0x2F5733E0,
      0x8C531280, 0x92FB910F, 0x25825C8C, 0x0AD56F6C, 0x86867DEC, 0x147DECE3,
      0xC14C4D76, 0xCB99221A, 0x4D1F5FF6, 0x5962B315]"
  by code_simp

lemma schedule16_rows_40:
  "key_schedule_loop [0x30313233, 0x34353637, 0x38396162, 0x63646566] 4 4 40
     [0x30313233, 0x34353637, 0x38396162, 0x63646566, 0x727C01C8, 0x464937FF,
      0x7E70569D, 0x1D1433FB, 0x8ABF0E6C, 0xCCF63993, 0xB2866F0E, 0xAF925CF5,
      0xC1F5E815, 0x0D03D186, 0xBF85BE88, 0x1017E27D, 0x396D17DF, 0x346EC659,
      0x8BEB78D1, 0x9BFC9AAC, 0x99D586CB, 0xADBB4092, 0x26503843, 0xBDACA2EF,
      0x28EF59B1, 0x85541923, 0xA3042160, 0x1EA8838F, 0xAA032AC3, 0x2F5733E0,
      0x8C531280, 0x92FB910F, 0x25825C8C, 0x0AD56F6C, 0x86867DEC, 0x147DECE3,
      0xC14C4D76, 0xCB99221A, 0x4D1F5FF6, 0x5962B315] =
     [0x30313233, 0x34353637, 0x38396162, 0x63646566, 0x727C01C8, 0x464937FF,
      0x7E70569D, 0x1D1433FB, 0x8ABF0E6C, 0xCCF63993, 0xB2866F0E, 0xAF925CF5,
      0xC1F5E815, 0x0D03D186, 0xBF85BE88, 0x1017E27D, 0x396D17DF, 0x346EC659,
      0x8BEB78D1, 0x9BFC9AAC, 0x99D586CB, 0xADBB4092, 0x26503843, 0xBDACA2EF,
      0x28EF59B1, 0x85541923, 0xA3042160, 0x1EA8838F, 0xAA032AC3, 0x2F5733E0,
      0x8C531280, 0x92FB910F, 0x25825C8C, 0x0AD56F6C, 0x86867DEC, 0x147DECE3,
      0xC14C4D76, 0xCB99221A, 0x4D1F5FF6, 0x5962B315, 0x5D2114BD, 0x96B836A7,
      0xDBA76951, 0x82C5DA44]"
  by code_simp

lemma schedule16_loop:
  "key_schedule_loop [0x30313233, 0x34353637, 0x38396162, 0x63646566] 4 44 0 [] = schedule16"
proof -
  have e0: "key_schedule_loop [0x30313233, 0x34353637, 0x38396162, 0x63646566] 4 44 0
     [] =
     key_schedule_loop [0x30313233, 0x34353637, 0x38396162, 0x63646566] 4 40 4
     [0x30313233, 0x34353637, 0x38396162, 0x63646566]"
    using key_schedule_chunk [OF schedule16_rows_0, of 40] by simp
  have e1: "key_schedule_loop [0x30313233, 0x34353637, 0x38396162, 0x63646566] 4 40 4
     [0x30313233, 0x34353637, 0x38396162, 0x63646566] =
     key_schedule_loop [0x30313233, 0x34353637, 0x38396162, 0x63646566] 4 36 8
     [0x30313233, 0x34353637, 0x38396162, 0x63646566, 0x727C01C8, 0x464937FF,
      0x7E70569D, 0x1D1433FB]"
    using key_schedule_chunk [OF schedule16_rows_4, of 36] by simp
  have e2: "key_schedule_loop [0x30313233, 0x34353637, 0x38396162, 0x63646566] 4 36 8
     [0x30313233, 0x34353637, 0x38396162, 0x63646566, 0x727C01C8, 0x464937FF,
      0x7E70569D, 0x1D1433FB] =
     key_schedule_loop [0x30313233, 0x34353637, 0x38396162, 0x63646566] 4 32 12
     [0x30313233, 0x34353637, 0x38396162, 0x63646566, 0x727C01C8, 0x464937FF,
      0x7E70569D, 0x1D1433FB, 0x8ABF0E6C, 0xCCF63993, 0xB2866F0E, 0xAF925CF5]"
    using key_schedule_chunk [OF schedule16_rows_8, of 32] by simp
  have e3: "key_schedule_loop [0x30313233, 0x34353637, 0x38396162, 0x63646566] 4 32 12
     [0x30313233, 0x34353637, 0x38396162, 0x63646566, 0x727C01C8, 0x464937FF,
      0x7E70569D, 0x1D1433FB, 0x8ABF0E6C, 0xCCF63993, 0xB2866F0E, 0xAF925CF5] =
     key_schedule_loop [0x30313233, 0x34353637, 0x38396162, 0x63646566] 4 28 16
     [0x30313233, 0x34353637, 0x38396162, 0x63646566, 0x727C01C8, 0x464937FF,
      0x7E70569D, 0x1D1433FB, 0x8ABF0E6C, 0xCCF63993, 0xB2866F0E, 0xAF925CF5,
      0xC1F5E815, 0x0D03D186, 0xBF85BE88, 0x1017E27D]"
    using key_schedule_chunk [OF schedule16_rows_12, of 28] by simp
  have e4: "key_schedule_loop [0x30313233, 0x34353637, 0x38396162, 0x63646566] 4 28 16
     [0x30313233, 0x34353637, 0x38396162, 0x63646566, 0x727C01C8, 0x464937FF,
      0x7E70569D, 0x1D1433FB, 0x8ABF0E6C, 0xCCF63993, 0xB2866F0E, 0xAF925CF5,
      0xC1F5E815, 0x0D03D186, 0xBF85BE88, 0x1017E27D] =
     key_schedule_loop [0x30313233, 0x34353637, 0x38396162, 0x63646566] 4 24 20
     [0x30313233, 0x34353637, 0x38396162, 0x63646566, 0x727C01C8, 0x464937FF,
      0x7E70569D, 0x1D1433FB, 0x8ABF0E6C, 0xCCF63993, 0xB2866F0E, 0xAF925CF5,
      0xC1F5E815, 0x0D03D186, 0xBF85BE88, 0x1017E27D, 0x396D17DF, 0x346EC659,
      0x8BEB78D1, 0x9BFC9AAC]"
    using key_schedule_chunk [OF schedule16_rows_16, of 24] by simp
  have e5: "key_schedule_loop [0x30313233, 0x34353637, 0x38396162, 0x63646566] 4 24 20
     [0x30313233, 0x34353637, 0x38396162, 0x63646566, 0x727C01C8, 0x464937FF,
      0x7E70569D, 0x1D1433FB, 0x8ABF0E6C, 0xCCF63993, 0xB2866F0E, 0xAF925CF5,
      0xC1F5E815, 0x0D03D186, 0xBF85BE88, 0x1017E27D, 0x396D17DF, 0x346EC659,
      0x8BEB78D1, 0x9BFC9AAC] =
     key_schedule_loop [0x30313233, 0x34353637, 0x38396162, 0x63646566] 4 20 24
     [0x30313233, 0x34353637, 0x38396162, 0x63646566, 0x727C01C8, 0x464937FF,
      0x7E70569D, 0x1D1433FB, 0x8ABF0E6C, 0xCCF63993, 0xB2866F0E, 0xAF925CF5,
      0xC1F5E815, 0x0D03D186, 0xBF85BE88, 0x1017E27D, 0x396D17DF, 0x346EC659,
      0x8BEB78D1, 0x9BFC9AAC, 0x99D586CB, 0xADBB4092, 0x26503843, 0xBDACA2EF]"
    using key_schedule_chunk [OF schedule16_rows_20, of 20] by simp
  have e6: "key_schedule_loop [0x30313233, 0x34353637, 0x38396162, 0x63646566] 4 20 24
     [0x30313233, 0x34353637, 0x38396162, 0x63646566, 0x727C01C8, 0x464937FF,
      0x7E70569D, 0x1D1433FB, 0x8ABF0E6C, 0xCCF63993, 0xB2866F0E, 0xAF925CF5,
      0xC1F5E815, 0x0D03D186, 0xBF85BE88, 0x1017E27D, 0x396D17DF, 0x346EC659,
      0x8BEB78D1, 0x9BFC9AAC, 0x99D586CB, 0xADBB4092, 0x26503843, 0xBDACA2EF] =
     key_schedule_loop [0x30313233, 0x34353637, 0x38396162, 0x63646566] 4 16 28
     [0x30313233, 0x34353637, 0x38396162, 0x63646566, 0x727C01C8, 0x464937FF,
      0x7E70569D, 0x1D1433FB, 0x8ABF0E6C, 0xCCF63993, 0xB2866F0E, 0xAF925CF5,
      0xC1F5E815, 0x0D03D186, 0xBF85BE88, 0x1017E27D, 0x396D17DF, 0x346EC659,
      0x8BEB78D1, 0x9BFC9AAC, 0x99D586CB, 0xADBB4092, 0x26503843, 0xBDACA2EF,
      0x28EF59B1, 0x85541923, 0xA3042160, 0x1EA8838F]"
    using key_schedule_chunk [OF schedule16_rows_24, of 16] by simp
  have e7: "key_schedule_loop [0x30313233, 0x34353637, 0x38396162, 0x63646566] 4 16 28
     [0x30313233, 0x34353637, 0x38396162, 0x63646566, 0x727C01C8, 0x464937FF,
      0x7E70569D, 0x1D1433FB, 0x8ABF0E6C, 0xCCF63993, 0xB2866F0E, 0xAF925CF5,
      0xC1F5E815, 0x0D03D186, 0xBF85BE88, 0x1017E27D, 0x396D17DF, 0x346EC659,
      0x8BEB78D1, 0x9BFC9AAC, 0x99D586CB, 0xADBB4092, 0x26503843, 0xBDACA2EF,
      0x28EF59B1, 0x85541923, 0xA3042160, 0x1EA8838F] =
     key_schedule_loop [0x30313233, 0x34353637, 0x38396162, 0x63646566] 4 12 32
     [0x30313233, 0x34353637, 0x38396162, 0x63646566, 0x727C01C8, 0x464937FF,
      0x7E70569D, 0x1D1433FB, 0x8ABF0E6C, 0xCCF63993, 0xB2866F0E, 0xAF925CF5,
      0xC1F5E815, 0x0D03D186, 0xBF85BE88, 0x1017E27D, 0x396D17DF, 0x346EC659,
      0x8BEB78D1, 0x9BFC9AAC, 0x99D586CB, 0xADBB4092, 0x26503843, 0xBDACA2EF,
      0x28EF59B1, 0x85541923, 0xA3042160, 0x1EA8838F, 0xAA032AC3, 0x2F5733E0,
      0x8C531280, 0x92FB910F]"
    using key_schedule_chunk [OF schedule16_rows_28, of 12] by simp
  have e8: "key_schedule_loop [0x30313233, 0x34353637, 0x38396162, 0x63646566] 4 12 32
     [0x30313233, 0x34353637, 0x38396162, 0x63646566, 0x727C01C8, 0x464937FF,
      0x7E70569D, 0x1D1433FB, 0x8ABF0E6C, 0xCCF63993, 0xB2866F0E, 0xAF925CF5,
      0xC1F5E815, 0x0D03D186, 0xBF85BE88, 0x1017E27D, 0x396D17DF, 0x346EC659,
      0x8BEB78D1, 0x9BFC9AAC, 0x99D586CB, 0xADBB4092, 0x26503843, 0xBDACA2EF,
      0x28EF59B1, 0x85541923, 0xA3042160, 0x1EA8838F, 0xAA032AC3, 0x2F5733E0,
      0x8C531280, 0x92FB910F] =
     key_schedule_loop [0x30313233, 0x34353637, 0x38396162, 0x63646566] 4 8 36
     [0x30313233, 0x34353637, 0x38396162, 0x63646566, 0x727C01C8, 0x464937FF,
      0x7E70569D, 0x1D1433FB, 0x8ABF0E6C, 0xCCF63993, 0xB2866F0E, 0xAF925CF5,
      0xC1F5E815, 0x0D03D186, 0xBF85BE88, 0x1017E27D, 0x396D17DF, 0x346EC659,
      0x8BEB78D1, 0x9BFC9AAC, 0x99D586CB, 0xADBB4092, 0x26503843, 0xBDACA2EF,
      0x28EF59B1, 0x85541923, 0xA3042160, 0x1EA8838F, 0xAA032AC3, 0x2F5733E0,
      0x8C531280, 0x92FB910F, 0x25825C8C, 0x0AD56F6C, 0x86867DEC, 0x147DECE3]"
    using key_schedule_chunk [OF schedule16_rows_32, of 8] by simp
  have e9: "key_schedule_loop [0x30313233, 0x34353637, 0x38396162, 0x63646566] 4 8 36
     [0x30313233, 0x34353637, 0x38396162, 0x63646566, 0x727C01C8, 0x464937FF,
      0x7E70569D, 0x1D1433FB, 0x8ABF0E6C, 0xCCF63993, 0xB2866F0E, 0xAF925CF5,
      0xC1F5E815, 0x0D03D186, 0xBF85BE88, 0x1017E27D, 0x396D17DF, 0x346EC659,
      0x8BEB78D1, 0x9BFC9AAC, 0x99D586CB, 0xADBB4092, 0x26503843, 0xBDACA2EF,
      0x28EF59B1, 0x85541923, 0xA3042160, 0x1EA8838F, 0xAA032AC3, 0x2F5733E0,
      0x8C531280, 0x92FB910F, 0x25825C8C, 0x0AD56F6C, 0x86867DEC, 0x147DECE3] =
     key_schedule_loop [0x30313233, 0x34353637, 0x38396162, 0x63646566] 4 4 40
     [0x30313233, 0x34353637, 0x38396162, 0x63646566, 0x727C01C8, 0x464937FF,
      0x7E70569D, 0x1D1433FB, 0x8ABF0E6C, 0xCCF63993, 0xB2866F0E, 0xAF925CF5,
      0xC1F5E815, 0x0D03D186, 0xBF85BE88, 0x1017E27D, 0x396D17DF, 0x346EC659,
      0x8BEB78D1, 0x9BFC9AAC, 0x99D586CB, 0xADBB4092, 0x26503843, 0xBDACA2EF,
      0x28EF59B1, 0x85541923, 0xA3042160, 0x1EA8838F, 0xAA032AC3, 0x2F5733E0,
      0x8C531280, 0x92FB910F, 0x25825C8C, 0x0AD56F6C, 0x86867DEC, 0x147DECE3,
      0xC14C4D76, 0xCB99221A, 0x4D1F5FF6, 0x5962B315]"
    using key_schedule_chunk [OF schedule16_rows_36, of 4] by simp
  have e10: "key_schedule_loop [0x30313233, 0x34353637, 0x38396162, 0x63646566] 4 4 40
     [0x30313233, 0x34353637, 0x38396162, 0x63646566, 0x727C01C8, 0x464937FF,
      0x7E70569D, 0x1D1433FB, 0x8ABF0E6C, 0xCCF63993, 0xB2866F0E, 0xAF925CF5,
      0xC1F5E815, 0x0D03D186, 0xBF85BE88, 0x1017E27D, 0x396D17DF, 0x346EC659,
      0x8BEB78D1, 0x9BFC9AAC, 0x99D586CB, 0xADBB4092, 0x26503843, 0xBDACA2EF,
      0x28EF59B1, 0x85541923, 0xA3042160, 0x1EA8838F, 0xAA032AC3, 0x2F5733E0,
      0x8C531280, 0x92FB910F, 0x25825C8C, 0x0AD56F6C, 0x86867DEC, 0x147DECE3,
      0xC14C4D76, 0xCB99221A, 0x4D1F5FF6, 0x5962B315] =
     key_schedule_loop [0x30313233, 0x34353637, 0x38396162, 0x63646566] 4 0 44
     [0x30313233, 0x34353637, 0x38396162, 0x63646566, 0x727C01C8, 0x464937FF,
      0x7E70569D, 0x1D1433FB, 0x8ABF0E6C, 0xCCF63993, 0xB2866F0E, 0xAF925CF5,
      0xC1F5E815, 0x0D03D186, 0xBF85BE88, 0x1017E27D, 0x396D17DF, 0x346EC659,
      0x8BEB78D1, 0x9BFC9AAC, 0x99D586CB, 0xADBB4092, 0x26503843, 0xBDACA2EF,
      0x28EF59B1, 0x85541923, 0xA3042160, 0x1EA8838F, 0xAA032AC3, 0x2F5733E0,
      0x8C531280, 0x92FB910F, 0x25825C8C, 0x0AD56F6C, 0x86867DEC, 0x147DECE3,
      0xC14C4D76, 0xCB99221A, 0x4D1F5FF6, 0x5962B315, 0x5D2114BD, 0x96B836A7,
      0xDBA76951, 0x82C5DA44]"
    using key_schedule_chunk [OF schedule16_rows_40, of 0] by simp
  show ?thesis
    unfolding schedule16_def
    by (simp only: e0 e1 e2 e3 e4 e5 e6 e7 e8 e9 e10 key_schedule_loop.simps)
qed

lemma inv_schedule16_rows:
  "map (inv_key_schedule_row schedule16 44) [0..43] = inv_schedule16"
  unfolding schedule16_def inv_schedule16_def by code_simp

lemma key16_words:
  "pack_bytes [0x30, 0x31, 0x32, 0x33, 0x34, 0x35, 0x36, 0x37, 0x38, 0x39, 0x61, 0x62, 0x63, 0x64, 0x65, 0x66] =
   [0x30313233, 0x34353637, 0x38396162, 0x63646566]"
  by code_simp

lemma AES_doReset_key16:
  "AES_doReset (Latin1_parse [0x30, 0x31, 0x32, 0x33, 0x34, 0x35, 0x36, 0x37, 0x38, 0x39, 0x61, 0x62, 0x63, 0x64, 0x65, 0x66]) =
   \<lparr>nRounds = 10, keySchedule = schedule16, invKeySchedule = inv_schedule16\<rparr>"
proof -
  have a: "sigBytes (Latin1_parse [0x30, 0x31, 0x32, 0x33, 0x34, 0x35, 0x36, 0x37, 0x38, 0x39, 0x61, 0x62, 0x63, 0x64, 0x65, 0x66]) = 16"
    by (simp add: Latin1_parse_def)
  have b: "words (Latin1_parse [0x30, 0x31, 0x32, 0x33, 0x34, 0x35, 0x36, 0x37, 0x38, 0x39, 0x61, 0x62, 0x63, 0x64, 0x65, 0x66]) =
    [0x30313233, 0x34353637, 0x38396162, 0x63646566]"
    by (simp add: Latin1_parse_def key16_words del: pack_bytes.simps)
  have n: "rat_of_int 16 / 4 = 4" "(4::rat) + 6 = 10" "(16::int) + 28 = 44" "nat 44 = 44"
    "(44::int) - 1 = 43"
    by simp_all
  show ?thesis
    unfolding AES_doReset_def Let_def a b
    by (simp only: n schedule16_loop inv_schedule16_rows)
qed

lemma crypt_rounds_step:
  "0 < n \<Longrightarrow> crypt_rounds rnd ks n r s =
     crypt_rounds rnd ks (n - 1) (r + 4) (xor_block (rnd s) (key_block ks r))"
  by (cases n) simp_all

lemma decrypt16_first:
  "xor_block (swap13 (0, 0, 0, 0)) (key_block inv_schedule16 0) =
   (0x5D2114BD, 0x82C5DA44, 0xDBA76951, 0x96B836A7)"
  unfolding inv_schedule16_def by code_simp

lemma decrypt16_round_1:
  "xor_block (mix_round INV_SUB_MIX_0 INV_SUB_MIX_1 INV_SUB_MIX_2 INV_SUB_MIX_3
      (0x5D2114BD, 0x82C5DA44, 0xDBA76951, 0x96B836A7))
     (key_block inv_schedule16 4) =
   (0x149D538B, 0x891295E2, 0x9E44556C, 0x2DDED70A)"
  unfolding inv_schedule16_def by code_simp

lemma decrypt16_round_2:
  "xor_block (mix_round INV_SUB_MIX_0 INV_SUB_MIX_1 INV_SUB_MIX_2 INV_SUB_MIX_3
      (0x149D538B, 0x891295E2, 0x9E44556C, 0x2DDED70A))
     (key_block inv_schedule16 8) =
   (0xA7E6855F, 0xC3B97DD6, 0x126B0FCF, 0xD8EF6617)"
  unfolding inv_schedule16_def by code_simp

lemma decrypt16_round_3:
  "xor_block (mix_round INV_SUB_MIX_0 INV_SUB_MIX_1 INV_SUB_MIX_2 INV_SUB_MIX_3
      (0xA7E6855F, 0xC3B97DD6, 0x126B0FCF, 0xD8EF6617))
     (key_block inv_schedule16 12) =
   (0x18BF36FF, 0xF418205A, 0x6E92DE1A, 0x0D155176)"
  unfolding inv_schedule16_def by code_simp

lemma decrypt16_round_4:
  "xor_block (mix_round INV_SUB_MIX_0 INV_SUB_MIX_1 INV_SUB_MIX_2 INV_SUB_MIX_3
      (0x18BF36FF, 0xF418205A, 0x6E92DE1A, 0x0D155176))
     (key_block inv_schedule16 16) =
   (0xEB435145, 0x8FA62A7A, 0x199C3D56, 0x4F2E9903)"
  unfolding inv_schedule16_def by code_simp

lemma decrypt16_round_5:
  "xor_block (mix_round INV_SUB_MIX_0 INV_SUB_MIX_1 INV_SUB_MIX_2 INV_SUB_MIX_3
      (0xEB435145, 0x8FA62A7A, 0x199C3D56, 0x4F2E9903))
     (key_block inv_schedule16 20) =
   (0xA3F35CAA, 0x95645F0C, 0xFA181B74, 0x8FD85910)"
  unfolding inv_schedule16_def by code_simp

lemma decrypt16_round_6:
  "xor_block (mix_round INV_SUB_MIX_0 INV_SUB_MIX_1 INV_SUB_MIX_2 INV_SUB_MIX_3
      (0xA3F35CAA, 0x95645F0C, 0xFA181B74, 0x8FD85910))
     (key_block inv_schedule16 24) =
   (0xCA2A63DA, 0x336EEF0D, 0x0AA6FD87, 0x275435C0)"
  unfolding inv_schedule16_def by code_simp

lemma decrypt16_round_7:
  "xor_block (mix_round INV_SUB_MIX_0 INV_SUB_MIX_1 INV_SUB_MIX_2 INV_SUB_MIX_3
      (0xCA2A63DA, 0x336EEF0D, 0x0AA6FD87, 0x275435C0))
     (key_block inv_schedule16 28) =
   (0xB659F1BC, 0x3E5658A8, 0xB43D4F67, 0xD698A296)"
  unfolding inv_schedule16_def by code_simp

lemma decrypt16_round_8:
  "xor_block (mix_round INV_SUB_MIX_0 INV_SUB_MIX_1 INV_SUB_MIX_2 INV_SUB_MIX_3
      (0xB659F1BC, 0x3E5658A8, 0xB43D4F67, 0xD698A296))
     (key_block inv_schedule16 32) =
   (0x0EE501DA, 0xEB7A90AD, 0x12B648D9, 0xCA2C067B)"
  unfolding inv_schedule16_def by code_simp

lemma decrypt16_round_9:
  "xor_block (mix_round INV_SUB_MIX_0 INV_SUB_MIX_1 INV_SUB_MIX_2 INV_SUB_MIX_3
      (0x0EE501DA, 0xEB7A90AD, 0x12B648D9, 0xCA2C067B))
     (key_block inv_schedule16 36) =
   (0x3146B5B8, 0xE6A8E7F2, 0x6DA23050, 0x5F91AFEF)"
  unfolding inv_schedule16_def by code_simp

lemma decrypt16_last:
  "xor_block (sub_round INV_SBOX (0x3146B5B8, 0xE6A8E7F2, 0x6DA23050, 0x5F91AFEF))
     (key_block inv_schedule16 40) =
   (0x1E5E3A52, 0x967E7EFC, 0x8B95B366, 0xB0AD865B)"
  unfolding inv_schedule16_def by code_simp

lemma decrypt16_zero_block:
  "decryptBlock \<lparr>nRounds = 10, keySchedule = schedule16, invKeySchedule = inv_schedule16\<rparr>
     (0, 0, 0, 0) =
   (0x1E5E3A52, 0xB0AD865B, 0x8B95B366, 0x967E7EFC)"
proof -
  let ?rnd = "mix_round INV_SUB_MIX_0 INV_SUB_MIX_1 INV_SUB_MIX_2 INV_SUB_MIX_3"
  have c0: "crypt_rounds ?rnd inv_schedule16 9 4 (0x5D2114BD, 0x82C5DA44, 0xDBA76951, 0x96B836A7) =
    crypt_rounds ?rnd inv_schedule16 8 8 (0x149D538B, 0x891295E2, 0x9E44556C, 0x2DDED70A)"
    using crypt_rounds_step [of 9 ?rnd inv_schedule16 4 "(0x5D2114BD, 0x82C5DA44, 0xDBA76951, 0x96B836A7)"]
    by (simp add: decrypt16_round_1)
  have c1: "crypt_rounds ?rnd inv_schedule16 8 8 (0x149D538B, 0x891295E2, 0x9E44556C, 0x2DDED70A) =
    crypt_rounds ?rnd inv_schedule16 7 12 (0xA7E6855F, 0xC3B97DD6, 0x126B0FCF, 0xD8EF6617)"
    using crypt_rounds_step [of 8 ?rnd inv_schedule16 8 "(0x149D538B, 0x891295E2, 0x9E44556C, 0x2DDED70A)"]
    by (simp add: decrypt16_round_2)
  have c2: "crypt_rounds ?rnd inv_schedule16 7 12 (0xA7E6855F, 0xC3B97DD6, 0x126B0FCF, 0xD8EF6617) =
    crypt_rounds ?rnd inv_schedule16 6 16 (0x18BF36FF, 0xF418205A, 0x6E92DE1A, 0x0D155176)"
    using crypt_rounds_step [of 7 ?rnd inv_schedule16 12 "(0xA7E6855F, 0xC3B97DD6, 0x126B0FCF, 0xD8EF6617)"]
    by (simp add: decrypt16_round_3)
  have c3: "crypt_rounds ?rnd inv_schedule16 6 16 (0x18BF36FF, 0xF418205A, 0x6E92DE1A, 0x0D155176) =
    crypt_rounds ?rnd inv_schedule16 5 20 (0xEB435145, 0x8FA62A7A, 0x199C3D56, 0x4F2E9903)"
    using crypt_rounds_step [of 6 ?rnd inv_schedule16 16 "(0x18BF36FF, 0xF418205A, 0x6E92DE1A, 0x0D155176)"]
    by (simp add: decrypt16_round_4)
  have c4: "crypt_rounds ?rnd inv_schedule16 5 20 (0xEB435145, 0x8FA62A7A, 0x199C3D56, 0x4F2E9903) =
    crypt_rounds ?rnd inv_schedule16 4 24 (0xA3F35CAA, 0x95645F0C, 0xFA181B74, 0x8FD85910)"
    using crypt_rounds_step [of 5 ?rnd inv_schedule16 20 "(0xEB435145, 0x8FA62A7A, 0x199C3D56, 0x4F2E9903)"]
    by (simp add: decrypt16_round_5)
  have c5: "crypt_rounds ?rnd inv_schedule16 4 24 (0xA3F35CAA, 0x95645F0C, 0xFA181B74, 0x8FD85910) =
    crypt_rounds ?rnd inv_schedule16 3 28 (0xCA2A63DA, 0x336EEF0D, 0x0AA6FD87, 0x275435C0)"
    using crypt_rounds_step [of 4 ?rnd inv_schedule16 24 "(0xA3F35CAA, 0x95645F0C, 0xFA181B74, 0x8FD85910)"]
    by (simp add: decrypt16_round_6)
  have c6: "crypt_rounds ?rnd inv_schedule16 3 28 (0xCA2A63DA, 0x336EEF0D, 0x0AA6FD87, 0x275435C0) =
    crypt_rounds ?rnd inv_schedule16 2 32 (0xB659F1BC, 0x3E5658A8, 0xB43D4F67, 0xD698A296)"
    using crypt_rounds_step [of 3 ?rnd inv_schedule16 28 "(0xCA2A63DA, 0x336EEF0D, 0x0AA6FD87, 0x275435C0)"]
    by (simp add: decrypt16_round_7)
  have c7: "crypt_rounds ?rnd inv_schedule16 2 32 (0xB659F1BC, 0x3E5658A8, 0xB43D4F67, 0xD698A296) =
    crypt_rounds ?rnd inv_schedule16 1 36 (0x0EE501DA, 0xEB7A90AD, 0x12B648D9, 0xCA2C067B)"
    using crypt_rounds_step [of 2 ?rnd inv_schedule16 32 "(0xB659F1BC, 0x3E5658A8, 0xB43D4F67, 0xD698A296)"]
    by (simp add: decrypt16_round_8)
  have c8: "crypt_rounds ?rnd inv_schedule16 1 36 (0x0EE501DA, 0xEB7A90AD, 0x12B648D9, 0xCA2C067B) =
    crypt_rounds ?rnd inv_schedule16 0 40 (0x3146B5B8, 0xE6A8E7F2, 0x6DA23050, 0x5F91AFEF)"
    using crypt_rounds_step [of 1 ?rnd inv_schedule16 36 "(0x0EE501DA, 0xEB7A90AD, 0x12B648D9, 0xCA2C067B)"]
    by (simp add: decrypt16_round_9)
  have r: "crypt_rounds ?rnd inv_schedule16 9 4 (0x5D2114BD, 0x82C5DA44, 0xDBA76951, 0x96B836A7) =
    ((0x3146B5B8, 0xE6A8E7F2, 0x6DA23050, 0x5F91AFEF), 40)"
    by (simp only: c0 c1 c2 c3 c4 c5 c6 c7 c8 crypt_rounds.simps)
  have n: "nat (\<lceil>10::rat\<rceil> - 1) = 9" by simp
  show ?thesis
    unfolding decryptBlock_def doCryptBlock_def AES_state.simps n decrypt16_first r prod.case
      decrypt16_last
    by (simp add: swap13_def)
qed

subsection \<open>A blob of 31 bytes\<close>

text \<open>
  The Base64 text of 31 bytes: sixteen bytes of IV and fifteen bytes of zeros.
\<close>

definition blob31 :: jsstring where
  "blob31 = js_of ''ZXxMcIqP9Wjo54AStAN+/QAAAAAAAAAAAAAAAAAAAA==''"

lemma blob31_parse:
  "Base64_parse blob31 =
   \<lparr>words = [0x657C4C70, 0x8A8FF568, 0xE8E78012, 0xB4037EFD, 0, 0, 0, 0], sigBytes = 31\<rparr>"
  by (simp add: blob31_def Base64_parse_def js_of_def b64_join_def b64_rev_def b64_map_eq
        Latin1_parse_def bytes_word_def)

lemma blob31_plain_block:
  "xor_block (0x1E5E3A52, 0xB0AD865B, 0x8B95B366, 0x967E7EFC) (iv_block [0x657C4C70, 0x8A8FF568, 0xE8E78012, 0xB4037EFD]) =
   (0x7B227622, 0x3A227333, 0x63723374, 0x227D0001)"
  by code_simp

lemma blob31_buffer:
  "concat_wa empty_wa \<lparr>words = [0, 0, 0, 0], sigBytes = 15\<rparr> = \<lparr>words = [0, 0, 0, 0], sigBytes = 15\<rparr>"
  by code_simp

lemma blob31_process:
  "process (CBC_decrypt dec prev) \<lparr>words = [0, 0, 0, 0], sigBytes = 15\<rparr> =
   \<lparr>words = words_of_blocks [xor_block (dec (0, 0, 0, 0)) prev], sigBytes = 15\<rparr>"
  by (simp add: process_def blocks_of_def nBlocksReady_def block_at_def word_at_def)

lemma blob31_unpad:
  "Pkcs7_unpad \<lparr>words = [0x7B227622, 0x3A227333, 0x63723374, 0x227D0001], sigBytes = 15\<rparr> =
   \<lparr>words = [0x7B227622, 0x3A227333, 0x63723374, 0x227D0001], sigBytes = 14\<rparr>"
  by code_simp

lemma blob31_decrypt:
  "AES_decrypt \<lparr>words = [0, 0, 0, 0], sigBytes = 15\<rparr>
     (Latin1_parse [0x30, 0x31, 0x32, 0x33, 0x34, 0x35, 0x36, 0x37, 0x38, 0x39, 0x61, 0x62, 0x63, 0x64, 0x65, 0x66])
     (WordArray_create [0x657C4C70, 0x8A8FF568, 0xE8E78012, 0xB4037EFD] 16) =
   \<lparr>words = [0x7B227622, 0x3A227333, 0x63723374, 0x227D0001], sigBytes = 14\<rparr>"
proof -
  have w: "words (WordArray_create [0x657C4C70, 0x8A8FF568, 0xE8E78012, 0xB4037EFD] 16) =
    [0x657C4C70, 0x8A8FF568, 0xE8E78012, 0xB4037EFD]"
    by (simp add: WordArray_create_def)
  have b: "words_of_blocks [(0x7B227622, 0x3A227333, 0x63723374, 0x227D0001)] =
    [0x7B227622, 0x3A227333, 0x63723374, 0x227D0001]"
    by simp
  show ?thesis
    unfolding AES_decrypt_def Let_def AES_doReset_key16 blob31_buffer blob31_process w
      decrypt16_zero_block blob31_plain_block b
    by (rule blob31_unpad)
qed

lemma blob31_text:
  "Utf8_stringify \<lparr>words = [0x7B227622, 0x3A227333, 0x63723374, 0x227D0001], sigBytes = 14\<rparr> =
   Inr payload_without_t"
  by code_simp

lemma blob31_json_text: "decrypt_json_text blob31 key16 = Inr payload_without_t"
proof -
  have t: "take 4 [0x657C4C70, 0x8A8FF568, 0xE8E78012, 0xB4037EFD, 0, 0, 0, 0 :: word32] =
      [0x657C4C70, 0x8A8FF568, 0xE8E78012, 0xB4037EFD]"
    "drop 4 [0x657C4C70, 0x8A8FF568, 0xE8E78012, 0xB4037EFD, 0, 0, 0, 0 :: word32] = [0, 0, 0, 0]"
    "(31::int) - 16 = 15"
    by simp_all
  have k: "Utf8_parse key16 = Inr (Latin1_parse [0x30, 0x31, 0x32, 0x33, 0x34, 0x35, 0x36, 0x37, 0x38,
      0x39, 0x61, 0x62, 0x63, 0x64, 0x65, 0x66])"
    by (simp add: Utf8_parse_def key16_bytes)
  have c: "WordArray_create [0, 0, 0, 0] 15 = \<lparr>words = [0, 0, 0, 0], sigBytes = 15\<rparr>"
    by (simp add: WordArray_create_def)
  show ?thesis
    unfolding decrypt_json_text_def Let_def blob31_parse WordArray.simps t k sum.case c
      blob31_decrypt
    by (rule blob31_text)
qed

lemma blob31_value: "decryptWithDynamicIV blob31 key16 now = Inr (JStr secret)"
proof -
  have n: "payload_without_t \<noteq> []" by (simp add: payload_without_t_def js_of_def)
  have "check_fresh (JObj [(js_of ''v'', JStr secret)]) now = Inr (JStr secret)"
    by (simp add: check_fresh_def js_get_def js_of_def truthy_def)
  then show ?thesis
    using n by (simp add: decryptWithDynamicIV_def decrypt_try_def blob31_json_text
          payload_without_t_parse)
qed

section \<open>Proofs: the cipher is AES\<close>

subsection \<open>The cipher of FIPS 197\<close>

text \<open>
  The definitions named \<open>FIPS197_\<close> follow the text of the standard (FIPS 197,
  Advanced Encryption Standard), not the code. The state is kept by columns: a block is
  four words, each word a column of the state, its bytes the rows 0 to 3 from the most
  significant byte down; the input bytes fill the columns in order (section 3.4).

  Section 4.2.1: \<open>xtime\<close> multiplies a byte, as a polynomial over GF(2) modulo
  \<open>x^8 + x^4 + x^3 + x + 1\<close>, by \<open>x\<close>. Figure 7 gives the S-box as a table.
\<close>

definition FIPS197_xtime :: "byte \<Rightarrow> byte" where
  "FIPS197_xtime b = (if bit b 7 then push_bit 1 b XOR 0x1B else push_bit 1 b)"

definition FIPS197_Figure7 :: "byte list" where
  "FIPS197_Figure7 =
    [0x63, 0x7c, 0x77, 0x7b, 0xf2, 0x6b, 0x6f, 0xc5, 0x30, 0x01, 0x67, 0x2b, 0xfe, 0xd7, 0xab, 0x76,
     0xca, 0x82, 0xc9, 0x7d, 0xfa, 0x59, 0x47, 0xf0, 0xad, 0xd4, 0xa2, 0xaf, 0x9c, 0xa4, 0x72, 0xc0,
     0xb7, 0xfd, 0x93, 0x26, 0x36, 0x3f, 0xf7, 0xcc, 0x34, 0xa5, 0xe5, 0xf1, 0x71, 0xd8, 0x31, 0x15,
     0x04, 0xc7, 0x23, 0xc3, 0x18, 0x96, 0x05, 0x9a, 0x07, 0x12, 0x80, 0xe2, 0xeb, 0x27, 0xb2, 0x75,
     0x09, 0x83, 0x2c, 0x1a, 0x1b, 0x6e, 0x5a, 0xa0, 0x52, 0x3b, 0xd6, 0xb3, 0x29, 0xe3, 0x2f, 0x84,
     0x53, 0xd1, 0x00, 0xed, 0x20, 0xfc, 0xb1, 0x5b, 0x6a, 0xcb, 0xbe, 0x39, 0x4a, 0x4c, 0x58, 0xcf,
     0xd0, 0xef, 0xaa, 0xfb, 0x43, 0x4d, 0x33, 0x85, 0x45, 0xf9, 0x02, 0x7f, 0x50, 0x3c, 0x9f, 0xa8,
     0x51, 0xa3, 0x40, 0x8f, 0x92, 0x9d, 0x38, 0xf5, 0xbc, 0xb6, 0xda, 0x21, 0x10, 0xff, 0xf3, 0xd2,
     0xcd, 0x0c, 0x13, 0xec, 0x5f, 0x97, 0x44, 0x17, 0xc4, 0xa7, 0x7e, 0x3d, 0x64, 0x5d, 0x19, 0x73,
     0x60, 0x81, 0x4f, 0xdc, 0x22, 0x2a, 0x90, 0x88, 0x46, 0xee, 0xb8, 0x14, 0xde, 0x5e, 0x0b, 0xdb,
     0xe0, 0x32, 0x3a, 0x0a, 0x49, 0x06, 0x24, 0x5c, 0xc2, 0xd3, 0xac, 0x62, 0x91, 0x95, 0xe4, 0x79,
     0xe7, 0xc8, 0x37, 0x6d, 0x8d, 0xd5, 0x4e, 0xa9, 0x6c, 0x56, 0xf4, 0xea, 0x65, 0x7a, 0xae, 0x08,
     0xba, 0x78, 0x25, 0x2e, 0x1c, 0xa6, 0xb4, 0xc6, 0xe8, 0xdd, 0x74, 0x1f, 0x4b, 0xbd, 0x8b, 0x8a,
     0x70, 0x3e, 0xb5, 0x66, 0x48, 0x03, 0xf6, 0x0e, 0x61, 0x35, 0x57, 0xb9, 0x86, 0xc1, 0x1d, 0x9e,
     0xe1, 0xf8, 0x98, 0x11, 0x69, 0xd9, 0x8e, 0x94, 0x9b, 0x1e, 0x87, 0xe9, 0xce, 0x55, 0x28, 0xdf,
     0x8c, 0xa1, 0x89, 0x0d, 0xbf, 0xe6, 0x42, 0x68, 0x41, 0x99, 0x2d, 0x0f, 0xb0, 0x54, 0xbb, 0x16]"

definition FIPS197_SubByte :: "byte \<Rightarrow> byte" where
  "FIPS197_SubByte b = FIPS197_Figure7 ! unat b"

text \<open>
  Section 5.1: \<open>SubBytes\<close> applies the S-box to every byte; \<open>ShiftRows\<close> shifts row \<open>r\<close>
  left by \<open>r\<close> columns; \<open>MixColumns\<close> multiplies every column by the fixed polynomial
  \<open>{03}x^3 + {01}x^2 + {01}x + {02}\<close>; \<open>AddRoundKey\<close> adds the four words of the round
  key to the columns.
\<close>

definition FIPS197_SubWord :: "word32 \<Rightarrow> word32" where
  "FIPS197_SubWord w =
     bytes_word (FIPS197_SubByte (byte0 w)) (FIPS197_SubByte (byte1 w))
                (FIPS197_SubByte (byte2 w)) (FIPS197_SubByte (byte3 w))"

definition FIPS197_SubBytes :: "block \<Rightarrow> block" where
  "FIPS197_SubBytes s =
     (case s of (c0, c1, c2, c3) \<Rightarrow>
        (FIPS197_SubWord c0, FIPS197_SubWord c1, FIPS197_SubWord c2, FIPS197_SubWord c3))"

definition FIPS197_ShiftRows :: "block \<Rightarrow> block" where
  "FIPS197_ShiftRows s =
     (case s of (c0, c1, c2, c3) \<Rightarrow>
        (bytes_word (byte0 c0) (byte1 c1) (byte2 c2) (byte3 c3),
         bytes_word (byte0 c1) (byte1 c2) (byte2 c3) (byte3 c0),
         bytes_word (byte0 c2) (byte1 c3) (byte2 c0) (byte3 c1),
         bytes_word (byte0 c3) (byte1 c0) (byte2 c1) (byte3 c2)))"

definition FIPS197_times3 :: "byte \<Rightarrow> byte" where
  "FIPS197_times3 b = FIPS197_xtime b XOR b"

definition FIPS197_MixColumn :: "word32 \<Rightarrow> word32" where
  "FIPS197_MixColumn c =
     bytes_word
       (FIPS197_xtime (byte0 c) XOR FIPS197_times3 (byte1 c) XOR byte2 c XOR byte3 c)
       (byte0 c XOR FIPS197_xtime (byte1 c) XOR FIPS197_times3 (byte2 c) XOR byte3 c)
       (byte0 c XOR byte1 c XOR FIPS197_xtime (byte2 c) XOR FIPS197_times3 (byte3 c))
       (FIPS197_times3 (byte0 c) XOR byte1 c XOR byte2 c XOR FIPS197_xtime (byte3 c))"

definition FIPS197_MixColumns :: "block \<Rightarrow> block" where
  "FIPS197_MixColumns s =
     (case s of (c0, c1, c2, c3) \<Rightarrow>
        (FIPS197_MixColumn c0, FIPS197_MixColumn c1, FIPS197_MixColumn c2, FIPS197_MixColumn c3))"

definition FIPS197_AddRoundKey :: "word32 list \<Rightarrow> nat \<Rightarrow> block \<Rightarrow> block" where
  "FIPS197_AddRoundKey w r s =
     (case s of (c0, c1, c2, c3) \<Rightarrow>
        (c0 XOR w ! (4 * r), c1 XOR w ! (4 * r + 1),
         c2 XOR w ! (4 * r + 2), c3 XOR w ! (4 * r + 3)))"

text \<open>
  Figure 5, the cipher: the first round key is added; rounds 1 to \<open>Nr - 1\<close> are
  \<open>SubBytes\<close>, \<open>ShiftRows\<close>, \<open>MixColumns\<close>, \<open>AddRoundKey\<close>; the last round has no
  \<open>MixColumns\<close>.
\<close>

definition FIPS197_Round :: "word32 list \<Rightarrow> block \<Rightarrow> nat \<Rightarrow> block" where
  "FIPS197_Round w s r =
     FIPS197_AddRoundKey w r (FIPS197_MixColumns (FIPS197_ShiftRows (FIPS197_SubBytes s)))"

definition FIPS197_Cipher :: "nat \<Rightarrow> word32 list \<Rightarrow> block \<Rightarrow> block" where
  "FIPS197_Cipher Nr w input =
     FIPS197_AddRoundKey w Nr
       (FIPS197_ShiftRows (FIPS197_SubBytes
          (foldl (FIPS197_Round w) (FIPS197_AddRoundKey w 0 input) [1..<Nr])))"

text \<open>
  Section 5.2, the key expansion: the first \<open>Nk\<close> words are the key; word \<open>i\<close> is word
  \<open>i - Nk\<close> plus word \<open>i - 1\<close>, to which \<open>SubWord\<close>, \<open>RotWord\<close> and the round constant
  \<open>Rcon[i / Nk] = [x^(i/Nk - 1), 0, 0, 0]\<close> are applied first when \<open>i\<close> is a multiple of
  \<open>Nk\<close>, and \<open>SubWord\<close> alone when \<open>Nk\<close> is more than 6 and \<open>i mod Nk\<close> is 4. There are
  \<open>4 * (Nr + 1)\<close> words, and \<open>Nr = Nk + 6\<close>.
\<close>

definition FIPS197_RotWord :: "word32 \<Rightarrow> word32" where
  "FIPS197_RotWord w = bytes_word (byte1 w) (byte2 w) (byte3 w) (byte0 w)"

definition FIPS197_Rcon :: "nat \<Rightarrow> word32" where
  "FIPS197_Rcon j = bytes_word ((FIPS197_xtime ^^ (j - 1)) 1) 0 0 0"

definition FIPS197_next_word :: "nat \<Rightarrow> word32 list \<Rightarrow> word32 list \<Rightarrow> word32" where
  "FIPS197_next_word Nk key w =
     (let i = length w in
      if i < Nk then key ! i
      else w ! (i - Nk) XOR
           (if i mod Nk = 0 then
              FIPS197_SubWord (FIPS197_RotWord (w ! (i - 1))) XOR FIPS197_Rcon (i div Nk)
            else if 6 < Nk \<and> i mod Nk = 4 then FIPS197_SubWord (w ! (i - 1))
            else w ! (i - 1)))"

fun FIPS197_expand :: "nat \<Rightarrow> word32 list \<Rightarrow> nat \<Rightarrow> word32 list \<Rightarrow> word32 list" where
  "FIPS197_expand Nk key 0 w = w"
| "FIPS197_expand Nk key (Suc n) w = FIPS197_expand Nk key n (w @ [FIPS197_next_word Nk key w])"

definition FIPS197_KeyExpansion :: "nat \<Rightarrow> word32 list \<Rightarrow> word32 list" where
  "FIPS197_KeyExpansion Nk key = FIPS197_expand Nk key (4 * (Nk + 7)) []"

text \<open>AES-128: a key of 16 bytes, four words, and ten rounds.\<close>

definition FIPS197_AES128 :: "byte list \<Rightarrow> block \<Rightarrow> block" where
  "FIPS197_AES128 key = FIPS197_Cipher 10 (FIPS197_KeyExpansion 4 (pack_bytes key))"

subsection \<open>The code computes it\<close>

lemma xtime_dbl: "FIPS197_xtime b = dbl b"
  by (simp add: FIPS197_xtime_def dbl_alt)

lemma SubByte_SBOX: "FIPS197_SubByte b = SBOX b"
  by (simp add: FIPS197_SubByte_def SBOX_def FIPS197_Figure7_def SBOX_table_def)

lemma SubWord_sub_word: "FIPS197_SubWord w = sub_word w"
  by (simp add: FIPS197_SubWord_def sub_word_def SubByte_SBOX)

lemma round_is_FIPS197:
  "mix_round SUB_MIX_0 SUB_MIX_1 SUB_MIX_2 SUB_MIX_3 s =
   FIPS197_MixColumns (FIPS197_ShiftRows (FIPS197_SubBytes s))"
proof -
  obtain c0 c1 c2 c3 where s: "s = (c0, c1, c2, c3)" by (cases s) auto
  have m: "bytes_word (mix_col a b c d) (mix_col b c d a) (mix_col c d a b) (mix_col d a b c) =
           FIPS197_MixColumn (bytes_word a b c d)" for a b c d
    by (simp add: FIPS197_MixColumn_def FIPS197_times3_def xtime_dbl mix_col_def ac_simps)
  show ?thesis
    unfolding s
    by (simp add: mix_round_def round_word_bytes m FIPS197_MixColumns_def FIPS197_ShiftRows_def
          FIPS197_SubBytes_def FIPS197_SubWord_def SubByte_SBOX)
qed

lemma last_round_is_FIPS197:
  "sub_round SBOX s = FIPS197_ShiftRows (FIPS197_SubBytes s)"
proof -
  obtain c0 c1 c2 c3 where s: "s = (c0, c1, c2, c3)" by (cases s) auto
  show ?thesis
    unfolding s
    by (simp add: sub_round_def FIPS197_ShiftRows_def FIPS197_SubBytes_def FIPS197_SubWord_def
          SubByte_SBOX)
qed

lemma add_round_key:
  assumes "4 * r + 3 < length w"
  shows "xor_block s (key_block w (4 * r)) = FIPS197_AddRoundKey w r s"
proof -
  obtain c0 c1 c2 c3 where s: "s = (c0, c1, c2, c3)" by (cases s) auto
  show ?thesis
    unfolding s using assms
    by (simp add: xor_block_def key_block_def FIPS197_AddRoundKey_def word_at_def)
qed

lemma rounds_are_FIPS197:
  assumes "4 * n + 7 < length w"
  shows "crypt_rounds (mix_round SUB_MIX_0 SUB_MIX_1 SUB_MIX_2 SUB_MIX_3) w n 4 s =
         (foldl (FIPS197_Round w) s [1..<Suc n], 4 + 4 * n)"
  using assms
proof (induction n)
  case 0
  show ?case by simp
next
  case (Suc n)
  have ih: "crypt_rounds (mix_round SUB_MIX_0 SUB_MIX_1 SUB_MIX_2 SUB_MIX_3) w n 4 s =
         (foldl (FIPS197_Round w) s [1..<Suc n], 4 + 4 * n)"
    using Suc by simp
  have k: "4 + 4 * n = 4 * Suc n" by simp
  have "4 * Suc n + 3 < length w" using Suc.prems by simp
  then have a: "xor_block x (key_block w (4 + 4 * n)) = FIPS197_AddRoundKey w (Suc n) x" for x
    unfolding k by (rule add_round_key)
  let ?rnd = "mix_round SUB_MIX_0 SUB_MIX_1 SUB_MIX_2 SUB_MIX_3"
  let ?f = "foldl (FIPS197_Round w) s [1..<Suc n]"
  have "crypt_rounds ?rnd w (Suc n) 4 s =
        (xor_block (?rnd (fst (crypt_rounds ?rnd w n 4 s))) (key_block w (4 + 4 * n)), 4 + 4 * n + 4)"
    by (rule crypt_rounds_Suc)
  also have "\<dots> = (xor_block (?rnd ?f) (key_block w (4 + 4 * n)), 4 + 4 * n + 4)"
    by (simp only: ih fst_conv)
  also have "\<dots> = (FIPS197_Round w ?f (Suc n), 4 + 4 * Suc n)"
    by (simp add: a round_is_FIPS197 FIPS197_Round_def)
  also have "\<dots> = (foldl (FIPS197_Round w) s [1..<Suc (Suc n)], 4 + 4 * Suc n)"
    by simp
  finally show ?case .
qed

lemma cipher_is_FIPS197:
  assumes "length w = 44"
  shows "doCryptBlock 10 w (mix_round SUB_MIX_0 SUB_MIX_1 SUB_MIX_2 SUB_MIX_3) SBOX m =
         FIPS197_Cipher 10 w m"
proof -
  have n: "nat (\<lceil>10::rat\<rceil> - 1) = 9" by simp
  have a0: "xor_block m (key_block w 0) = FIPS197_AddRoundKey w 0 m"
    using add_round_key [of 0 w m] assms by simp
  have a10: "xor_block x (key_block w 40) = FIPS197_AddRoundKey w 10 x" for x
    using add_round_key [of 10 w x] assms by simp
  have r: "crypt_rounds (mix_round SUB_MIX_0 SUB_MIX_1 SUB_MIX_2 SUB_MIX_3) w 9 4 s =
         (foldl (FIPS197_Round w) s [1..<10], 40)" for s
    using rounds_are_FIPS197 [of 9 w s] assms by simp
  show ?thesis
    unfolding doCryptBlock_def n a0 r prod.case a10 last_round_is_FIPS197 FIPS197_Cipher_def ..
qed

lemma js_rem_int: "0 < n \<Longrightarrow> js_rem a (of_int n) = of_int (a mod n)"
proof -
  assume "0 < n"
  have "\<lfloor>rat_of_int a / of_int n\<rfloor> = a div n" by (rule floor_divide_of_int_eq)
  then have "js_rem a (of_int n) = of_int (a - n * (a div n))"
    by (simp add: js_rem_def)
  also have "a - n * (a div n) = a mod n"
    by (simp add: minus_mult_div_eq_mod)
  finally show ?thesis .
qed

lemma js_rem_4: "js_rem (int i) 4 = of_nat (i mod 4)"
proof -
  have "int i mod 4 = int (i mod 4)" by (simp add: zmod_int)
  then show ?thesis using js_rem_int [of 4 "int i"] by simp
qed

lemma floor_quarter: "\<lfloor>rat_of_int (int i) / 4\<rfloor> = int (i div 4)"
  using floor_divide_of_int_eq [of "int i" 4, where ?'a = rat] by (simp add: zdiv_int)

lemma rot_word: "push_bit 8 t OR drop_bit 24 t = FIPS197_RotWord t"
  using rot24 [of "byte0 t" "byte1 t" "byte2 t" "byte3 t"] by (simp add: FIPS197_RotWord_def)

lemma rcon_table:
  assumes "1 \<le> j" "j \<le> 10"
  shows "push_bit 24 (word_at RCON j) = FIPS197_Rcon j"
proof -
  have "list_all (\<lambda>k. push_bit 24 (word_at RCON (Suc (nat k))) = FIPS197_Rcon (Suc (nat k))) [0..10 - 1]"
    by code_simp
  moreover have "0 \<le> int j - 1" "int j - 1 < 10" using assms by simp_all
  ultimately have "push_bit 24 (word_at RCON (Suc (nat (int j - 1)))) = FIPS197_Rcon (Suc (nat (int j - 1)))"
    by (rule int_below [rotated 2])
  moreover have "Suc (nat (int j - 1)) = j" using assms by simp
  ultimately show ?thesis by simp
qed


lemma next_word_is_FIPS197:
  assumes "length kw = 4" "length w < 44"
  shows "key_schedule_row kw 4 w (int (length w)) = FIPS197_next_word 4 kw w"
proof (cases "length w < 4")
  case True
  then have "rat_of_int (int (length w)) < 4" by simp
  then show ?thesis
    using True assms(1)
    by (simp add: key_schedule_row_def FIPS197_next_word_def word_at_def)
next
  case False
  define i where "i = length w"
  have i: "4 \<le> i" "i < 44" using False assms(2) by (simp_all add: i_def)
  have f1: "\<not> rat_of_int (int i) < 4" using i(1) by simp
  have "nat (int i - 1) = i - 1" by simp
  moreover have "0 \<le> int i - 1" "i - 1 < length w" using i(1) unfolding i_def by linarith+
  ultimately have f2: "word_at_int w (int i - 1) = w ! (i - 1)"
    by (simp only: word_at_int_def word_at_def if_True)
  have f3: "(js_rem (int i) 4 = 0) = (i mod 4 = 0)"
    by (simp add: js_rem_4)
  have "rat_of_int (int i) - 4 = rat_of_int (int i - 4)" by simp
  moreover have "\<lfloor>rat_of_int (int i - 4)\<rfloor> = int i - 4" by (rule floor_of_int)
  moreover have "nat (int i - 4) = i - 4" by simp
  moreover have "0 \<le> int i - 4" "i - 4 < length w" using i(1) unfolding i_def by linarith+
  ultimately have f4: "rat_index w (rat_of_int (int i) - 4) = w ! (i - 4)"
    by (simp only: rat_index_def word_at_int_def word_at_def if_True refl)
  have j: "1 \<le> i div 4" "i div 4 \<le> 10" using i by simp_all
  have f5: "push_bit 24 (word_at_int RCON \<lfloor>rat_of_int (int i) / 4\<rfloor>) = FIPS197_Rcon (i div 4)"
    unfolding floor_quarter word_at_int_nat by (rule rcon_table [OF j])
  have k: "(4::rat) \<noteq> 0" "\<not> (6::rat) < 4" "\<not> (6::nat) < 4" by simp_all
  have "key_schedule_row kw 4 w (int i) =
        w ! (i - 4) XOR
        (if i mod 4 = 0 then sub_word (FIPS197_RotWord (w ! (i - 1))) XOR FIPS197_Rcon (i div 4)
         else w ! (i - 1))"
    unfolding key_schedule_row_def Let_def f2 f4 rot_word
    using f1 f3 f5 k by simp
  moreover have "FIPS197_next_word 4 kw w =
        w ! (i - 4) XOR
        (if i mod 4 = 0 then FIPS197_SubWord (FIPS197_RotWord (w ! (i - 1))) XOR FIPS197_Rcon (i div 4)
         else w ! (i - 1))"
    unfolding FIPS197_next_word_def Let_def i_def [symmetric] using i(1) by simp
  ultimately show ?thesis
    unfolding i_def [symmetric] by (simp add: SubWord_sub_word)
qed

lemma length_FIPS197_expand [simp]: "length (FIPS197_expand Nk key n w) = length w + n"
  by (induction n arbitrary: w) simp_all

lemma key_schedule_is_FIPS197:
  assumes "length kw = 4" "length w + n \<le> 44"
  shows "key_schedule_loop kw 4 n (int (length w)) w = FIPS197_expand 4 kw n w"
  using assms(2)
proof (induction n arbitrary: w)
  case 0
  show ?case by simp
next
  case (Suc n)
  have l: "length w < 44" using Suc.prems by simp
  have e: "int (length w) + 1 = int (length (w @ [FIPS197_next_word 4 kw w]))" by simp
  have "key_schedule_loop kw 4 (Suc n) (int (length w)) w =
        key_schedule_loop kw 4 n (int (length w) + 1) (w @ [FIPS197_next_word 4 kw w])"
    by (simp only: key_schedule_loop.simps next_word_is_FIPS197 [OF assms(1) l])
  also have "\<dots> = key_schedule_loop kw 4 n (int (length (w @ [FIPS197_next_word 4 kw w])))
          (w @ [FIPS197_next_word 4 kw w])"
    by (simp only: e)
  also have "\<dots> = FIPS197_expand 4 kw n (w @ [FIPS197_next_word 4 kw w])"
    using Suc.prems by (intro Suc.IH) simp
  finally show ?case by simp
qed

lemma AES_doReset_is_FIPS197:
  assumes "length kb = 16"
  shows "nRounds (AES_doReset (Latin1_parse kb)) = 10"
    "keySchedule (AES_doReset (Latin1_parse kb)) = FIPS197_KeyExpansion 4 (pack_bytes kb)"
proof -
  have l: "length (pack_bytes kb) = 4" using assms by (simp add: length_pack_bytes)
  have "key_schedule_loop (pack_bytes kb) 4 44 (int (length ([] :: word32 list))) [] =
        FIPS197_expand 4 (pack_bytes kb) 44 []"
    by (rule key_schedule_is_FIPS197 [OF l]) simp
  then show "keySchedule (AES_doReset (Latin1_parse kb)) = FIPS197_KeyExpansion 4 (pack_bytes kb)"
    using assms by (simp add: AES_doReset_def Let_def Latin1_parse_def FIPS197_KeyExpansion_def)
  show "nRounds (AES_doReset (Latin1_parse kb)) = 10"
    using assms by (simp add: AES_doReset_def Let_def Latin1_parse_def)
qed

lemma encryptBlock_is_AES128:
  assumes "length kb = 16"
  shows "encryptBlock (AES_doReset (Latin1_parse kb)) m = FIPS197_AES128 kb m"
proof -
  have "length (FIPS197_KeyExpansion 4 (pack_bytes kb)) = 44"
    by (simp add: FIPS197_KeyExpansion_def)
  then show ?thesis
    unfolding encryptBlock_def AES_doReset_is_FIPS197 [OF assms] FIPS197_AES128_def
    by (rule cipher_is_FIPS197)
qed

text \<open>
  CBC as NIST SP 800-38A has it: \<open>C\<^sub>1 = E(P\<^sub>1 + IV)\<close> and \<open>C\<^sub>j = E(P\<^sub>j + C\<^sub>j\<^sub>-\<^sub>1)\<close>. The padding
  of PKCS#7 is \<open>padded\<close> above: \<open>k\<close> bytes of value \<open>k\<close>, where \<open>k = 16 - (n mod 16)\<close> for \<open>n\<close>
  bytes of data. \<open>blocks_of_bytes\<close> cuts bytes into blocks of 16, four big-endian words
  each.
\<close>

fun SP800_38A_CBC :: "(block \<Rightarrow> block) \<Rightarrow> block \<Rightarrow> block list \<Rightarrow> block list" where
  "SP800_38A_CBC E iv [] = []"
| "SP800_38A_CBC E iv (p # ps) = E (xor_block p iv) # SP800_38A_CBC E (E (xor_block p iv)) ps"

definition blocks_of_bytes :: "byte list \<Rightarrow> block list" where
  "blocks_of_bytes bs = map (block_at (pack_bytes bs)) [0..<length bs div 16]"

lemma CBC_encrypt_is_SP800_38A: "CBC_encrypt E iv ps = SP800_38A_CBC E iv ps"
  by (induction ps arbitrary: iv) (simp_all add: Let_def)

lemma iv_block_iv_words: "iv_block (iv_words rnd) = rnd"
  by (cases rnd) (simp add: iv_block_def iv_words_def block_at_def word_at_def)

lemma blocks_of_padded: "blocks_of (Latin1_parse (padded bs)) = blocks_of_bytes (padded bs)"
  by (simp add: blocks_of_parse_padded blocks_of_bytes_def length_padded)

lemma cipher_blocks_AES128:
  assumes "length kb = 16"
  shows "CBC_encrypt (encryptBlock (AES_doReset (Latin1_parse kb))) (iv_block (iv_words rnd))
           (blocks_of (Latin1_parse (padded bs))) =
         SP800_38A_CBC (FIPS197_AES128 kb) rnd (blocks_of_bytes (padded bs))"
proof -
  have "encryptBlock (AES_doReset (Latin1_parse kb)) = FIPS197_AES128 kb"
    using encryptBlock_is_AES128 [OF assms] by (rule ext)
  then show ?thesis
    by (simp only: iv_block_iv_words blocks_of_padded CBC_encrypt_is_SP800_38A)
qed

section \<open>Properties\<close>

subsection \<open>Decryption never throws\<close>





subsection \<open>Round trip\<close>

text \<open>
  C1. For every string \<open>v\<close> and every key whose UTF-8 encoding is 16 bytes long,
  \<^verbatim>\<open>encryptWithDynamicIV\<close> called at the time \<open>t\<close> returns a blob, and
  \<^verbatim>\<open>decryptWithDynamicIV\<close> called on that blob with the same key at a time \<open>now\<close> that is at
  most 60000 ms away from \<open>t\<close> returns \<open>v\<close>. The times are time values of JavaScript
  (whole numbers of at most 8640000000000000 in magnitude).
\<close>

theorem round_trip:
  assumes "utf8_encode keyStr = Some kb" and "length kb = 16"
    and "\<bar>t\<bar> \<le> 8640000000000000" and "\<bar>now - t\<bar> \<le> 60000"
  shows "\<exists>blob. encryptWithDynamicIV v keyStr t rnd = Inr blob \<and>
          decryptWithDynamicIV blob keyStr now = Inr (JStr v)"
proof -
  have "decrypt_encrypted v keyStr t rnd now = Inr (JStr v)"
    using assms(4) by (simp add: decrypt_encrypted_16 [OF assms(1,2,3)])
  then show ?thesis by (rule decrypt_encrypted_split)
qed

theorem round_trip_witness:
  "\<exists>blob. encryptWithDynamicIV secret key16 1700000000123 (1, 2, 3, 4) = Inr blob \<and>
     decryptWithDynamicIV blob key16 1700000060123 = Inr (JStr secret)"
  using round_trip [OF key16_bytes, of 1700000000123 1700000060123 secret "(1, 2, 3, 4)"] by simp

subsection \<open>Key length\<close>




subsection \<open>Expiry\<close>

text \<open>
  C4, as the code has it. Let a blob be encrypted at the time \<open>t\<close> with a key of 16 bytes
  and decrypted with the same key at the time \<open>now\<close>. If \<open>t\<close> is not 0, the result is
  \<^verbatim>\<open>null\<close> when \<open>|now - t|\<close> is more than 60000 and the value when it is 60000 or less:
  a difference of exactly 60000 ms is accepted. (A timestamp 0 is falsy and is not
  checked.)
\<close>

theorem expiry:
  assumes "utf8_encode keyStr = Some kb" and "length kb = 16"
    and "\<bar>t\<bar> \<le> 8640000000000000" and "t \<noteq> 0"
  shows "decrypt_encrypted v keyStr t rnd now =
         Inr (if 60000 < \<bar>now - t\<bar> then JNull else JStr v)"
  using assms(4) by (simp add: decrypt_encrypted_16 [OF assms(1,2,3)])

theorem expiry_witness:
  "decrypt_encrypted secret key16 1700000000123 (1, 2, 3, 4) 1700000060124 = Inr JNull \<and>
   decrypt_encrypted secret key16 1700000000123 (1, 2, 3, 4) 1700000060123 = Inr (JStr secret) \<and>
   decrypt_encrypted secret key16 1700000000123 (1, 2, 3, 4) 1700000060122 = Inr (JStr secret)"
  using expiry [OF key16_bytes, of 1700000000123 secret "(1, 2, 3, 4)" 1700000060124]
    expiry [OF key16_bytes, of 1700000000123 secret "(1, 2, 3, 4)" 1700000060123]
    expiry [OF key16_bytes, of 1700000000123 secret "(1, 2, 3, 4)" 1700000060122]
  by simp

text \<open>
  A blob encrypted at the time 0 and decrypted 60001 ms later: the value comes back.
\<close>

theorem timestamp_zero_never_expires:
  "decrypt_encrypted secret key16 0 (1, 2, 3, 4) 60001 = Inr (JStr secret)"
  by (simp add: decrypt_encrypted_16 [OF key16_bytes])

subsection \<open>Symmetry of the freshness window\<close>

text \<open>
  C5. The check compares \<open>|now - t|\<close> with 60000 and nothing else. A blob made with a key
  of 16 bytes at the time \<open>t\<close> and decrypted \<open>d\<close> ms before \<open>t\<close> (its timestamp is in the
  future of the decoder's clock) gets the result it gets \<open>d\<close> ms after \<open>t\<close>: the value when
  \<open>|d|\<close> is at most 60000, and \<^verbatim>\<open>null\<close> when \<open>|d|\<close> is more than 60000 (and \<open>t\<close> is not 0, the
  timestamp that is not checked).
\<close>

theorem freshness_symmetric:
  assumes "utf8_encode keyStr = Some kb" and "length kb = 16" and "\<bar>t\<bar> \<le> 8640000000000000"
  shows "decrypt_encrypted v keyStr t rnd (t - d) =
           Inr (if t \<noteq> 0 \<and> 60000 < \<bar>d\<bar> then JNull else JStr v) \<and>
         decrypt_encrypted v keyStr t rnd (t + d) =
           Inr (if t \<noteq> 0 \<and> 60000 < \<bar>d\<bar> then JNull else JStr v)"
  by (simp add: decrypt_encrypted_16 [OF assms])

theorem freshness_symmetric_witness:
  "decrypt_encrypted secret key16 1700000000123 (1, 2, 3, 4) (1700000000123 - 60000) = Inr (JStr secret) \<and>
   decrypt_encrypted secret key16 1700000000123 (1, 2, 3, 4) (1700000000123 + 60000) = Inr (JStr secret) \<and>
   decrypt_encrypted secret key16 1700000000123 (1, 2, 3, 4) (1700000000123 - 60001) = Inr JNull \<and>
   decrypt_encrypted secret key16 1700000000123 (1, 2, 3, 4) (1700000000123 + 60001) = Inr JNull"
proof -
  have "decrypt_encrypted secret key16 1700000000123 (1, 2, 3, 4) (1700000000123 - 60000) =
          Inr (if (1700000000123::int) \<noteq> 0 \<and> 60000 < \<bar>60000::int\<bar> then JNull else JStr secret) \<and>
        decrypt_encrypted secret key16 1700000000123 (1, 2, 3, 4) (1700000000123 + 60000) =
          Inr (if (1700000000123::int) \<noteq> 0 \<and> 60000 < \<bar>60000::int\<bar> then JNull else JStr secret)"
    by (rule freshness_symmetric [OF key16_bytes]) simp_all
  moreover have "decrypt_encrypted secret key16 1700000000123 (1, 2, 3, 4) (1700000000123 - 60001) =
          Inr (if (1700000000123::int) \<noteq> 0 \<and> 60000 < \<bar>60001::int\<bar> then JNull else JStr secret) \<and>
        decrypt_encrypted secret key16 1700000000123 (1, 2, 3, 4) (1700000000123 + 60001) =
          Inr (if (1700000000123::int) \<noteq> 0 \<and> 60000 < \<bar>60001::int\<bar> then JNull else JStr secret)"
    by (rule freshness_symmetric [OF key16_bytes]) simp_all
  moreover have "(1700000000123::int) \<noteq> 0" "\<not> 60000 < \<bar>60000::int\<bar>" "60000 < \<bar>60001::int\<bar>"
    by simp_all
  ultimately show ?thesis by presburger
qed

subsection \<open>Errors of the encryption\<close>

text \<open>
  C9, as the code has it. The only error \<^verbatim>\<open>encryptWithDynamicIV\<close> throws on strings is the
  \<^verbatim>\<open>URIError\<close> of \<^verbatim>\<open>encodeURIComponent\<close> on a key that has an unpaired surrogate, thrown
  again as it was caught. Every string value is serialized, unpaired surrogates included:
  \<^verbatim>\<open>JSON.stringify\<close> writes them as \<^verbatim>\<open>\uXXXX\<close> escapes.
\<close>

theorem encrypt_error:
  "(encryptWithDynamicIV v keyStr t rnd = Inl e) = (utf8_encode keyStr = None \<and> e = URIError)"
proof (cases "utf8_encode keyStr")
  case None
  then show ?thesis by (auto simp: encrypt_bad_key)
next
  case (Some kb)
  then show ?thesis using encrypt_returns_blob [OF Some, of t v rnd] by auto
qed

theorem encrypt_error_witness:
  "encryptWithDynamicIV secret [0xD800] 1700000000123 (1, 2, 3, 4) = Inl URIError"
  using encrypt_error [of secret "[0xD800]" 1700000000123 "(1, 2, 3, 4)" URIError]
  by (simp add: utf8_encode_lone_surrogate)

text \<open>
  A value that is an unpaired surrogate: it is encrypted, and the decryption returns it.
\<close>

theorem lone_surrogate_value:
  "decrypt_encrypted [0xD800] key16 1700000000123 (1, 2, 3, 4) 1700000000123 = Inr (JStr [0xD800])"
  by (simp add: decrypt_encrypted_16 [OF key16_bytes])

subsection \<open>Structure of the blob\<close>



subsection \<open>Fresh IVs\<close>

lemma iv_words_inject: "iv_words rnd = iv_words rnd' \<Longrightarrow> rnd = rnd'"
  by (cases rnd, cases rnd') (simp add: iv_words_def)

lemma combined_of_iv: "take 4 (words (combined_of bs key rnd)) = iv_words rnd"
  by (simp add: combined_of_def)

lemma blobs_differ:
  assumes "rnd \<noteq> rnd'"
  shows "Base64_stringify (combined_of bs key rnd) \<noteq> Base64_stringify (combined_of bs' key' rnd')"
proof
  assume "Base64_stringify (combined_of bs key rnd) = Base64_stringify (combined_of bs' key' rnd')"
  then have "Base64_parse (Base64_stringify (combined_of bs key rnd)) =
             Base64_parse (Base64_stringify (combined_of bs' key' rnd'))"
    by simp
  then have "combined_of bs key rnd = combined_of bs' key' rnd'"
    by (simp only: Base64_parse_combined)
  then have "take 4 (words (combined_of bs key rnd)) = take 4 (words (combined_of bs' key' rnd'))"
    by simp
  then have "iv_words rnd = iv_words rnd'" by (simp only: combined_of_iv)
  then show False using assms iv_words_inject by blast
qed

text \<open>
  C7. The IV is the four words that \<^verbatim>\<open>WordArray.random(16)\<close> draws in the call. Two
  calls of \<^verbatim>\<open>encryptWithDynamicIV\<close> with the same value and the same key of 16 bytes, in
  which different words are drawn, return different blobs, and the decryption of either
  blob within the freshness window returns the value.
\<close>

theorem fresh_iv:
  assumes "utf8_encode keyStr = Some kb" and "length kb = 16"
    and "\<bar>t\<bar> \<le> 8640000000000000" and "\<bar>t'\<bar> \<le> 8640000000000000"
    and "rnd \<noteq> rnd'"
    and "\<bar>now - t\<bar> \<le> 60000" and "\<bar>now - t'\<bar> \<le> 60000"
  shows "\<exists>blob blob'.
           encryptWithDynamicIV v keyStr t rnd = Inr blob \<and>
           encryptWithDynamicIV v keyStr t' rnd' = Inr blob' \<and>
           blob \<noteq> blob' \<and>
           decryptWithDynamicIV blob keyStr now = Inr (JStr v) \<and>
           decryptWithDynamicIV blob' keyStr now = Inr (JStr v)"
proof -
  obtain bs where e: "encryptWithDynamicIV v keyStr t rnd =
            Inr (Base64_stringify (combined_of bs (Latin1_parse kb) rnd))"
    using encrypt_returns_blob [OF assms(1), of t v rnd] by auto
  obtain bs' where e': "encryptWithDynamicIV v keyStr t' rnd' =
            Inr (Base64_stringify (combined_of bs' (Latin1_parse kb) rnd'))"
    using encrypt_returns_blob [OF assms(1), of t' v rnd'] by auto
  have "decrypt_encrypted v keyStr t rnd now = Inr (JStr v)"
    using assms(6) by (simp add: decrypt_encrypted_16 [OF assms(1,2,3)])
  then have d: "decryptWithDynamicIV (Base64_stringify (combined_of bs (Latin1_parse kb) rnd)) keyStr now =
             Inr (JStr v)"
    by (simp add: decrypt_encrypted_def e)
  have "decrypt_encrypted v keyStr t' rnd' now = Inr (JStr v)"
    using assms(7) by (simp add: decrypt_encrypted_16 [OF assms(1,2,4)])
  then have d': "decryptWithDynamicIV (Base64_stringify (combined_of bs' (Latin1_parse kb) rnd')) keyStr now =
             Inr (JStr v)"
    by (simp add: decrypt_encrypted_def e')
  show ?thesis
    using e e' d d' blobs_differ [OF assms(5)] by blast
qed

theorem fresh_iv_witness:
  "\<exists>blob blob'.
     encryptWithDynamicIV secret key16 1700000000123 (1, 2, 3, 4) = Inr blob \<and>
     encryptWithDynamicIV secret key16 1700000000123 (1, 2, 3, 5) = Inr blob' \<and>
     blob \<noteq> blob' \<and>
     decryptWithDynamicIV blob key16 1700000000456 = Inr (JStr secret) \<and>
     decryptWithDynamicIV blob' key16 1700000000456 = Inr (JStr secret)"
  by (rule fresh_iv [OF key16_bytes]) simp_all

subsection \<open>A payload without a timestamp\<close>

text \<open>
  C10. If the text that \<^verbatim>\<open>decryptWithDynamicIV\<close> decrypts from a blob is not empty and
  parses to a value \<open>data\<close> of which \<^verbatim>\<open>data.t\<close> is falsy (\<^verbatim>\<open>undefined\<close> because the object
  has no such member, \<^verbatim>\<open>null\<close>, \<^verbatim>\<open>false\<close>, 0, the empty string), then the clock is not
  read: at every time \<open>now\<close> the function returns \<^verbatim>\<open>data.v\<close>.
\<close>

theorem falsy_timestamp_never_expires:
  assumes "decrypt_json_text blob keyStr = Inr jsonStr" and "jsonStr \<noteq> []"
    and "JSON_parse jsonStr = Inr data"
    and "js_get data (js_of ''t'') = Inr tv" and "\<not> truthy tv"
  shows "\<exists>r. js_get data (js_of ''v'') = Inr r \<and> decryptWithDynamicIV blob keyStr now = Inr r"
proof -
  obtain r where r: "js_get data (js_of ''v'') = Inr r"
    using assms(4) by (auto simp: js_get_def split: json.splits)
  have "check_fresh data now = Inr r"
    using assms(4,5) r by (simp add: check_fresh_def)
  then show ?thesis
    using assms(1,2,3) r by (simp add: decryptWithDynamicIV_def decrypt_try_def)
qed


theorem falsy_timestamp_never_expires_witness:
  "\<exists>blob. encrypt_payload payload_without_t key16 (1, 2, 3, 4) = Inr blob \<and>
     decryptWithDynamicIV blob key16 1700000000123 = Inr (JStr secret)"
proof -
  obtain bs where bs: "utf8_encode payload_without_t = Some bs"
    using payload_without_t_bytes by blast
  define blob where "blob = Base64_stringify (combined_of bs
    (Latin1_parse [0x30, 0x31, 0x32, 0x33, 0x34, 0x35, 0x36, 0x37, 0x38, 0x39, 0x61, 0x62, 0x63, 0x64,
       0x65, 0x66]) (1, 2, 3, 4))"
  have e: "encrypt_payload payload_without_t key16 (1, 2, 3, 4) = Inr blob"
    unfolding blob_def by (rule encrypt_payload_blob [OF bs key16_bytes])
  have "length [0x30, 0x31, 0x32, 0x33, 0x34, 0x35, 0x36, 0x37, 0x38, 0x39, 0x61, 0x62, 0x63, 0x64,
       0x65, 0x66 :: byte] = 4 * 4"
    by simp
  then have d: "decrypt_json_text blob key16 = Inr payload_without_t"
    unfolding blob_def by (rule decrypt_json_text_blob [OF bs key16_bytes])
  have n: "payload_without_t \<noteq> []" by (simp add: payload_without_t_def js_of_def)
  have t: "js_get (JObj [(js_of ''v'', JStr secret)]) (js_of ''t'') = Inr JUndefined"
    by (simp add: js_get_def js_of_def)
  have u: "\<not> truthy JUndefined" by (simp add: truthy_def)
  have v: "js_get (JObj [(js_of ''v'', JStr secret)]) (js_of ''v'') = Inr (JStr secret)"
    by (simp add: js_get_def js_of_def)
  have "decryptWithDynamicIV blob key16 1700000000123 = Inr (JStr secret)"
    using falsy_timestamp_never_expires [OF d n payload_without_t_parse t u, of 1700000000123]
    by (simp add: v)
  then show ?thesis using e by blast
qed

subsection \<open>Short blobs\<close>

lemma blob16_length: "sigBytes (Base64_parse (js_of ''AAAAAAAAAAAAAAAAAAAAAA=='')) = 16"
  by (simp add: Base64_parse_def js_of_def b64_join_def b64_rev_def b64_map_eq Latin1_parse_def)

text \<open>
  C8, as the code has it. \<^verbatim>\<open>decryptWithDynamicIV\<close> does not look at the length of the
  decoded blob. When the blob decodes to 16 bytes or fewer there is no ciphertext block,
  the decrypted text is empty, and the result is \<^verbatim>\<open>null\<close>. A blob of 17 to 31 bytes is
  not rejected: its last, partial block is read with zeros for the missing bytes and
  decrypted, and \<^verbatim>\<open>Pkcs7.unpad\<close> checks nothing, so a value can come back.
\<close>

theorem short_blob_null:
  assumes "sigBytes (Base64_parse blob) \<le> 16"
  shows "decryptWithDynamicIV blob keyStr now = Inr JNull"
  using assms by (rule undersized_blob)

theorem short_blob_null_witness:
  "decryptWithDynamicIV (js_of ''AAAAAAAAAAAAAAAAAAAAAA=='') key16 1700000000123 = Inr JNull"
  using short_blob_null [of "js_of ''AAAAAAAAAAAAAAAAAAAAAA==''" key16 1700000000123]
  by (simp add: blob16_length)

text \<open>
  A blob of 31 bytes, decrypted with the key \<^verbatim>\<open>0123456789abcdef\<close>: the value
  \<^verbatim>\<open>s3cr3t\<close> comes back.
\<close>

theorem blob_of_31_bytes:
  "blob31 = js_of ''ZXxMcIqP9Wjo54AStAN+/QAAAAAAAAAAAAAAAAAAAA=='' \<and>
   sigBytes (Base64_parse blob31) = 31 \<and>
   decryptWithDynamicIV blob31 key16 1700000000123 = Inr (JStr secret)"
proof (intro conjI)
  show "blob31 = js_of ''ZXxMcIqP9Wjo54AStAN+/QAAAAAAAAAAAAAAAAAAAA==''"
    by (rule blob31_def)
  show "sigBytes (Base64_parse blob31) = 31"
    by (simp add: blob31_parse)
  show "decryptWithDynamicIV blob31 key16 1700000000123 = Inr (JStr secret)"
    by (rule blob31_value)
qed

end
